(* ===== verification/Sm_Prelude.thy ===== *)
theory Sm_Prelude
  imports Main "HOL-Library.Word"
begin

text \<open>
  Shared vocabulary of the development.

  The first part fixes the types of the Rust standard library that the sources use everywhere:
  \<open>std::task::Poll\<close>, \<open>std::io::Error\<close> and \<open>std::io::Result\<close>, a result of a computation that may
  panic, and the width of \<open>usize\<close>.  The second part has the facts on slices of byte vectors that the
  buffer components share.  The third part is the notion of reachable states of a step relation and
  the interface \<open>invariant_system\<close> through which every state machine of the development proves its
  invariants; \<open>simulation\<close> extends it by the refinement of a specification.
\<close>

section \<open>Types of the Rust standard library\<close>

type_synonym byte = "8 word"

datatype 'a poll = Ready 'a | Pending

datatype error_kind = Other | WriteZero | InvalidInput | Os_kind nat

record io_error =
  err_kind :: error_kind
  err_msg :: string

text \<open>\<open>Inl\<close> is the \<open>Err\<close> of the source, \<open>Inr\<close> its \<open>Ok\<close>.\<close>

type_synonym 'a io_result = "io_error + 'a"

definition io_err :: "error_kind \<Rightarrow> string \<Rightarrow> 'a io_result" where
  "io_err k m = Inl \<lparr>err_kind = k, err_msg = m\<rparr>"

text \<open>A computation either produces a value or panics (a failed assertion, an index out of range,
  an \<open>unwrap\<close> of \<open>None\<close>, an arithmetic overflow).\<close>

datatype 'a outcome = Val 'a | Panic string

definition usize_max :: nat where
  "usize_max = 2 ^ 64 - 1"

named_theorems sm_defs \<open>definitions of the model unfolded together\<close>
named_theorems inv_intros \<open>preservation of invariants by the operations\<close>

section \<open>Slices\<close>

text \<open>\<open>&buf[a..b]\<close>, for bounds that are in range.\<close>

definition subslice :: "'a list \<Rightarrow> nat \<Rightarrow> nat \<Rightarrow> 'a list" where
  "subslice xs a b = take (b - a) (drop a xs)"

text \<open>\<open>xs[a..a + ys.len()]\<close> overwritten with \<open>ys\<close>, for a range that is inside \<open>xs\<close>.\<close>

definition overwrite :: "'a list \<Rightarrow> nat \<Rightarrow> 'a list \<Rightarrow> 'a list" where
  "overwrite xs a ys = take a xs @ ys @ drop (a + length ys) xs"

lemma length_subslice [simp]: "b \<le> length xs \<Longrightarrow> length (subslice xs a b) = b - a"
  by (simp add: subslice_def)

lemma subslice_empty [simp]: "b \<le> a \<Longrightarrow> subslice xs a b = []"
  by (simp add: subslice_def)

lemma subslice_full [simp]: "subslice xs 0 (length xs) = xs"
  by (simp add: subslice_def)

text \<open>Consuming \<open>n\<close> elements of a subslice from the front.\<close>

lemma subslice_consume:
  assumes "n \<le> b - a"
  shows "subslice xs a b = take n (subslice xs a b) @ subslice xs (a + n) b"
proof -
  have "subslice xs (a + n) b = drop n (subslice xs a b)"
    by (simp add: subslice_def drop_take add.commute)
  then show ?thesis by simp
qed

lemma length_overwrite [simp]:
  "a + length ys \<le> length xs \<Longrightarrow> length (overwrite xs a ys) = length xs"
  by (simp add: overwrite_def)

lemma overwrite_eq_Nil_iff [simp]:
  "a + length ys \<le> length xs \<Longrightarrow> overwrite xs a ys = [] \<longleftrightarrow> xs = []"
  by (metis length_0_conv length_overwrite)

text \<open>Appending to the pending window of a buffer extends the window by what was written.\<close>

lemma subslice_overwrite:
  assumes "a \<le> b" and "b + length ys \<le> length xs"
  shows "subslice (overwrite xs b ys) a (b + length ys) = subslice xs a b @ ys"
  using assms by (auto simp: subslice_def overwrite_def drop_take)

lemma drop_eq_self: "length xs \<le> length (drop k xs) \<Longrightarrow> drop k xs = xs"
  by (cases xs; cases k) auto

lemma concat_map_cong: "(\<And>i. i \<in> set is \<Longrightarrow> f i = g i) \<Longrightarrow> concat (map f is) = concat (map g is)"
  by (induction "is") auto

text \<open>Updating an element without changing what is read of it.\<close>

lemma map_update_same: "f y = f (xs ! k) \<Longrightarrow> map f (xs[k := y]) = map f xs"
  by (cases "k < length xs") (simp_all add: map_update list_update_same_conv not_less list_update_beyond)

section \<open>Reachable states and invariants\<close>

inductive reach :: "('s \<Rightarrow> bool) \<Rightarrow> ('s \<Rightarrow> 's \<Rightarrow> bool) \<Rightarrow> 's \<Rightarrow> bool"
  for init step where
  reach_init: "init s \<Longrightarrow> reach init step s"
| reach_step: "reach init step s \<Longrightarrow> step s t \<Longrightarrow> reach init step t"

lemma reach_steps: "step\<^sup>*\<^sup>* s t \<Longrightarrow> reach init step s \<Longrightarrow> reach init step t"
  by (induction rule: rtranclp_induct) (auto intro: reach_step)

locale invariant_system =
  fixes init :: "'s \<Rightarrow> bool" and step :: "'s \<Rightarrow> 's \<Rightarrow> bool" and inv :: "'s \<Rightarrow> bool"
  assumes inv_init: "init s \<Longrightarrow> inv s"
    and inv_step: "inv s \<Longrightarrow> step s t \<Longrightarrow> inv t"
begin

lemma reach_inv: "reach init step s \<Longrightarrow> inv s"
  by (induction rule: reach.induct) (auto intro: inv_init inv_step)

lemma steps_inv: "step\<^sup>*\<^sup>* s t \<Longrightarrow> inv s \<Longrightarrow> inv t"
  by (induction rule: rtranclp_induct) (auto intro: inv_step)

end

text \<open>An invariant system whose steps are, seen through \<open>abs\<close>, steps of a specification.\<close>

locale simulation = invariant_system +
  fixes spec_init :: "'t \<Rightarrow> bool" and spec_step :: "'t \<Rightarrow> 't \<Rightarrow> bool" and abs :: "'s \<Rightarrow> 't"
  assumes sim_init: "init s \<Longrightarrow> spec_init (abs s)"
    and sim_step: "inv s \<Longrightarrow> step s t \<Longrightarrow> spec_step\<^sup>*\<^sup>* (abs s) (abs t)"
begin

lemma reach_abs: "reach init step s \<Longrightarrow> reach spec_init spec_step (abs s)"
proof (induction rule: reach.induct)
  case (reach_init s)
  then show ?case by (intro reach.reach_init sim_init)
next
  case (reach_step s t)
  from sim_step [OF reach_inv [OF reach_step(1)] reach_step(2)] reach_step.IH show ?case by (rule reach_steps)
qed

lemma steps_abs: "step\<^sup>*\<^sup>* s t \<Longrightarrow> inv s \<Longrightarrow> spec_step\<^sup>*\<^sup>* (abs s) (abs t)"
proof (induction rule: rtranclp_induct)
  case (step t u)
  with sim_step [OF steps_inv [OF step(1) step.prems] step(2)] show ?case by (meson rtranclp_trans)
qed simp

end

end
