(* ===== verification/Conn.thy ===== *)
theory Conn
  imports Sm_Prelude
begin

text \<open>
  The model of \<open>src/conn.rs\<close>: the connection handle given to the user and its configuration.

  Socket addresses are a type parameter.  The sender half of the configuration channel is named by
  the identity of the channel; whether its receiver still exists when the handle sends is an
  argument (\<open>rx_alive\<close>), and what was sent is a result.  The map of live connections of
  \<open>ConnectionState\<close> (behind an \<open>Arc\<close> in the code) is passed in and out; its values name the stop
  channels whose receivers it owns.
\<close>

section \<open>State and operations\<close>

text \<open>A \<open>Duration\<close> is its number of nanoseconds; zero means no automatic flush.\<close>

record conn_config =
  write_flush_interval :: nat
  read_msg_flush_interval :: nat
  msg_buffer_size :: nat

record conn_inner =
  conn_config_setter :: nat

type_synonym 'a connections = "'a \<times> 'a \<rightharpoonup> nat"

record 'a conn =
  consumed :: bool
  inner :: "conn_inner option"
  local_addr :: 'a
  peer_addr :: 'a

definition conn_new :: "nat \<Rightarrow> 'a \<Rightarrow> 'a \<Rightarrow> 'a conn" where
  "conn_new setter la pa =
     \<lparr>consumed = False, inner = Some \<lparr>conn_config_setter = setter\<rparr>, local_addr = la, peer_addr = pa\<rparr>"

text \<open>The result, the handle afterwards, and the channel and value that were sent, if any.\<close>

definition start_connection ::
  "bool \<Rightarrow> 'm \<Rightarrow> conn_config \<Rightarrow> 'a conn \<Rightarrow>
     unit io_result outcome \<times> 'a conn \<times> (nat \<times> 'm \<times> conn_config) option" where
  "start_connection rx_alive on_msg config c =
     (if consumed c
      then (Val (io_err Other ''calling `start_connection` after connection consumed''), c, None)
      else let c1 = c\<lparr>consumed := True\<rparr> in
        (case inner c1 of
           None \<Rightarrow> (Panic ''called `Option::unwrap()` on a `None` value'', c1, None)
         | Some i \<Rightarrow>
             let c2 = c1\<lparr>inner := None\<rparr> in
             if \<not> rx_alive then (Val (io_err Other ''callback config setter send failed''), c2, None)
             else (Val (Inr ()), c2, Some (conn_config_setter i, on_msg, config))))"

text \<open>The result, the handle afterwards, the channel whose sender was dropped, if any, and the map of
  connections.\<close>

definition conn_close ::
  "'a conn \<Rightarrow> 'a connections \<Rightarrow> unit io_result outcome \<times> 'a conn \<times> nat option \<times> 'a connections" where
  "conn_close c conns =
     (let conns' = conns((local_addr c, peer_addr c) := None) in
      if consumed c then (Val (Inr ()), c, None, conns')
      else let c1 = c\<lparr>consumed := True\<rparr> in
        (case inner c1 of
           None \<Rightarrow> (Panic ''called `Option::unwrap()` on a `None` value'', c1, None, conns)
         | Some i \<Rightarrow> (Val (Inr ()), c1\<lparr>inner := None\<rparr>, Some (conn_config_setter i), conns')))"

text \<open>Dropping the handle drops the setter it still has.\<close>

definition conn_drop :: "'a conn \<Rightarrow> nat option" where
  "conn_drop c = (case inner c of Some i \<Rightarrow> Some (conn_config_setter i) | None \<Rightarrow> None)"

section \<open>Invariant\<close>

text \<open>The flag fences the option: the setter is there exactly until the handle is consumed, so
  neither \<open>unwrap\<close> can fail.\<close>

definition conn_inv :: "'a conn \<Rightarrow> bool" where
  "conn_inv c \<longleftrightarrow> (consumed c \<longleftrightarrow> inner c = None)"

lemma conn_new_inv [inv_intros]: "conn_inv (conn_new setter la pa)"
  by (simp add: conn_inv_def conn_new_def)

lemma start_connection_inv [inv_intros]:
  "conn_inv c \<Longrightarrow> conn_inv (fst (snd (start_connection rx_alive m cfg c)))"
  by (auto simp: conn_inv_def start_connection_def Let_def split: option.splits)

lemma conn_close_inv [inv_intros]: "conn_inv c \<Longrightarrow> conn_inv (fst (snd (conn_close c conns)))"
  by (auto simp: conn_inv_def conn_close_def Let_def split: option.splits)

lemma start_connection_cases:
  assumes "conn_inv c"
  shows "start_connection rx_alive m cfg c =
    (if consumed c
     then (Val (io_err Other ''calling `start_connection` after connection consumed''), c, None)
     else if rx_alive
     then (Val (Inr ()), c\<lparr>consumed := True, inner := None\<rparr>,
           Some (conn_config_setter (the (inner c)), m, cfg))
     else (Val (io_err Other ''callback config setter send failed''),
           c\<lparr>consumed := True, inner := None\<rparr>, None))"
  using assms by (auto simp: conn_inv_def start_connection_def Let_def)

lemma conn_close_cases:
  assumes "conn_inv c"
  shows "conn_close c conns =
    (Val (Inr ()), c\<lparr>consumed := True, inner := None\<rparr>,
     if consumed c then None else Some (conn_config_setter (the (inner c))),
     conns((local_addr c, peer_addr c) := None))"
  using assms by (cases c) (auto simp: conn_inv_def conn_close_def Let_def)

text \<open>A sequence of calls on one handle.\<close>

datatype 'm conn_call = Call_start bool 'm conn_config | Call_close

text \<open>The values sent on the configuration channel and the senders dropped, oldest first.\<close>

fun conn_calls ::
  "'m conn_call list \<Rightarrow> 'a conn \<Rightarrow> 'a connections \<Rightarrow>
     unit io_result outcome list \<times> (nat \<times> 'm \<times> conn_config) list \<times> nat list \<times> 'a conn \<times> 'a connections" where
  "conn_calls [] c conns = ([], [], [], c, conns)"
| "conn_calls (Call_start rx m cfg # cs) c conns =
     (case start_connection rx m cfg c of
        (r, c1, sent) \<Rightarrow>
          (case conn_calls cs c1 conns of
             (rs, sents, drops, c', conns') \<Rightarrow>
               (r # rs, (case sent of None \<Rightarrow> sents | Some v \<Rightarrow> v # sents), drops, c', conns')))"
| "conn_calls (Call_close # cs) c conns =
     (case conn_close c conns of
        (r, c1, dropped, conns1) \<Rightarrow>
          (case conn_calls cs c1 conns1 of
             (rs, sents, drops, c', conns') \<Rightarrow>
               (r # rs, sents, (case dropped of None \<Rightarrow> drops | Some d \<Rightarrow> d # drops), c', conns')))"

text \<open>What a call on a used handle returns.\<close>

fun late_result :: "'m conn_call \<Rightarrow> unit io_result outcome" where
  "late_result (Call_start _ _ _) = Val (io_err Other ''calling `start_connection` after connection consumed'')"
| "late_result Call_close = Val (Inr ())"

lemma conn_calls_consumed:
  assumes "conn_inv c" and "consumed c"
  shows "conn_calls cs c conns = (map late_result cs, [], [], c,
    if Call_close \<in> set cs then conns((local_addr c, peer_addr c) := None) else conns)"
proof (induction cs arbitrary: conns)
  case (Cons x cs)
  have same: "c\<lparr>consumed := True, inner := None\<rparr> = c" using assms by (cases c) (simp add: conn_inv_def)
  show ?case
    using Cons assms same
    by (cases x) (auto simp: start_connection_cases [OF assms(1)] conn_close_cases [OF assms(1)])
qed simp

section \<open>Properties\<close>

text \<open>C28: the handle is used once, by the first call.  For every sequence of \<open>start_connection\<close> and \<open>close\<close> on a
  new handle, the first call alone uses the configuration channel: a start sends its callback and
  configuration, or reports that the receiver is gone, and a close drops the sender.  Every later start
  reports the handle as consumed, every later close returns \<open>Ok\<close>, and neither sends or drops anything; no call
  panics.  Any close among the calls removes the connection from the map, and nothing else changes it.\<close>

theorem conn_used_once:
  assumes "conn_calls (x # cs) (conn_new k la pa) conns = (rs, sents, drops, c', conns')"
  shows "(case x of
      Call_start rx m g \<Rightarrow>
        rs = Val (if rx then Inr () else io_err Other ''callback config setter send failed'') # map late_result cs \<and>
        sents = (if rx then [(k, m, g)] else []) \<and> drops = []
    | Call_close \<Rightarrow> rs = Val (Inr ()) # map late_result cs \<and> sents = [] \<and> drops = [k]) \<and>
    consumed c' \<and> inner c' = None \<and> (\<forall>m. Panic m \<notin> set rs) \<and>
    conns' = (if Call_close \<in> set (x # cs) then conns((la, pa) := None) else conns)"
proof -
  let ?c = "conn_new k la pa" and ?c1 = "(conn_new k la pa)\<lparr>consumed := True, inner := None\<rparr>"
  have inv: "conn_inv ?c" "conn_inv ?c1" "consumed ?c1" "\<not> consumed ?c" by (simp_all add: conn_inv_def conn_new_def)
  have new: "local_addr ?c = la" "peer_addr ?c = pa" "inner ?c = Some \<lparr>conn_config_setter = k\<rparr>" by (simp_all add: conn_new_def)
  note later = conn_calls_consumed [OF inv(2,3)]
  have no_panic: "Panic m \<notin> set (map late_result cs)" for m
  proof -
    have "late_result y \<noteq> Panic m" for y :: "'a conn_call" by (cases y) simp_all
    then show ?thesis by (auto dest: sym)
  qed
  show ?thesis
    using assms inv(4) no_panic
    by (cases x) (auto simp: later new start_connection_cases [OF inv(1)] conn_close_cases [OF inv(1)] simp del: set_map
        split: if_splits)
qed

theorem conn_used_once_witness:
  "\<exists>rs c' conns'. conn_calls
       [Call_close, Call_start True ''m'' \<lparr>write_flush_interval = 0, read_msg_flush_interval = 0, msg_buffer_size = 0\<rparr>]
       (conn_new 3 (1 :: nat) 2) [(1, 2) \<mapsto> 3] = (rs, [], [3], c', conns') \<and>
     rs ! 1 = Val (io_err Other ''calling `start_connection` after connection consumed'') \<and> conns' (1, 2) = None"
proof -
  let ?g = "\<lparr>write_flush_interval = 0, read_msg_flush_interval = 0, msg_buffer_size = 0\<rparr> :: conn_config"
  obtain rs sents drops c' conns' where
    r: "conn_calls [Call_close, Call_start True ''m'' ?g] (conn_new 3 (1 :: nat) 2) [(1, 2) \<mapsto> 3] = (rs, sents, drops, c', conns')"
    by (rule prod_cases5)
  from conn_used_once [OF r] r show ?thesis by simp
qed

end
