(* ===== verification/Async_Ffi.thy ===== *)
theory Async_Ffi
  imports Sm_Prelude
begin

text \<open>
  The model of \<open>src/c_api/async_ffi\<close>: wakers that cross the foreign interface in both directions.

  A Rust \<open>Waker\<close> is a data pointer and a vtable; what the vtable's four functions do is an argument, and
  the waker is what was called on it.  The first part is \<open>CWaker\<close>, a Rust waker that C code holds; the
  second is \<open>Notifier\<close>, a C object that Rust code holds as a waker.  Ownership is explicit: a waker that is
  owned by nobody any more has been dropped exactly once.
\<close>

section \<open>Wakers\<close>

datatype vtable_fn = V_clone | V_wake | V_wake_by_ref | V_drop

record raw_waker =
  waker_data :: nat
  waker_vtable :: nat

text \<open>The calls made through vtables so far, oldest first.\<close>

type_synonym waker_log = "(raw_waker \<times> vtable_fn) list"

text \<open>\<open>Waker\<close> of the standard library: \<open>wake_by_ref\<close>, \<open>wake\<close> (which consumes the waker without dropping it)
  and the drop of a waker.\<close>

definition std_wake_by_ref :: "raw_waker \<Rightarrow> waker_log \<Rightarrow> waker_log" where
  "std_wake_by_ref w l = l @ [(w, V_wake_by_ref)]"

definition std_drop :: "raw_waker \<Rightarrow> waker_log \<Rightarrow> waker_log" where
  "std_drop w l = l @ [(w, V_drop)]"

section \<open>Rust wakers in C\<close>

record c_waker =
  cw_data :: nat
  cw_vtable :: nat

text \<open>\<open>from_waker\<close> takes the waker apart and forgets it: no call is made.\<close>

definition from_waker :: "raw_waker \<Rightarrow> c_waker" where
  "from_waker w = \<lparr>cw_data = waker_data w, cw_vtable = waker_vtable w\<rparr>"

definition into_waker :: "c_waker \<Rightarrow> raw_waker" where
  "into_waker c = \<lparr>waker_data = cw_data c, waker_vtable = cw_vtable c\<rparr>"

text \<open>The waker is put together, used by reference and forgotten again.\<close>

definition cw_wake_by_ref :: "c_waker \<Rightarrow> waker_log \<Rightarrow> waker_log" where
  "cw_wake_by_ref c l = std_wake_by_ref \<lparr>waker_data = cw_data c, waker_vtable = cw_vtable c\<rparr> l"

definition socket_manager_waker_wake :: "c_waker \<Rightarrow> waker_log \<Rightarrow> waker_log" where
  "socket_manager_waker_wake c l = cw_wake_by_ref c l"

definition socket_manager_waker_free :: "c_waker \<Rightarrow> waker_log \<Rightarrow> waker_log" where
  "socket_manager_waker_free c l = std_drop (into_waker c) l"

text \<open>What C code does with a waker it was given: wake it any number of times, then free it.\<close>

fun c_wakes :: "nat \<Rightarrow> c_waker \<Rightarrow> waker_log \<Rightarrow> waker_log" where
  "c_wakes 0 c l = l"
| "c_wakes (Suc n) c l = c_wakes n c (socket_manager_waker_wake c l)"

section \<open>C notifiers in Rust\<close>

text \<open>The vtable of \<open>Notifier::to_waker\<close>: the state is the number of calls of
  \<open>socket_manager_extern_notifier_wake\<close> per notifier; \<open>clone\<close> copies the pointer, \<open>drop\<close> does nothing.\<close>

record notifier =
  this :: nat

definition extern_notifier_wake :: "notifier \<Rightarrow> (nat \<Rightarrow> nat) \<Rightarrow> (nat \<Rightarrow> nat)" where
  "extern_notifier_wake n wakes = wakes(this n := Suc (wakes (this n)))"

fun notifier_vtable :: "vtable_fn \<Rightarrow> nat \<Rightarrow> (nat \<Rightarrow> nat) \<Rightarrow> (nat \<Rightarrow> nat)" where
  "notifier_vtable V_clone dat wakes = wakes"
| "notifier_vtable V_wake dat wakes = extern_notifier_wake \<lparr>this = dat\<rparr> wakes"
| "notifier_vtable V_wake_by_ref dat wakes = extern_notifier_wake \<lparr>this = dat\<rparr> wakes"
| "notifier_vtable V_drop dat wakes = wakes"

text \<open>The name of the static vtable.\<close>

definition MSG_SENDER_WAKER_VTABLE :: nat where
  "MSG_SENDER_WAKER_VTABLE = 1"

definition to_waker :: "notifier \<Rightarrow> raw_waker" where
  "to_waker n = \<lparr>waker_data = this n, waker_vtable = MSG_SENDER_WAKER_VTABLE\<rparr>"

text \<open>Calling a waker that was made of a notifier.\<close>

definition waker_call :: "vtable_fn \<Rightarrow> raw_waker \<Rightarrow> (nat \<Rightarrow> nat) \<Rightarrow> (nat \<Rightarrow> nat)" where
  "waker_call f w wakes =
     (if waker_vtable w = MSG_SENDER_WAKER_VTABLE then notifier_vtable f (waker_data w) wakes else wakes)"

section \<open>Properties\<close>

lemma into_from_waker: "into_waker (from_waker w) = w"
  by (simp add: into_waker_def from_waker_def)

lemma c_wakes_log: "c_wakes n (from_waker w) l = l @ replicate n (w, V_wake_by_ref)"
  by (induction n arbitrary: l)
    (simp_all add: socket_manager_waker_wake_def cw_wake_by_ref_def std_wake_by_ref_def from_waker_def)

text \<open>A Rust waker survives its stay in C.  Handing it over calls nothing, each wake from C reaches the
  task once without giving up the waker, and freeing it drops it: over its whole life in C the waker is
  dropped exactly once and cloned never.\<close>

lemma c_waker_life:
  "socket_manager_waker_free (from_waker w) (c_wakes n (from_waker w) l) =
     l @ replicate n (w, V_wake_by_ref) @ [(w, V_drop)]"
  by (simp add: c_wakes_log socket_manager_waker_free_def std_drop_def into_from_waker)

text \<open>A notifier is woken exactly as often as its waker.  For every sequence of calls on the wakers
  made from a notifier, the foreign wake function is called once per wake; clones and drops never reach
  the C side, so the C code has to keep the notifier alive by itself.\<close>

lemma notifier_wakes:
  "fold (\<lambda>f. waker_call f (to_waker n)) fs wakes (this n) =
     wakes (this n) + length (filter (\<lambda>f. f = V_wake \<or> f = V_wake_by_ref) fs)"
proof (induction fs arbitrary: wakes)
  case (Cons f fs)
  then show ?case by (cases f) (simp_all add: waker_call_def to_waker_def extern_notifier_wake_def)
qed simp

end
