(* ===== verification/Msg_Sender.thy ===== *)
theory Msg_Sender
  imports Async_Ffi
begin

text \<open>
  The model of \<open>src/msg_sender.rs\<close>: the sending half of a connection, a chain of ring buffers that the
  writer task drains.

  The ring buffer (crate \<open>async_ringbuf\<close>) and the unbounded channel (\<open>tokio::sync::mpsc\<close>) are not part
  of this repository: their operations are the fields of the argument \<open>L\<close>, and what the code relies on
  of them is the predicate \<open>rb_laws\<close>, stated with the observers \<open>V\<close> (the queued bytes, the capacity,
  which halves are gone).

  The state shared by the sender and the writer is a \<open>world\<close>: the ring buffers allocated so far (a ring
  is named by its position) and the channel that carries rings to the writer.  A sender runs on a
  thread of the user while the writer task runs on the runtime, so the other side may act between any
  two library calls of one method: the argument \<open>env\<close> is what it does there.  The counter \<open>clock\<close> lets
  \<open>env\<close> do something different each time.  \<open>sent\<close> records the bytes handed over to the chain, in order;
  the code has no such field.
\<close>

section \<open>The libraries\<close>

record ('r, 'c) rb_lib =
  rb_new :: "nat \<Rightarrow> 'r"
  rb_push_slice :: "'r \<Rightarrow> byte list \<Rightarrow> nat \<times> 'r"
  rb_prod_closed :: "'r \<Rightarrow> bool"
  rb_register_waker :: "'r \<Rightarrow> raw_waker \<Rightarrow> 'r"
  rb_poll_write :: "'r \<Rightarrow> raw_waker \<Rightarrow> byte list \<Rightarrow> nat io_result poll \<times> 'r"
  rb_drop_prod :: "'r \<Rightarrow> 'r"
  rb_wait_occupied :: "'r \<Rightarrow> nat \<Rightarrow> bool"
  rb_cons_closed :: "'r \<Rightarrow> bool"
  rb_occupied_len :: "'r \<Rightarrow> nat"
  rb_as_slices :: "'r \<Rightarrow> byte list \<times> byte list"
  rb_advance_read_index :: "'r \<Rightarrow> nat \<Rightarrow> 'r"
  rb_drop_cons :: "'r \<Rightarrow> 'r"
  ch_new :: 'c
  ch_send :: "'c \<Rightarrow> nat \<Rightarrow> string + 'c"
  ch_recv :: "'c \<Rightarrow> nat option poll \<times> 'c"
  ch_drop_tx :: "'c \<Rightarrow> 'c"
  ch_drop_rx :: "'c \<Rightarrow> nat list \<times> 'c"

record ('r, 'c) rb_view =
  items :: "'r \<Rightarrow> byte list"
  cap :: "'r \<Rightarrow> nat"
  prod_gone :: "'r \<Rightarrow> bool"
  cons_gone :: "'r \<Rightarrow> bool"
  prod_waker :: "'r \<Rightarrow> raw_waker option"
  wakes :: "'r \<Rightarrow> raw_waker list"
  queued :: "'c \<Rightarrow> nat list"
  tx_gone :: "'c \<Rightarrow> bool"
  rx_gone :: "'c \<Rightarrow> bool"

text \<open>What an operation may do with the waker that the producer has registered in a ring: keep it, or wake
  it and forget it; \<open>wakes\<close> are the wakers the ring has woken so far.\<close>

definition waker_kept :: "('r, 'c) rb_view \<Rightarrow> 'r \<Rightarrow> 'r \<Rightarrow> bool" where
  "waker_kept V r r' \<longleftrightarrow> prod_waker V r' = prod_waker V r \<and> wakes V r' = wakes V r"

definition wakes_producer :: "('r, 'c) rb_view \<Rightarrow> 'r \<Rightarrow> 'r \<Rightarrow> bool" where
  "wakes_producer V r r' \<longleftrightarrow> (\<exists>ks. wakes V r' = wakes V r @ ks \<and> (\<forall>k. prod_waker V r = Some k \<longrightarrow> k \<in> set ks))"

text \<open>The producer half: \<open>push_slice\<close> appends as many bytes as fit and returns their number; a poll
  of \<open>poll_write\<close> that returns a count has appended that many; dropping the half is what its
  counterpart sees as closed.\<close>

definition prod_laws :: "('r, 'c) rb_lib \<Rightarrow> ('r, 'c) rb_view \<Rightarrow> bool" where
  "prod_laws L V \<longleftrightarrow>
     (\<forall>n. items V (rb_new L n) = [] \<and> cap V (rb_new L n) = n \<and>
        \<not> prod_gone V (rb_new L n) \<and> \<not> cons_gone V (rb_new L n)) \<and>
     (\<forall>r bs n r'. rb_push_slice L r bs = (n, r') \<longrightarrow>
        n = min (length bs) (cap V r - length (items V r)) \<and>
        items V r' = items V r @ take n bs \<and> cap V r' = cap V r \<and>
        prod_gone V r' = prod_gone V r \<and> cons_gone V r' = cons_gone V r \<and> waker_kept V r r') \<and>
     (\<forall>r. rb_prod_closed L r = cons_gone V r) \<and>
     (\<forall>r k. items V (rb_register_waker L r k) = items V r \<and> cap V (rb_register_waker L r k) = cap V r \<and>
        prod_gone V (rb_register_waker L r k) = prod_gone V r \<and>
        cons_gone V (rb_register_waker L r k) = cons_gone V r \<and>
        prod_waker V (rb_register_waker L r k) = Some k \<and> wakes V (rb_register_waker L r k) = wakes V r) \<and>
     (\<forall>r k bs res r'. rb_poll_write L r k bs = (res, r') \<longrightarrow>
        cap V r' = cap V r \<and> prod_gone V r' = prod_gone V r \<and> cons_gone V r' = cons_gone V r \<and>
        (case res of
           Ready (Inr n) \<Rightarrow> n \<le> length bs \<and> n \<le> cap V r - length (items V r) \<and>
             items V r' = items V r @ take n bs
         | _ \<Rightarrow> items V r' = items V r)) \<and>
     (\<forall>r. items V (rb_drop_prod L r) = items V r \<and> cap V (rb_drop_prod L r) = cap V r \<and>
        prod_gone V (rb_drop_prod L r) \<and> cons_gone V (rb_drop_prod L r) = cons_gone V r)"

text \<open>The consumer half: \<open>as_slices\<close> returns the contents in two pieces, the first of which is empty only
  if both are; advancing by at most the number of occupied slots removes that many bytes and wakes the
  producer if it makes room; dropping the half wakes the producer; \<open>wait_occupied\<close> is done when enough bytes are there or the producer is gone.\<close>

definition cons_laws :: "('r, 'c) rb_lib \<Rightarrow> ('r, 'c) rb_view \<Rightarrow> bool" where
  "cons_laws L V \<longleftrightarrow>
     (\<forall>r n. rb_wait_occupied L r n \<longleftrightarrow> n \<le> length (items V r) \<or> prod_gone V r) \<and>
     (\<forall>r. rb_cons_closed L r = prod_gone V r) \<and>
     (\<forall>r. rb_occupied_len L r = length (items V r)) \<and>
     (\<forall>r a b. rb_as_slices L r = (a, b) \<longrightarrow> items V r = a @ b \<and> (a = [] \<longrightarrow> b = [])) \<and>
     (\<forall>r n. n \<le> length (items V r) \<longrightarrow>
        items V (rb_advance_read_index L r n) = drop n (items V r) \<and>
        cap V (rb_advance_read_index L r n) = cap V r \<and>
        prod_gone V (rb_advance_read_index L r n) = prod_gone V r \<and>
        cons_gone V (rb_advance_read_index L r n) = cons_gone V r \<and>
        (wakes_producer V r (rb_advance_read_index L r n) \<or> n = 0 \<and> waker_kept V r (rb_advance_read_index L r n))) \<and>
     (\<forall>r. items V (rb_drop_cons L r) = items V r \<and> cap V (rb_drop_cons L r) = cap V r \<and>
        prod_gone V (rb_drop_cons L r) = prod_gone V r \<and> cons_gone V (rb_drop_cons L r) \<and>
        wakes_producer V r (rb_drop_cons L r))"

text \<open>The channel is first in, first out; a send fails exactly if the receiver is gone; a receive on an
  empty channel is pending until the sender is gone.\<close>

definition chan_laws :: "('r, 'c) rb_lib \<Rightarrow> ('r, 'c) rb_view \<Rightarrow> bool" where
  "chan_laws L V \<longleftrightarrow>
     queued V (ch_new L) = [] \<and> \<not> tx_gone V (ch_new L) \<and> \<not> rx_gone V (ch_new L) \<and>
     (\<forall>c x. rx_gone V c \<longleftrightarrow> (\<exists>e. ch_send L c x = Inl e)) \<and>
     (\<forall>c x c'. ch_send L c x = Inr c' \<longrightarrow> queued V c' = queued V c @ [x] \<and>
        tx_gone V c' = tx_gone V c \<and> rx_gone V c' = rx_gone V c) \<and>
     (\<forall>c res c'. ch_recv L c = (res, c') \<longrightarrow>
        queued V c' = tl (queued V c) \<and> tx_gone V c' = tx_gone V c \<and> rx_gone V c' = rx_gone V c \<and>
        res = (case queued V c of x # _ \<Rightarrow> Ready (Some x)
               | [] \<Rightarrow> if tx_gone V c then Ready None else Pending)) \<and>
     (\<forall>c. queued V (ch_drop_tx L c) = queued V c \<and> tx_gone V (ch_drop_tx L c) \<and>
        rx_gone V (ch_drop_tx L c) = rx_gone V c) \<and>
     (\<forall>c xs c'. ch_drop_rx L c = (xs, c') \<longrightarrow> xs = queued V c \<and> queued V c' = [] \<and>
        tx_gone V c' = tx_gone V c \<and> rx_gone V c')"

definition rb_laws :: "('r, 'c) rb_lib \<Rightarrow> ('r, 'c) rb_view \<Rightarrow> bool" where
  "rb_laws L V \<longleftrightarrow> prod_laws L V \<and> cons_laws L V \<and> chan_laws L V"

section \<open>State and operations\<close>

definition RING_BUFFER_SIZE :: nat where
  "RING_BUFFER_SIZE = 256 * 1024"

record ('r, 'c) world =
  rings :: "'r list"
  chan :: 'c
  clock :: nat
  sent :: "byte list"

record msg_sender =
  ring_buf :: nat

datatype burst_write_state = Burst_pending | Burst_finished

definition set_ring :: "nat \<Rightarrow> 'r \<Rightarrow> ('r, 'c, 'z) world_scheme \<Rightarrow> ('r, 'c, 'z) world_scheme" where
  "set_ring i r w = w\<lparr>rings := (rings w)[i := r], clock := Suc (clock w)\<rparr>"

lemma set_ring_simps [simp]:
  "length (rings (set_ring i r w)) = length (rings w)" "chan (set_ring i r w) = chan w"
  "sent (set_ring i r w) = sent w"
  by (simp_all add: set_ring_def)

text \<open>\<open>make_sender\<close>: the world of a new connection and the sender on its first ring.\<close>

definition make_sender :: "('r, 'c) rb_lib \<Rightarrow> (msg_sender \<times> ('r, 'c) world) outcome" where
  "make_sender L =
     (case ch_send L (ch_new L) 0 of
        Inl e \<Rightarrow> Panic (''called `Result::unwrap()` on an `Err` value: '' @ e)
      | Inr c \<Rightarrow> Val (\<lparr>ring_buf = 0\<rparr>,
          \<lparr>rings = [rb_new L RING_BUFFER_SIZE], chan = c, clock = 0, sent = []\<rparr>))"

text \<open>One \<open>push_slice\<close> on the sender's ring, after the other side has acted.\<close>

definition push_ring ::
  "('r, 'c) rb_lib \<Rightarrow> (('r, 'c, 'z) world_scheme \<Rightarrow> ('r, 'c, 'z) world_scheme) \<Rightarrow> nat \<Rightarrow> byte list \<Rightarrow>
     ('r, 'c, 'z) world_scheme \<Rightarrow> nat \<times> ('r, 'c, 'z) world_scheme" where
  "push_ring L env i bs w =
     (let w0 = env w in
      case rb_push_slice L (rings w0 ! i) bs of
        (n, r) \<Rightarrow> (n, (set_ring i r w0)\<lparr>sent := sent w0 @ take n bs\<rparr>))"

function burst_write ::
  "('r, 'c) rb_lib \<Rightarrow> (('r, 'c, 'z) world_scheme \<Rightarrow> ('r, 'c, 'z) world_scheme) \<Rightarrow> nat \<Rightarrow> nat \<Rightarrow> byte list \<Rightarrow>
     ('r, 'c, 'z) world_scheme \<Rightarrow> burst_write_state outcome \<times> nat \<times> ('r, 'c, 'z) world_scheme" where
  "burst_write L env offset i bytes w =
     (if offset > length bytes then (Panic ''range start index out of range'', offset, w)
      else (case push_ring L env i (drop offset bytes) w of
        (n, w1) \<Rightarrow>
          if n = 0 then (Val Burst_pending, offset, w1)
          else if offset + n = length bytes then (Val Burst_finished, offset + n, w1)
          else burst_write L env (offset + n) i bytes w1))"
  by pat_completeness auto
termination
  by (relation "measure (\<lambda>(_, _, offset, _, bytes, _). Suc (length bytes) - offset)") auto

declare burst_write.simps [simp del]

text \<open>Sending a new ring down the channel and making it the head of the chain: the end of
  \<open>send_nonblock\<close> and of \<open>flush\<close>.  The new ring holds \<open>bs\<close>; the assignment to \<open>self.ring_buf\<close> drops the
  old producer half, after the send.  If the send fails both halves of the new ring are dropped.\<close>

definition send_ring ::
  "('r, 'c) rb_lib \<Rightarrow> (('r, 'c, 'z) world_scheme \<Rightarrow> ('r, 'c, 'z) world_scheme) \<Rightarrow> 'r \<Rightarrow> byte list \<Rightarrow>
     msg_sender \<Rightarrow> ('r, 'c, 'z) world_scheme \<Rightarrow>
     unit io_result \<times> msg_sender \<times> ('r, 'c, 'z) world_scheme" where
  "send_ring L env ring bs s w =
     (let w0 = env w; new = length (rings w0) in
      case ch_send L (chan w0) new of
        Inl e \<Rightarrow> (io_err WriteZero (''connection closed: '' @ e), s, w0\<lparr>clock := Suc (clock w0)\<rparr>)
      | Inr c \<Rightarrow>
          let w1 = w0\<lparr>rings := rings w0 @ [ring], chan := c, clock := Suc (clock w0),
                      sent := sent w0 @ bs\<rparr>;
              w2 = env w1;
              old = ring_buf s
          in (Inr (), s\<lparr>ring_buf := new\<rparr>, set_ring old (rb_drop_prod L (rings w2 ! old)) w2))"

definition send_nonblock ::
  "('r, 'c) rb_lib \<Rightarrow> (('r, 'c, 'z) world_scheme \<Rightarrow> ('r, 'c, 'z) world_scheme) \<Rightarrow> byte list \<Rightarrow>
     msg_sender \<Rightarrow> ('r, 'c, 'z) world_scheme \<Rightarrow>
     unit io_result outcome \<times> msg_sender \<times> ('r, 'c, 'z) world_scheme" where
  "send_nonblock L env bytes s w =
     (if bytes = [] then (Val (Inr ()), s, w)
      else (case burst_write L env 0 (ring_buf s) bytes w of
        (Panic m, _, w1) \<Rightarrow> (Panic m, s, w1)
      | (Val Burst_finished, _, w1) \<Rightarrow> (Val (Inr ()), s, w1)
      | (Val Burst_pending, offset, w1) \<Rightarrow>
          let new_buf_size = max RING_BUFFER_SIZE (length bytes - offset);
              (n, ring) = rb_push_slice L (rb_new L new_buf_size) (drop offset bytes);
              (res, s', w') = send_ring L env ring (take n (drop offset bytes)) s w1
          in (Val res, s', w')))"

definition sender_flush ::
  "('r, 'c) rb_lib \<Rightarrow> (('r, 'c, 'z) world_scheme \<Rightarrow> ('r, 'c, 'z) world_scheme) \<Rightarrow>
     msg_sender \<Rightarrow> ('r, 'c, 'z) world_scheme \<Rightarrow>
     unit io_result \<times> msg_sender \<times> ('r, 'c, 'z) world_scheme" where
  "sender_flush L env s w = send_ring L env (rb_new L RING_BUFFER_SIZE) [] s w"

text \<open>The loop of \<open>send_async\<close>, which runs at most twice: the second time the waker is registered.\<close>

function send_async_loop ::
  "('r, 'c) rb_lib \<Rightarrow> (('r, 'c, 'z) world_scheme \<Rightarrow> ('r, 'c, 'z) world_scheme) \<Rightarrow> raw_waker \<Rightarrow> byte list \<Rightarrow>
     bool \<Rightarrow> nat \<Rightarrow> msg_sender \<Rightarrow> ('r, 'c, 'z) world_scheme \<Rightarrow>
     nat io_result poll outcome \<times> ('r, 'c, 'z) world_scheme" where
  "send_async_loop L env waker bytes waker_registered offset s w =
     (let w0 = env w in
      if rb_prod_closed L (rings w0 ! ring_buf s)
      then (Val (Ready (io_err Other ''connection closed'')), w0)
      else (case burst_write L env offset (ring_buf s) bytes w0 of
        (Panic m, _, w1) \<Rightarrow> (Panic m, w1)
      | (Val _, offset', w1) \<Rightarrow>
          if offset' > 0 then (Val (Ready (Inr offset')), w1)
          else if waker_registered then (Val Pending, w1)
          else let w2 = env w1;
                   w3 = set_ring (ring_buf s) (rb_register_waker L (rings w2 ! ring_buf s) waker) w2
               in send_async_loop L env waker bytes True offset' s w3))"
  by pat_completeness auto
termination
  by (relation "measure (\<lambda>(_, _, _, _, waker_registered, _). if waker_registered then 0 else 1)") auto

declare send_async_loop.simps [simp del]

definition send_async ::
  "('r, 'c) rb_lib \<Rightarrow> (('r, 'c, 'z) world_scheme \<Rightarrow> ('r, 'c, 'z) world_scheme) \<Rightarrow> byte list \<Rightarrow> raw_waker \<Rightarrow>
     msg_sender \<Rightarrow> ('r, 'c, 'z) world_scheme \<Rightarrow>
     nat io_result poll outcome \<times> ('r, 'c, 'z) world_scheme" where
  "send_async L env bytes waker s w =
     (if bytes = [] then (Val (Ready (Inr 0)), w)
      else send_async_loop L env waker bytes False 0 s w)"

text \<open>The future of \<open>send_block\<close>, polled by \<open>block_on\<close> at most \<open>fuel\<close> times; \<open>None\<close> if it is not ready by
  then.\<close>

fun write_all_future ::
  "('r, 'c) rb_lib \<Rightarrow> (('r, 'c, 'z) world_scheme \<Rightarrow> ('r, 'c, 'z) world_scheme) \<Rightarrow> raw_waker \<Rightarrow> byte list \<Rightarrow>
     nat \<Rightarrow> nat \<Rightarrow> msg_sender \<Rightarrow> ('r, 'c, 'z) world_scheme \<Rightarrow>
     (unit io_result \<times> ('r, 'c, 'z) world_scheme) option" where
  "write_all_future L env waker bytes 0 offset s w = None"
| "write_all_future L env waker bytes (Suc fuel) offset s w =
     (if offset < length bytes then
        let w0 = env w; i = ring_buf s in
        (case rb_poll_write L (rings w0 ! i) waker (drop offset bytes) of
           (Pending, r) \<Rightarrow> write_all_future L env waker bytes fuel offset s (set_ring i r w0)
         | (Ready (Inl e), r) \<Rightarrow> Some (Inl e, set_ring i r w0)
         | (Ready (Inr n), r) \<Rightarrow>
             write_all_future L env waker bytes fuel (offset + n) s
               ((set_ring i r w0)\<lparr>sent := sent w0 @ take n (drop offset bytes)\<rparr>))
      else Some (Inr (), w))"

text \<open>\<open>in_async\<close> says that the calling thread is running a task of a runtime, as every callback is:
  \<open>Handle::block_on\<close> panics there.\<close>

definition send_block ::
  "('r, 'c) rb_lib \<Rightarrow> (('r, 'c, 'z) world_scheme \<Rightarrow> ('r, 'c, 'z) world_scheme) \<Rightarrow> bool \<Rightarrow> nat \<Rightarrow> byte list \<Rightarrow> raw_waker \<Rightarrow>
     msg_sender \<Rightarrow> ('r, 'c, 'z) world_scheme \<Rightarrow>
     (unit io_result outcome \<times> ('r, 'c, 'z) world_scheme) option" where
  "send_block L env in_async fuel bytes waker s w =
     (if bytes = [] then Some (Val (Inr ()), w)
      else (case burst_write L env 0 (ring_buf s) bytes w of
        (Panic m, _, w1) \<Rightarrow> Some (Panic m, w1)
      | (Val Burst_finished, _, w1) \<Rightarrow> Some (Val (Inr ()), w1)
      | (Val Burst_pending, offset, w1) \<Rightarrow>
          if in_async then Some (Panic ''Cannot start a runtime from within a runtime'', w1)
          else map_option (\<lambda>(res, w2). (Val res, w2)) (write_all_future L env waker bytes fuel offset s w1)))"

text \<open>Dropping the sender: its fields are dropped in order, the producer half before the channel.\<close>

definition drop_sender ::
  "('r, 'c) rb_lib \<Rightarrow> (('r, 'c, 'z) world_scheme \<Rightarrow> ('r, 'c, 'z) world_scheme) \<Rightarrow>
     msg_sender \<Rightarrow> ('r, 'c, 'z) world_scheme \<Rightarrow> ('r, 'c, 'z) world_scheme" where
  "drop_sender L env s w =
     (let w0 = env w;
          w1 = env (set_ring (ring_buf s) (rb_drop_prod L (rings w0 ! ring_buf s)) w0)
      in w1\<lparr>chan := ch_drop_tx L (chan w1), clock := Suc (clock w1)\<rparr>)"

section \<open>What the sender hands over\<close>

text \<open>What the sender needs of the other side between two of its calls: that it neither allocates rings nor
  hands over bytes.\<close>

definition sender_frame :: "(('r, 'c, 'z) world_scheme \<Rightarrow> ('r, 'c, 'z) world_scheme) \<Rightarrow> bool" where
  "sender_frame env \<longleftrightarrow> (\<forall>w. length (rings (env w)) = length (rings w) \<and> sent (env w) = sent w)"

lemma sender_frameD:
  assumes "sender_frame env"
  shows "length (rings (env w)) = length (rings w)" and "sent (env w) = sent w"
  using assms by (simp_all add: sender_frame_def)

lemma push_slice_law:
  assumes "rb_laws L V" and "rb_push_slice L r bs = (n, r')"
  shows "n = min (length bs) (cap V r - length (items V r))" and "items V r' = items V r @ take n bs"
    and "cap V r' = cap V r" and "prod_gone V r' = prod_gone V r" and "cons_gone V r' = cons_gone V r"
    and "waker_kept V r r'"
  using assms unfolding rb_laws_def prod_laws_def by blast+

lemma rb_new_law:
  assumes "rb_laws L V"
  shows "items V (rb_new L n) = []" and "cap V (rb_new L n) = n"
    and "\<not> prod_gone V (rb_new L n)" and "\<not> cons_gone V (rb_new L n)"
  using assms unfolding rb_laws_def prod_laws_def by blast+

lemma poll_write_law:
  assumes "rb_laws L V" and "rb_poll_write L r k bs = (res, r')"
  shows "cap V r' = cap V r" and "prod_gone V r' = prod_gone V r" and "cons_gone V r' = cons_gone V r"
    and "res = Ready (Inr n) \<Longrightarrow> n \<le> length bs \<and> n \<le> cap V r - length (items V r) \<and>
      items V r' = items V r @ take n bs"
    and "\<forall>n. res \<noteq> Ready (Inr n) \<Longrightarrow> items V r' = items V r"
proof -
  from assms have *: "cap V r' = cap V r \<and> prod_gone V r' = prod_gone V r \<and> cons_gone V r' = cons_gone V r \<and>
        (case res of
           Ready (Inr n) \<Rightarrow> n \<le> length bs \<and> n \<le> cap V r - length (items V r) \<and>
             items V r' = items V r @ take n bs
         | _ \<Rightarrow> items V r' = items V r)"
    unfolding rb_laws_def prod_laws_def by blast
  then show "cap V r' = cap V r" "prod_gone V r' = prod_gone V r" "cons_gone V r' = cons_gone V r"
    by auto
  from * show "res = Ready (Inr n) \<Longrightarrow> n \<le> length bs \<and> n \<le> cap V r - length (items V r) \<and>
      items V r' = items V r @ take n bs" by simp
  from * show "\<forall>n. res \<noteq> Ready (Inr n) \<Longrightarrow> items V r' = items V r"
    by (auto split: poll.splits sum.splits)
qed

lemma rb_flags_law:
  assumes "rb_laws L V"
  shows "rb_prod_closed L r = cons_gone V r"
    and "items V (rb_register_waker L r k) = items V r" "cap V (rb_register_waker L r k) = cap V r"
        "prod_gone V (rb_register_waker L r k) = prod_gone V r"
        "cons_gone V (rb_register_waker L r k) = cons_gone V r"
        "prod_waker V (rb_register_waker L r k) = Some k"
    and "items V (rb_drop_prod L r) = items V r" "cap V (rb_drop_prod L r) = cap V r"
        "prod_gone V (rb_drop_prod L r)" "cons_gone V (rb_drop_prod L r) = cons_gone V r"
    and "wakes V (rb_register_waker L r k) = wakes V r"
  using assms unfolding rb_laws_def prod_laws_def by blast+

lemma chan_law:
  assumes "rb_laws L V"
  shows "queued V (ch_new L) = []" "\<not> tx_gone V (ch_new L)" "\<not> rx_gone V (ch_new L)"
    and "ch_send L c x = Inl e \<Longrightarrow> rx_gone V c"
    and "rx_gone V c \<Longrightarrow> \<exists>e. ch_send L c x = Inl e"
    and "ch_send L c x = Inr c' \<Longrightarrow> queued V c' = queued V c @ [x]"
    and "ch_send L c x = Inr c' \<Longrightarrow> tx_gone V c' = tx_gone V c"
    and "ch_send L c x = Inr c' \<Longrightarrow> rx_gone V c' = rx_gone V c"
    and "queued V (ch_drop_tx L c) = queued V c" "tx_gone V (ch_drop_tx L c)"
        "rx_gone V (ch_drop_tx L c) = rx_gone V c"
  using assms unfolding rb_laws_def chan_laws_def by blast+

lemma push_ring_post:
  assumes "rb_laws L V" and "sender_frame env" and "i < length (rings w)"
    and "push_ring L env i bs w = (n, w')"
  shows "sent w' = sent w @ take n bs" and "n \<le> length bs" and "length (rings w') = length (rings w)"
    and "bs \<noteq> [] \<Longrightarrow> n = 0 \<Longrightarrow> cap V (rings w' ! i) \<le> length (items V (rings w' ! i))"
proof -
  obtain r where ps: "rb_push_slice L (rings (env w) ! i) bs = (n, r)"
    and w': "w' = (set_ring i r (env w))\<lparr>sent := sent (env w) @ take n bs\<rparr>"
    using assms(4) by (auto simp: push_ring_def Let_def split: prod.splits)
  note law = push_slice_law [OF assms(1) ps]
  note rely = sender_frameD [OF assms(2)]
  show "sent w' = sent w @ take n bs" and "length (rings w') = length (rings w)"
    using rely by (simp_all add: w' set_ring_def)
  show "n \<le> length bs" using law(1) by simp
  show "cap V (rings w' ! i) \<le> length (items V (rings w' ! i))" if "bs \<noteq> []" "n = 0"
    using law that rely assms(3) by (simp add: w' set_ring_def min_def split: if_splits)
qed

text \<open>A burst hands over a segment of the message that starts at the offset; it stops early only at
  a full ring.\<close>

lemma burst_write_post:
  assumes "rb_laws L V" and "sender_frame env"
    and "i < length (rings w)" and "offset < length bytes"
    and "burst_write L env offset i bytes w = (res, offset', w')"
  shows "\<exists>st. res = Val st \<and> (st = Burst_finished \<longleftrightarrow> offset' = length bytes) \<and>
      offset \<le> offset' \<and> offset' \<le> length bytes \<and> length (rings w') = length (rings w) \<and>
      sent w' = sent w @ subslice bytes offset offset' \<and>
      (st = Burst_pending \<longrightarrow> cap V (rings w' ! i) \<le> length (items V (rings w' ! i)))"
  using assms(3-5)
proof (induction "length bytes - offset" arbitrary: offset w rule: less_induct)
  case less
  obtain n w1 where push: "push_ring L env i (drop offset bytes) w = (n, w1)" by fastforce
  note post = push_ring_post [OF assms(1) assms(2) less.prems(1) push]
  note eq = less.prems(3) [unfolded burst_write.simps [of L env offset i bytes w]]
  from post(2) less.prems(2) have n: "offset + n \<le> length bytes" by simp
  have seg: "sent w1 = sent w @ subslice bytes offset (offset + n)"
    using post(1) by (simp add: subslice_def)
  consider (stop) "n = 0" | (all) "n \<noteq> 0" "offset + n = length bytes"
    | (more) "n \<noteq> 0" "offset + n < length bytes" using n by linarith
  then show ?case
  proof cases
    case stop
    with eq push less.prems(2) post seg show ?thesis by auto
  next
    case all
    with eq push less.prems(2) post seg show ?thesis by auto
  next
    case more
    then have "burst_write L env (offset + n) i bytes w1 = (res, offset', w')"
      using eq push less.prems(2) by simp
    moreover from more have "length bytes - (offset + n) < length bytes - offset" by simp
    moreover from less.prems(1) post(3) have "i < length (rings w1)" by simp
    ultimately obtain st where st: "res = Val st" "st = Burst_finished \<longleftrightarrow> offset' = length bytes"
      "offset + n \<le> offset'" "offset' \<le> length bytes" "length (rings w') = length (rings w)"
      "sent w' = sent w1 @ subslice bytes (offset + n) offset'"
      "st = Burst_pending \<longrightarrow> cap V (rings w' ! i) \<le> length (items V (rings w' ! i))"
      using less.hyps [of "offset + n" w1] more(2) post(3) by auto
    have "subslice bytes offset offset' = subslice bytes offset (offset + n) @ subslice bytes (offset + n) offset'"
    proof -
      have "take n (subslice bytes offset offset') = subslice bytes offset (offset + n)"
        using st(3) by (simp add: subslice_def min_def)
      with subslice_consume [of n offset' offset bytes] st(3) show ?thesis by simp
    qed
    with st seg show ?thesis by auto
  qed
qed

lemma burst_write_rule:
  assumes "\<And>w bs n w'. P w \<Longrightarrow> push_ring L env i bs w = (n, w') \<Longrightarrow> P w'"
    and "burst_write L env offset i bytes w = (res, offset', w')" and "P w"
  shows "P w'"
  using assms
proof (induction L env offset i bytes w rule: burst_write.induct)
  case (1 L env offset i bytes w)
  obtain n w1 where push: "push_ring L env i (drop offset bytes) w = (n, w1)" by fastforce
  from "1.prems" push have "P w1" by blast
  with "1.IH" [OF _ push [symmetric]] "1.prems" push show ?case
    by (subst (asm) (2) burst_write.simps) (auto split: if_splits)
qed

lemma send_ring_post:
  assumes "rb_laws L V" and "sender_frame env"
    and "send_ring L env ring bs s w = (res, s', w')"
  shows "(res = Inr () \<and> sent w' = sent w @ bs \<and> ring_buf s' = length (rings w) \<and>
            length (rings w') = Suc (length (rings w))) \<or>
         (\<exists>e. res = io_err WriteZero (''connection closed: '' @ e) \<and> s' = s \<and> sent w' = sent w \<and>
            length (rings w') = length (rings w) \<and> rx_gone V (chan w'))"
proof (cases "ch_send L (chan (env w)) (length (rings (env w)))")
  case (Inl e)
  with assms(3) sender_frameD [OF assms(2), of w] chan_law(4) [OF assms(1) Inl] show ?thesis
    by (auto simp: send_ring_def Let_def)
next
  case (Inr c)
  let ?w1 = "(env w)\<lparr>rings := rings (env w) @ [ring], chan := c, clock := Suc (clock (env w)),
      sent := sent (env w) @ bs\<rparr>"
  from Inr assms(3) sender_frameD [OF assms(2), of w] sender_frameD [OF assms(2), of ?w1] show ?thesis
    by (simp add: send_ring_def Let_def set_ring_def) auto
qed

lemma send_ring_ok_iff:
  assumes "rb_laws L V"
  shows "fst (send_ring L env ring bs s w) = Inr () \<longleftrightarrow> \<not> rx_gone V (chan (env w))"
  using chan_law(4,5) [OF assms(1), of "chan (env w)" "length (rings (env w))"]
  by (cases "ch_send L (chan (env w)) (length (rings (env w)))")
    (auto simp: send_ring_def Let_def io_err_def)

text \<open>The new ring of \<open>send_nonblock\<close> always has room for the rest of the message.\<close>

lemma new_ring_takes_all:
  assumes "rb_laws L V" and "rb_push_slice L (rb_new L (max k (length bs))) bs = (n, r)"
  shows "n = length bs" and "items V r = bs" and "cap V r = max k (length bs)"
    and "\<not> prod_gone V r" and "\<not> cons_gone V r"
  using push_slice_law [OF assms] rb_new_law [OF assms(1)] by auto

lemma send_nonblock_post:
  assumes "rb_laws L V" and "sender_frame env"
    and "ring_buf s < length (rings w)" and "send_nonblock L env bytes s w = (res, s', w')"
  shows "(res = Val (Inr ()) \<and> sent w' = sent w @ bytes \<or>
          (\<exists>e k. res = Val (io_err WriteZero (''connection closed: '' @ e)) \<and> s' = s \<and> k < length bytes \<and>
             sent w' = sent w @ take k bytes \<and> rx_gone V (chan w'))) \<and>
         ring_buf s' < length (rings w')"
proof (cases "bytes = []")
  case True
  with assms(3,4) show ?thesis by (simp add: send_nonblock_def)
next
  case False
  obtain r off w1 where bw: "burst_write L env 0 (ring_buf s) bytes w = (r, off, w1)"
    by (cases "burst_write L env 0 (ring_buf s) bytes w") auto
  from burst_write_post [OF assms(1-3) _ bw] False obtain st where
    st: "r = Val st" "st = Burst_finished \<longleftrightarrow> off = length bytes" "off \<le> length bytes"
      "length (rings w1) = length (rings w)" "sent w1 = sent w @ take off bytes"
    by (auto simp: subslice_def)
  show ?thesis
  proof (cases st)
    case Burst_finished
    with st assms(3,4) bw False show ?thesis by (auto simp: send_nonblock_def)
  next
    case Burst_pending
    obtain n ring where ring: "rb_push_slice L (rb_new L (max RING_BUFFER_SIZE (length bytes - off)))
        (drop off bytes) = (n, ring)" by fastforce
    have "n = length (drop off bytes)"
      using new_ring_takes_all(1) [OF assms(1), of RING_BUFFER_SIZE "drop off bytes"] ring by simp
    then have all: "take n (drop off bytes) = drop off bytes" by simp
    obtain r2 s2 w2 where sr: "send_ring L env ring (drop off bytes) s w1 = (r2, s2, w2)"
      by (cases "send_ring L env ring (drop off bytes) s w1") auto
    from assms(4) False bw st(1) Burst_pending ring all sr
    have eqs: "res = Val r2" "s' = s2" "w' = w2" by (auto simp: send_nonblock_def Let_def)
    from st(2,3) Burst_pending have "off < length bytes" by (simp add: nat_less_le)
    with send_ring_post [OF assms(1,2) sr] st(4,5) assms(3) eqs show ?thesis by auto
  qed
qed

section \<open>The asynchronous send\<close>

text \<open>The three outcomes of \<open>send_async\<close>: a positive count of bytes handed over, the error of a closed
  ring, or \<open>Pending\<close> with the ring full.\<close>

definition async_outcome ::
  "('r, 'c) rb_view \<Rightarrow> byte list \<Rightarrow> nat \<Rightarrow> ('r, 'c, 'z) world_scheme \<Rightarrow>
     nat io_result poll outcome \<Rightarrow> ('r, 'c, 'z) world_scheme \<Rightarrow> bool" where
  "async_outcome V bytes i w res w' \<longleftrightarrow>
     (\<exists>n. res = Val (Ready (Inr n)) \<and> 0 < n \<and> n \<le> length bytes \<and> sent w' = sent w @ take n bytes) \<or>
     (res = Val (Ready (io_err Other ''connection closed'')) \<and> sent w' = sent w \<and>
        cons_gone V (rings w' ! i)) \<or>
     (res = Val Pending \<and> sent w' = sent w \<and> cap V (rings w' ! i) \<le> length (items V (rings w' ! i)))"

lemma send_async_loop_post:
  assumes "rb_laws L V" and "sender_frame env" and "bytes \<noteq> []"
    and "send_async_loop L env waker bytes reg 0 s w = (res, w')" and "ring_buf s < length (rings w)"
  shows "async_outcome V bytes (ring_buf s) w res w'"
  using assms(4,5)
proof (induction "if reg then 0 else 1 :: nat" arbitrary: reg w rule: less_induct)
  case less
  let ?i = "ring_buf s" and ?w0 = "env w"
  note frame = sender_frameD [OF assms(2)]
  note eq = less.prems(1) [unfolded send_async_loop.simps [of L env waker bytes reg 0 s w] Let_def]
  obtain r off w1 where bw: "burst_write L env 0 ?i bytes ?w0 = (r, off, w1)"
    by (cases "burst_write L env 0 ?i bytes ?w0") auto
  from burst_write_post [OF assms(1,2) _ _ bw] less.prems(2) assms(3) frame obtain st where
    st: "r = Val st" "off \<le> length bytes" "sent w1 = sent w @ take off bytes" "length (rings w1) = length (rings w)"
      "st = Burst_finished \<longleftrightarrow> off = length bytes" "st = Burst_pending \<longrightarrow> cap V (rings w1 ! ?i) \<le> length (items V (rings w1 ! ?i))"
    by (auto simp: subslice_def)
  consider (closed) "rb_prod_closed L (rings ?w0 ! ?i)" | (taken) "\<not> rb_prod_closed L (rings ?w0 ! ?i)" "off \<noteq> 0"
    | (full) "\<not> rb_prod_closed L (rings ?w0 ! ?i)" "off = 0" reg
    | (again) "\<not> rb_prod_closed L (rings ?w0 ! ?i)" "off = 0" "\<not> reg" by blast
  then show ?case
  proof cases
    case full
    with st(5) assms(3) have "st = Burst_pending" by (cases st) auto
    with full eq bw st show ?thesis by (simp add: async_outcome_def)
  next
    case again
    let ?w3 = "set_ring ?i (rb_register_waker L (rings (env w1) ! ?i) waker) (env w1)"
    have "send_async_loop L env waker bytes True 0 s ?w3 = (res, w')" using eq bw st(1) again by simp
    from less.hyps [of True ?w3, OF _ this] again(3) less.prems(2) st(3,4) again(2) frame
    show ?thesis by (simp add: async_outcome_def set_ring_def)
  qed (use eq bw st rb_flags_law(1) [OF assms(1)] frame in \<open>auto simp: async_outcome_def\<close>)
qed

lemma send_async_post:
  assumes "rb_laws L V" and "sender_frame env" and "bytes \<noteq> []"
    and "send_async L env bytes waker s w = (res, w')" and "ring_buf s < length (rings w)"
  shows "async_outcome V bytes (ring_buf s) w res w'"
  using send_async_loop_post [OF assms(1-3) _ assms(5)] assms(3,4) by (simp add: send_async_def)

section \<open>The blocking send\<close>

lemma write_all_future_post:
  assumes "rb_laws L V" and "sender_frame env"
    and "write_all_future L env waker bytes fuel offset s w = Some (res, w')"
    and "ring_buf s < length (rings w)" and "offset \<le> length bytes"
  shows "\<exists>k \<le> length bytes. offset \<le> k \<and> sent w' = sent w @ subslice bytes offset k \<and>
    (res = Inr () \<longrightarrow> k = length bytes)"
  using assms(3-5)
proof (induction fuel arbitrary: offset w)
  case (Suc fuel)
  show ?case
  proof (cases "offset < length bytes")
    case False
    with Suc.prems show ?thesis by (intro exI [of _ offset]) auto
  next
    case True
    obtain pres x where
      pw: "rb_poll_write L (rings (env w) ! ring_buf s) waker (drop offset bytes) = (pres, x)"
      by fastforce
    let ?w1 = "set_ring (ring_buf s) x (env w)"
    note r = sender_frameD [OF assms(2), of w]
    have w1: "ring_buf s < length (rings ?w1)" "sent ?w1 = sent w"
      using r Suc.prems(2) by (simp_all add: set_ring_def)
    consider (pend) "pres = Pending" | (err) e where "pres = Ready (Inl e)"
      | (ok) n where "pres = Ready (Inr n)" by (metis poll.exhaust sum.exhaust)
    then show ?thesis
    proof cases
      case pend
      with Suc.prems(1) True pw have "write_all_future L env waker bytes fuel offset s ?w1 = Some (res, w')"
        by (simp add: Let_def)
      from Suc.IH [OF this w1(1) Suc.prems(3)] w1(2) show ?thesis by simp
    next
      case err
      with Suc.prems(1) True pw have "res = Inl e" "w' = ?w1" by (simp_all add: Let_def)
      with w1(2) True show ?thesis by (intro exI [of _ offset]) simp
    next
      case ok
      let ?w2 = "?w1\<lparr>sent := sent (env w) @ take n (drop offset bytes)\<rparr>"
      from poll_write_law(4) [OF assms(1) pw ok] True have n: "offset + n \<le> length bytes" by auto
      from ok Suc.prems(1) True pw
      have "write_all_future L env waker bytes fuel (offset + n) s ?w2 = Some (res, w')"
        by (simp add: Let_def)
      from Suc.IH [OF this _ n] w1(1) obtain k where k: "k \<le> length bytes" "offset + n \<le> k"
        "sent w' = sent (env w) @ take n (drop offset bytes) @ subslice bytes (offset + n) k"
        "res = Inr () \<longrightarrow> k = length bytes"
        by auto
      have "subslice bytes offset k = take n (drop offset bytes) @ subslice bytes (offset + n) k"
        using subslice_consume [of n k offset bytes] k(2) by (simp add: subslice_def min_def)
      with k r(2) show ?thesis by auto
    qed
  qed
qed simp

text \<open>With a consumer that always leaves room, in the states \<open>P\<close> the loop stays in,
  \<open>length bytes - offset + 1\<close> polls are enough.\<close>

lemma write_all_future_returns:
  assumes "\<And>w bs. P w \<Longrightarrow> bs \<noteq> [] \<Longrightarrow>
      \<exists>n r. rb_poll_write L (rings (env w) ! ring_buf s) waker bs = (Ready (Inr n), r) \<and> 0 < n \<and>
        (\<forall>x. P ((set_ring (ring_buf s) r (env w))\<lparr>sent := x\<rparr>))"
    and "length bytes - offset < fuel" and "P w"
  shows "\<exists>w'. write_all_future L env waker bytes fuel offset s w = Some (Inr (), w')"
  using assms(2,3)
proof (induction fuel arbitrary: offset w)
  case (Suc fuel)
  show ?case
  proof (cases "offset < length bytes")
    case True
    then obtain n r where pw: "rb_poll_write L (rings (env w) ! ring_buf s) waker (drop offset bytes) =
        (Ready (Inr n), r)" and n: "0 < n" and P: "\<And>x. P ((set_ring (ring_buf s) r (env w))\<lparr>sent := x\<rparr>)"
      using assms(1) [OF Suc.prems(2), of "drop offset bytes"] by auto
    from n True Suc.prems(1) have "length bytes - (offset + n) < fuel" by simp
    from Suc.IH [OF this P] pw n True show ?thesis by (simp add: Let_def)
  qed simp
qed simp

text \<open>With a ring that keeps answering \<open>Ok(0)\<close> no number of polls is.\<close>

lemma write_all_future_spins:
  assumes "\<And>w bs. P w \<Longrightarrow>
      \<exists>r. rb_poll_write L (rings (env w) ! ring_buf s) waker bs = (Ready (Inr 0), r) \<and>
        (\<forall>x. P ((set_ring (ring_buf s) r (env w))\<lparr>sent := x\<rparr>))"
    and "offset < length bytes" and "P w"
  shows "write_all_future L env waker bytes fuel offset s w = None"
  using assms(3)
proof (induction fuel arbitrary: w)
  case (Suc fuel)
  obtain r where "rb_poll_write L (rings (env w) ! ring_buf s) waker (drop offset bytes) = (Ready (Inr 0), r)"
    and "\<And>x. P ((set_ring (ring_buf s) r (env w))\<lparr>sent := x\<rparr>)"
    using assms(1) [OF Suc.prems] by blast
  with Suc.IH assms(2) show ?case by (simp add: Let_def)
qed simp

end
