(* ===== verification/C_Utils.thy ===== *)
theory C_Utils
  imports Sm_Prelude
begin

text \<open>
  The model of \<open>src/c_api/utils.rs\<close>: C strings that cross the foreign interface.

  A Rust \<open>String\<close> is its UTF-8 byte sequence (a \<open>string\<close>), a pointer is a natural number with \<open>0\<close> the
  null pointer, and the C heap maps the address of each live \<open>malloc\<close> block to its bytes.
  \<open>malloc\<close> itself is an argument: it returns an address (or null) and the bytes the block happens to
  hold.  Undefined behaviour of a C call (a write through null or past the end of a block, a string
  without terminator, a \<open>free\<close> of a dead block) is a \<open>Panic\<close> whose text names it.

  The first section is the part of \<open>std::str\<close> the file uses: validation and lossy conversion of UTF-8.
\<close>

section \<open>UTF-8 as the standard library decodes it\<close>

definition is_cont :: "nat \<Rightarrow> bool" where
  "is_cont b \<longleftrightarrow> 128 \<le> b \<and> b \<le> 191"

text \<open>The length of the sequence a lead byte announces; 0 for a byte that starts none.\<close>

definition utf8_width :: "nat \<Rightarrow> nat" where
  "utf8_width b =
     (if b < 128 then 1 else if 194 \<le> b \<and> b \<le> 223 then 2
      else if 224 \<le> b \<and> b \<le> 239 then 3 else if 240 \<le> b \<and> b \<le> 244 then 4 else 0)"

definition second_ok :: "nat \<Rightarrow> nat \<Rightarrow> bool" where
  "second_ok b c \<longleftrightarrow>
     (if b = 224 then 160 \<le> c \<and> c \<le> 191 else if b = 237 then 128 \<le> c \<and> c \<le> 159
      else if b = 240 then 144 \<le> c \<and> c \<le> 191 else if b = 244 then 128 \<le> c \<and> c \<le> 143
      else is_cont c)"

text \<open>How many of the bytes after lead byte \<open>b\<close> continue its sequence.\<close>

fun utf8_conts :: "nat \<Rightarrow> nat list \<Rightarrow> nat" where
  "utf8_conts b [] = 0"
| "utf8_conts b (c # cs) = (if second_ok b c then Suc (length (takeWhile is_cont cs)) else 0)"

text \<open>The first chunk of a non-empty string: whether it is a character, and its number of bytes; an
  invalid chunk is the longest prefix that could still have become a character (at least a byte).\<close>

fun utf8_chunk :: "string \<Rightarrow> bool \<times> nat" where
  "utf8_chunk [] = (False, 1)"
| "utf8_chunk (c # cs) =
     (let b = of_char c; w = utf8_width b; k = utf8_conts b (map of_char (take (w - 1) cs))
      in if w = 0 then (False, 1) else (Suc k = w, Suc k))"

lemma utf8_conts_le: "utf8_conts b cs \<le> length cs"
  by (cases cs) (auto simp: length_takeWhile_le)

lemma utf8_chunk_pos: "utf8_chunk s = (v, n) \<Longrightarrow> 0 < n"
  by (cases s) (auto simp: Let_def split: if_splits)

lemma utf8_chunk_le: "utf8_chunk s = (v, n) \<Longrightarrow> s \<noteq> [] \<Longrightarrow> n \<le> length s"
  using utf8_conts_le [of "of_char (hd s)" "map of_char (take (utf8_width (of_char (hd s)) - 1) (tl s))"]
  by (cases s) (auto simp: Let_def split: if_splits)

text \<open>A chunk is decided by the bytes it covers, when it is a character.\<close>

lemma utf8_chunk_append:
  assumes "utf8_chunk s = (True, n)" and "s \<noteq> []"
  shows "utf8_chunk (take n s @ t) = (True, n)"
proof -
  from assms(2) obtain c cs where s: "s = c # cs" by (cases s) auto
  let ?w = "utf8_width (of_char c)"
  from assms(1) s have n: "n = ?w" "?w \<noteq> 0" and k: "Suc (utf8_conts (of_char c)
      (map of_char (take (?w - 1) cs))) = ?w"
    by (auto simp: Let_def split: if_splits)
  from utf8_chunk_le [OF assms] s n(1) have "?w - 1 \<le> length cs" by simp
  then have "take (?w - 1) (take (?w - 1) cs @ t) = take (?w - 1) cs" by simp
  moreover from n s have "take n s = c # take (?w - 1) cs" by (cases ?w) auto
  ultimately show ?thesis using n k by (auto simp: Let_def)
qed

text \<open>\<open>CStr::to_str\<close>: the offset of the first invalid chunk, if there is one, and its length; a sequence
  cut off by the end of the string has no length.\<close>

function utf8_error :: "nat \<Rightarrow> string \<Rightarrow> (nat \<times> nat option) option" where
  "utf8_error i s =
     (if s = [] then None
      else (case utf8_chunk s of
        (True, n) \<Rightarrow> utf8_error (i + n) (drop n s)
      | (False, n) \<Rightarrow>
          Some (i, if utf8_width (of_char (hd s)) \<noteq> 0 \<and> n = length s then None else Some n)))"
  by pat_completeness auto
termination
  by (relation "measure (\<lambda>(i, s). length s)") (auto dest: utf8_chunk_pos [OF sym])

declare utf8_error.simps [simp del]

definition valid_utf8 :: "string \<Rightarrow> bool" where
  "valid_utf8 s \<longleftrightarrow> utf8_error 0 s = None"

text \<open>U+FFFD, the replacement character, in UTF-8.\<close>

definition replacement :: string where
  "replacement = [char_of (239 :: nat), char_of (191 :: nat), char_of (189 :: nat)]"

function to_string_lossy :: "string \<Rightarrow> string" where
  "to_string_lossy s =
     (if s = [] then []
      else (case utf8_chunk s of
        (True, n) \<Rightarrow> take n s @ to_string_lossy (drop n s)
      | (False, n) \<Rightarrow> replacement @ to_string_lossy (drop n s)))"
  by pat_completeness auto
termination
  by (relation "measure length") (auto dest: utf8_chunk_pos [OF sym])

declare to_string_lossy.simps [simp del]

lemma utf8_error_offset: "utf8_error i s = None \<longleftrightarrow> utf8_error j s = None"
proof (induction i s arbitrary: j rule: utf8_error.induct)
  case (1 i s)
  show ?case
  proof (cases "s = []")
    case False
    obtain v n where "utf8_chunk s = (v, n)" by fastforce
    with 1 [OF False this [symmetric]] show ?thesis
      by (cases v) (auto simp: utf8_error.simps [of _ s])
  qed (simp add: utf8_error.simps)
qed

lemma valid_utf8_unfold:
  "valid_utf8 s \<longleftrightarrow> s = [] \<or> (\<exists>n. utf8_chunk s = (True, n) \<and> valid_utf8 (drop n s))"
proof (cases "utf8_chunk s")
  case (Pair v n)
  then show ?thesis
    using utf8_error_offset [of n "drop n s" 0]
    by (cases v) (auto simp: valid_utf8_def utf8_error.simps [of 0 s])
qed

lemma to_string_lossy_valid: "valid_utf8 s \<Longrightarrow> to_string_lossy s = s"
proof (induction s rule: to_string_lossy.induct)
  case (1 s)
  show ?case
  proof (cases "s = []")
    case False
    with "1.prems" obtain n where n: "utf8_chunk s = (True, n)" "valid_utf8 (drop n s)"
      using valid_utf8_unfold [of s] by auto
    with "1.IH" [OF False n(1) [symmetric]] False show ?thesis
      by (simp add: to_string_lossy.simps [of s])
  qed (simp add: to_string_lossy.simps)
qed

lemma valid_utf8_chunk_append:
  "utf8_chunk s = (True, n) \<Longrightarrow> s \<noteq> [] \<Longrightarrow> valid_utf8 t \<Longrightarrow> valid_utf8 (take n s @ t)"
  using utf8_chunk_append [of s n t] utf8_chunk_le [of s True n]
  by (subst valid_utf8_unfold) (auto simp: min_absorb2)

lemma valid_utf8_replacement: "valid_utf8 t \<Longrightarrow> valid_utf8 (replacement @ t)"
  using valid_utf8_chunk_append [of replacement 3 t]
  by (simp add: replacement_def utf8_width_def second_ok_def is_cont_def)

lemma to_string_lossy_is_valid: "valid_utf8 (to_string_lossy s)"
proof (induction s rule: to_string_lossy.induct)
  case (1 s)
  show ?case
  proof (cases "s = []")
    case False
    obtain v n where c: "utf8_chunk s = (v, n)" by fastforce
    show ?thesis
      using 1(1) [OF False] 1(2) [OF False] c False
      by (cases v) (auto simp: to_string_lossy.simps [of s] valid_utf8_chunk_append
          valid_utf8_replacement)
  qed (simp add: to_string_lossy.simps valid_utf8_def utf8_error.simps)
qed

section \<open>Strings on the C heap\<close>

type_synonym ptr = nat
type_synonym c_heap = "ptr \<rightharpoonup> string"
type_synonym malloc_fn = "c_heap \<Rightarrow> nat \<Rightarrow> ptr \<times> string"

abbreviation (input) null :: ptr where
  "null \<equiv> 0"

abbreviation (input) NUL :: char where
  "NUL \<equiv> CHR 0x00"

text \<open>What the code relies on of \<open>malloc\<close>: a block it returns is new and has the size asked for.\<close>

definition malloc_ok :: "malloc_fn \<Rightarrow> bool" where
  "malloc_ok malloc \<longleftrightarrow>
     (\<forall>h n p blk. malloc h n = (p, blk) \<longrightarrow> p \<noteq> null \<longrightarrow> h p = None \<and> length blk = n)"

definition strcpy :: "c_heap \<Rightarrow> ptr \<Rightarrow> string \<Rightarrow> c_heap outcome" where
  "strcpy h dst src =
     (case h dst of
        None \<Rightarrow> Panic ''undefined behaviour: strcpy to an invalid pointer''
      | Some blk \<Rightarrow>
          if length src + 1 \<le> length blk then Val (h(dst \<mapsto> overwrite blk 0 (src @ [NUL])))
          else Panic ''undefined behaviour: strcpy past the end of the block'')"

definition c_str :: "c_heap \<Rightarrow> ptr \<Rightarrow> string outcome" where
  "c_str h p =
     (case h p of
        None \<Rightarrow> Panic ''undefined behaviour: read of an invalid pointer''
      | Some blk \<Rightarrow>
          if NUL \<in> set blk then Val (takeWhile (\<lambda>c. c \<noteq> NUL) blk)
          else Panic ''undefined behaviour: C string without terminator'')"

text \<open>The new heap and the pointer stored through \<open>error\<close>.\<close>

definition write_display_c_str :: "malloc_fn \<Rightarrow> c_heap \<Rightarrow> string \<Rightarrow> (c_heap \<times> ptr) outcome" where
  "write_display_c_str malloc h d =
     (if NUL \<in> set d then Panic ''unwrap on NulError''
      else (case malloc h (length d + 1) of
        (p, blk) \<Rightarrow>
          (case strcpy (if p = null then h else h(p \<mapsto> blk)) p d of
             Val h' \<Rightarrow> Val (h', p)
           | Panic m \<Rightarrow> Panic m)))"

text \<open>\<open>Inl\<close> is the error string; the block is freed.\<close>

definition parse_c_err_str :: "c_heap \<Rightarrow> ptr \<Rightarrow> ((string + unit) \<times> c_heap) outcome" where
  "parse_c_err_str h p =
     (if p = null then Val (Inr (), h)
      else (case c_str h p of
        Val s \<Rightarrow> Val (Inl (to_string_lossy s), h(p := None))
      | Panic m \<Rightarrow> Panic m))"

fun show_nat :: "nat \<Rightarrow> string" where
  "show_nat n = (if n < 10 then [char_of (48 + n)] else show_nat (n div 10) @ [char_of (48 + n mod 10)])"

declare show_nat.simps [simp del]

definition utf8_error_msg :: "nat \<times> nat option \<Rightarrow> string" where
  "utf8_error_msg e =
     (case e of
        (i, Some n) \<Rightarrow> ''invalid utf-8 sequence of '' @ show_nat n @ '' bytes from index '' @ show_nat i
      | (i, None) \<Rightarrow> ''incomplete utf-8 byte sequence from index '' @ show_nat i)"

text \<open>\<open>from_str\<close> is \<open>str::parse::<SocketAddr>\<close>, with the text of its error.\<close>

definition socket_addr :: "(string \<Rightarrow> string + 'addr) \<Rightarrow> c_heap \<Rightarrow> ptr \<Rightarrow> 'addr io_result outcome" where
  "socket_addr from_str h addr =
     (if addr = null then Val (io_err InvalidInput ''addr is null'')
      else (case c_str h addr of
        Panic m \<Rightarrow> Panic m
      | Val s \<Rightarrow>
          (case utf8_error 0 s of
             Some e \<Rightarrow> Val (io_err InvalidInput (utf8_error_msg e))
           | None \<Rightarrow>
               (case from_str s of
                  Inl e \<Rightarrow> Val (io_err InvalidInput e)
                | Inr a \<Rightarrow> Val (Inr a)))))"

lemma write_display_c_str_ok:
  assumes "malloc_ok malloc" and "NUL \<notin> set d" and "malloc h (length d + 1) = (p, blk)"
    and "p \<noteq> null"
  shows "h p = None" and "write_display_c_str malloc h d = Val (h(p \<mapsto> d @ [NUL]), p)"
proof -
  from assms show "h p = None" by (simp add: malloc_ok_def)
  from assms have "length blk = length d + 1" by (simp add: malloc_ok_def)
  then have "overwrite blk 0 (d @ [NUL]) = d @ [NUL]" by (simp add: overwrite_def)
  with assms \<open>length blk = _\<close>
  show "write_display_c_str malloc h d = Val (h(p \<mapsto> d @ [NUL]), p)"
    by (simp add: write_display_c_str_def strcpy_def)
qed

lemma parse_c_err_str_written:
  assumes "NUL \<notin> set d" and "p \<noteq> null"
  shows "parse_c_err_str (h(p \<mapsto> d @ [NUL])) p = Val (Inl (to_string_lossy d), h(p := None))"
proof -
  have "takeWhile (\<lambda>c. c \<noteq> NUL) (d @ [NUL]) = d"
    using assms(1) by (subst takeWhile_append2) auto
  with assms show ?thesis by (simp add: parse_c_err_str_def c_str_def)
qed

section \<open>Properties\<close>

text \<open>A heap with one block, at address 1, whenever it is free.\<close>

definition demo_malloc :: malloc_fn where
  "demo_malloc h n = (if h 1 = None then (1, replicate n (CHR ''?'')) else (null, []))"

lemma demo_malloc_ok: "malloc_ok demo_malloc"
  by (simp add: malloc_ok_def demo_malloc_def)

text \<open>C32: an error text survives the way over the C boundary.  A text written by \<open>write_display_c_str\<close> into
  memory that \<open>malloc\<close> provides is read back unchanged by \<open>parse_c_err_str\<close>, which leaves the heap as it was
  before: nothing leaks, nothing is freed twice, no byte outside the block is written.\<close>

theorem c_error_roundtrip:
  assumes "malloc_ok malloc" and "valid_utf8 d" and "NUL \<notin> set d" and "fst (malloc h (length d + 1)) \<noteq> null"
  shows "\<exists>h' p. write_display_c_str malloc h d = Val (h', p) \<and> p \<noteq> null \<and> (\<forall>q. q \<noteq> p \<longrightarrow> h' q = h q) \<and>
    parse_c_err_str h' p = Val (Inl d, h)"
proof -
  obtain p blk where m: "malloc h (length d + 1) = (p, blk)" by fastforce
  with assms(4) have p: "p \<noteq> null" by simp
  note w = write_display_c_str_ok [OF assms(1,3) m p]
  from w(1) have "h(p := None) = h" by (simp add: fun_upd_idem)
  with w(2) p parse_c_err_str_written [OF assms(3) p, of h] to_string_lossy_valid [OF assms(2)]
  show ?thesis by auto
qed

theorem c_error_roundtrip_witness:
  "\<exists>h' p. write_display_c_str demo_malloc Map.empty ''connection closed'' = Val (h', p) \<and>
     parse_c_err_str h' p = Val (Inl ''connection closed'', Map.empty)"
proof -
  have "valid_utf8 ''connection closed''"
    by (simp add: valid_utf8_def utf8_error.simps utf8_width_def)
  then show ?thesis
    using c_error_roundtrip [OF demo_malloc_ok, of "''connection closed''" Map.empty]
    by (auto simp: demo_malloc_def)
qed

text \<open>C33: a foreign error string always becomes a proper Rust \<open>String\<close>.  Whatever bytes the C side left in it,
  the text handed on is valid UTF-8, it is unchanged if the bytes were, and the block is released.\<close>

theorem foreign_error_is_utf8:
  assumes "parse_c_err_str h p = Val (Inl s, h')"
  shows "valid_utf8 s \<and> p \<noteq> null \<and> h' = h(p := None) \<and> (\<forall>t. c_str h p = Val t \<longrightarrow> valid_utf8 t \<longrightarrow> s = t)"
  using assms to_string_lossy_is_valid to_string_lossy_valid
  by (auto simp: parse_c_err_str_def split: if_splits outcome.splits)

theorem foreign_error_is_utf8_witness:
  "\<exists>s h'. parse_c_err_str [2 \<mapsto> [CHR 0x41, CHR 0xFF, NUL]] 2 = Val (Inl s, h') \<and> s \<noteq> [CHR 0x41, CHR 0xFF] \<and>
     valid_utf8 s \<and> h' = Map.empty"
proof -
  obtain s h' where r: "parse_c_err_str [2 \<mapsto> [CHR 0x41, CHR 0xFF, NUL]] 2 = Val (Inl s, h')"
    by (simp add: parse_c_err_str_def c_str_def)
  have bad: "\<not> valid_utf8 [CHR 0x41, CHR 0xFF]" by (simp add: valid_utf8_def utf8_error.simps utf8_width_def)
  from foreign_error_is_utf8 [OF r] have s: "valid_utf8 s" and h': "h' = Map.empty" by auto
  from s bad have "s \<noteq> [CHR 0x41, CHR 0xFF]" by blast
  with r s h' show ?thesis by blast
qed

text \<open>Parsing an address never panics on a null pointer or a C string, reports every failure as
  \<open>InvalidInput\<close>, and succeeds exactly on a valid UTF-8 text that \<open>SocketAddr::from_str\<close> accepts.\<close>

lemma socket_addr_total:
  assumes "addr = null \<or> c_str h addr = Val s"
  shows "\<exists>r. socket_addr from_str h addr = Val r \<and>
    (case r of
       Inl e \<Rightarrow> err_kind e = InvalidInput \<and> (addr = null \<or> \<not> valid_utf8 s \<or> (\<exists>m. from_str s = Inl m \<and> err_msg e = m))
     | Inr a \<Rightarrow> addr \<noteq> null \<and> valid_utf8 s \<and> from_str s = Inr a)"
  using assms
  by (cases "addr = null"; cases "utf8_error 0 s"; cases "from_str s")
    (auto simp: socket_addr_def io_err_def valid_utf8_def)


end
