(* ===== verification/Buf_Read_Write.thy ===== *)
theory Buf_Read_Write
  imports Sm_Prelude
begin

text \<open>
  The model of \<open>src/buf_read_write.rs\<close>: the buffer between the read half of a socket and a writer
  (the message callback).  A poll of an \<open>async fn\<close> is a function on the buffer's state; the await
  points of \<open>fill_flush\<close> are the values of \<open>ff_pc\<close>.

  The reader (a type parameter of the code, a tokio read half in this program) and the writer are
  arguments: \<open>poll_read\<close> returns the bytes it put into the free part of the buffer, \<open>poll_write\<close> the
  number of bytes it took.  The contract of the writer is the interface \<open>async_writer\<close>; the theory of
  the message callback proves it for the writer of the program.
\<close>

section \<open>State and operations\<close>

record ('rd, 'w) buf_read_write =
  reader :: 'rd
  writer :: 'w
  buf :: "byte list"
  r_offset :: nat
  w_offset :: nat

type_synonym 'w poll_write_fn = "'w \<Rightarrow> byte list \<Rightarrow> nat io_result poll outcome \<times> 'w"
type_synonym 'rd poll_read_fn = "'rd \<Rightarrow> nat \<Rightarrow> byte list io_result poll \<times> 'rd"

definition brw_new :: "'rd \<Rightarrow> 'w \<Rightarrow> nat \<Rightarrow> ('rd, 'w) buf_read_write outcome" where
  "brw_new rd w write_buffer_size =
     (if write_buffer_size > 0
      then Val \<lparr>reader = rd, writer = w, buf = replicate write_buffer_size 0,
                r_offset = 0, w_offset = 0\<rparr>
      else Panic ''assertion failed: write_buffer_size > 0'')"

text \<open>
  The loop of \<open>WriteAll::poll\<close>: \<open>pos\<close> and \<open>end\<close> are its locals, \<open>ro\<close> and \<open>wo\<close> the offsets behind the
  mutable references \<open>r_offset\<close> and \<open>w_offset\<close>, which the loop writes only where it returns.
\<close>

function write_all_loop ::
  "'w poll_write_fn \<Rightarrow> byte list \<Rightarrow> nat \<Rightarrow> nat \<Rightarrow> nat \<Rightarrow> nat \<Rightarrow> 'w \<Rightarrow>
     unit io_result poll outcome \<times> nat \<times> nat \<times> 'w" where
  "write_all_loop poll_write bs ro wo pos end w =
     (if pos < end then
        if end > length bs then (Panic ''range end index out of range'', ro, wo, w)
        else (case poll_write w (subslice bs pos end) of
          (Val (Ready (Inr n)), w') \<Rightarrow>
            if pos + n > usize_max then (Panic ''attempt to add with overflow'', ro, wo, w')
            else if n = 0 then
              (Val (Ready (io_err WriteZero ''write zero'')), pos + n, wo, w')
            else write_all_loop poll_write bs ro wo (pos + n) end w'
        | (Val (Ready (Inl e)), w') \<Rightarrow> (Val (Ready (Inl e)), pos, wo, w')
        | (Val Pending, w') \<Rightarrow> (Val Pending, pos, wo, w')
        | (Panic m, w') \<Rightarrow> (Panic m, ro, wo, w'))
      else if pos = end then (Val (Ready (Inr ())), 0, 0, w)
      else (Panic ''assertion failed: pos == end'', ro, wo, w))"
  by pat_completeness auto
termination
  by (relation "measure (\<lambda>(_, _, _, _, pos, end, _). end - pos)") auto

declare write_all_loop.simps [simp del]

definition write_all_poll ::
  "'w poll_write_fn \<Rightarrow> ('rd, 'w) buf_read_write \<Rightarrow>
     unit io_result poll outcome \<times> ('rd, 'w) buf_read_write" where
  "write_all_poll poll_write s =
     (case write_all_loop poll_write (buf s) (r_offset s) (w_offset s)
             (r_offset s) (w_offset s) (writer s) of
        (res, ro, wo, w') \<Rightarrow> (res, s\<lparr>writer := w', r_offset := ro, w_offset := wo\<rparr>))"

text \<open>\<open>flush\<close> awaits one \<open>WriteAll\<close> future, whose whole state is in the buffer: polling \<open>flush\<close> is
  polling \<open>WriteAll\<close>.\<close>

definition flush_poll ::
  "'w poll_write_fn \<Rightarrow> ('rd, 'w) buf_read_write \<Rightarrow>
     unit io_result poll outcome \<times> ('rd, 'w) buf_read_write" where
  "flush_poll poll_write s = write_all_poll poll_write s"

text \<open>The await points of \<open>fill_flush\<close>: not yet polled, in \<open>self.flush()\<close>, in \<open>self.reader.read()\<close>.\<close>

datatype ff_pc = FF_start | FF_flush | FF_read

definition ff_read_poll ::
  "'rd poll_read_fn \<Rightarrow> ('rd, 'w) buf_read_write \<Rightarrow>
     nat io_result poll outcome \<times> ff_pc \<times> ('rd, 'w) buf_read_write" where
  "ff_read_poll poll_read s =
     (if w_offset s > length (buf s)
      then (Panic ''range start index out of range'', FF_read, s)
      else (case poll_read (reader s) (length (buf s) - w_offset s) of
        (Pending, rd') \<Rightarrow> (Val Pending, FF_read, s\<lparr>reader := rd'\<rparr>)
      | (Ready (Inl e), rd') \<Rightarrow> (Val (Ready (Inl e)), FF_read, s\<lparr>reader := rd'\<rparr>)
      | (Ready (Inr bs), rd') \<Rightarrow>
          if length bs > length (buf s) - w_offset s
          then (Panic ''buf.len() must fit in remaining()'', FF_read, s\<lparr>reader := rd'\<rparr>)
          else (Val (Ready (Inr (length bs))), FF_read,
                s\<lparr>reader := rd', buf := overwrite (buf s) (w_offset s) bs,
                  w_offset := w_offset s + length bs\<rparr>)))"

definition ff_flush_poll ::
  "'w poll_write_fn \<Rightarrow> 'rd poll_read_fn \<Rightarrow> ('rd, 'w) buf_read_write \<Rightarrow>
     nat io_result poll outcome \<times> ff_pc \<times> ('rd, 'w) buf_read_write" where
  "ff_flush_poll poll_write poll_read s =
     (case flush_poll poll_write s of
        (Val (Ready (Inr _)), s') \<Rightarrow> ff_read_poll poll_read s'
      | (Val (Ready (Inl e)), s') \<Rightarrow> (Val (Ready (Inl e)), FF_flush, s')
      | (Val Pending, s') \<Rightarrow> (Val Pending, FF_flush, s')
      | (Panic m, s') \<Rightarrow> (Panic m, FF_flush, s'))"

fun fill_flush_poll ::
  "'w poll_write_fn \<Rightarrow> 'rd poll_read_fn \<Rightarrow> ff_pc \<Rightarrow> ('rd, 'w) buf_read_write \<Rightarrow>
     nat io_result poll outcome \<times> ff_pc \<times> ('rd, 'w) buf_read_write" where
  "fill_flush_poll poll_write poll_read FF_start s =
     (if w_offset s = length (buf s) then ff_flush_poll poll_write poll_read s
      else ff_read_poll poll_read s)"
| "fill_flush_poll poll_write poll_read FF_flush s = ff_flush_poll poll_write poll_read s"
| "fill_flush_poll poll_write poll_read FF_read s = ff_read_poll poll_read s"

section \<open>Invariant and pending bytes\<close>

definition brw_inv :: "('rd, 'w) buf_read_write \<Rightarrow> bool" where
  "brw_inv s \<longleftrightarrow> r_offset s \<le> w_offset s \<and> w_offset s \<le> length (buf s) \<and>
     0 < length (buf s) \<and> length (buf s) \<le> usize_max"

text \<open>The bytes read from the reader and not yet taken by the writer.\<close>

definition pending :: "('rd, 'w) buf_read_write \<Rightarrow> byte list" where
  "pending s = subslice (buf s) (r_offset s) (w_offset s)"

text \<open>What the code relies on of the read half: it never returns more bytes than the subslice it was
  given holds; \<open>got\<close> is the sequence of bytes it has returned so far.\<close>

definition read_half_ok :: "'rd poll_read_fn \<Rightarrow> ('rd \<Rightarrow> byte list) \<Rightarrow> bool" where
  "read_half_ok poll_read got \<longleftrightarrow>
     (\<forall>rd n rd' bs. poll_read rd n = (Ready (Inr bs), rd') \<longrightarrow>
        length bs \<le> n \<and> got rd' = got rd @ bs) \<and>
     (\<forall>rd n rd' r. poll_read rd n = (r, rd') \<longrightarrow> (\<forall>bs. r \<noteq> Ready (Inr bs)) \<longrightarrow> got rd' = got rd)"

lemma read_half_okD:
  assumes "read_half_ok poll_read got"
  shows "poll_read rd n = (Ready (Inr bs), rd') \<Longrightarrow> length bs \<le> n"
    and "poll_read rd n = (Ready (Inr bs), rd') \<Longrightarrow> got rd' = got rd @ bs"
    and "poll_read rd n = (Ready (Inl e), rd') \<Longrightarrow> got rd' = got rd"
    and "poll_read rd n = (Pending, rd') \<Longrightarrow> got rd' = got rd"
  using assms unfolding read_half_ok_def by (blast, blast, blast, blast)

lemma brw_new_inv:
  assumes "0 < n" and "n \<le> usize_max"
  shows "\<exists>s. brw_new rd w n = Val s \<and> brw_inv s \<and> pending s = [] \<and> length (buf s) = n \<and>
    reader s = rd \<and> writer s = w"
  using assms by (simp add: brw_new_def brw_inv_def pending_def)

text \<open>Reading extends the pending bytes by what was read.\<close>

lemma ff_read_poll_post:
  assumes "ff_read_poll poll_read s = (res, pc, s')" and "brw_inv s" and "read_half_ok poll_read got"
  shows "brw_inv s'" and "writer s' = writer s" and "length (buf s') = length (buf s)"
    and "\<exists>bs. pending s' = pending s @ bs \<and> got (reader s') = got (reader s) @ bs \<and>
           (\<forall>n. res = Val (Ready (Inr n)) \<longrightarrow> n = length bs)"
    and "\<And>m. res \<noteq> Panic m"
proof -
  obtain r rd' where pr: "poll_read (reader s) (length (buf s) - w_offset s) = (r, rd')"
    by fastforce
  note got = read_half_okD [OF assms(3)]
  have bound: "length bs \<le> length (buf s) - w_offset s" "got rd' = got (reader s) @ bs"
    if "r = Ready (Inr bs)" for bs
    using got(1,2) pr that by blast+
  have same: "got rd' = got (reader s)" if "\<forall>bs. r \<noteq> Ready (Inr bs)"
    using got(3,4) pr that by (metis old.sum.exhaust poll.exhaust)
  note facts = assms(1,2) pr bound same
  show "brw_inv s'" and "writer s' = writer s" and "length (buf s') = length (buf s)"
    and "\<And>m. res \<noteq> Panic m"
    using facts by (auto simp: ff_read_poll_def brw_inv_def split: poll.splits sum.splits if_splits)
  show "\<exists>bs. pending s' = pending s @ bs \<and> got (reader s') = got (reader s) @ bs \<and>
      (\<forall>n. res = Val (Ready (Inr n)) \<longrightarrow> n = length bs)"
    using facts by (auto simp: ff_read_poll_def brw_inv_def pending_def subslice_overwrite
        split: poll.splits sum.splits if_splits)
qed

section \<open>The contract of the writer and what the buffer guarantees with it\<close>

text \<open>\<open>accepted w\<close> is the sequence of bytes the writer has taken so far.\<close>

locale async_writer =
  fixes poll_write :: "'w poll_write_fn" and accepted :: "'w \<Rightarrow> byte list"
  assumes takes: "poll_write w bs = (Val (Ready (Inr n)), w') \<Longrightarrow>
      n \<le> length bs \<and> accepted w' = accepted w @ take n bs"
    and takes_none: "poll_write w bs = (r, w') \<Longrightarrow> (\<And>n. r \<noteq> Val (Ready (Inr n))) \<Longrightarrow>
      accepted w' = accepted w"
begin

text \<open>The loop of \<open>WriteAll::poll\<close> hands the window \<open>[pos, en)\<close> over front to back: what it has
  delivered and what the offsets it leaves still cover is the window it started with.  It panics only
  if the writer does: the subslice is in range, the sum does not overflow and the final assertion holds.\<close>

lemma write_all_loop_post:
  assumes "write_all_loop poll_write bs ro wo pos en w = (res, ro', wo', w')"
    and "pos \<le> en" and "en \<le> length bs" and "length bs \<le> usize_max"
  shows "case res of
      Val (Ready (Inr _)) \<Rightarrow> ro' = 0 \<and> wo' = 0 \<and> accepted w' = accepted w @ subslice bs pos en
    | Panic m \<Rightarrow> ro' = ro \<and> wo' = wo \<and> (\<exists>v vs v'. poll_write v vs = (Panic m, v'))
    | _ \<Rightarrow> wo' = wo \<and> pos \<le> ro' \<and> ro' < en \<and>
          accepted w' @ subslice bs ro' en = accepted w @ subslice bs pos en"
  using assms(1,2)
proof (induction "en - pos" arbitrary: pos w rule: less_induct)
  case less
  note eq = less.prems(1) [unfolded write_all_loop.simps [of poll_write bs ro wo pos en w]]
  show ?case
  proof (cases "pos < en")
    case False
    with eq less.prems(2) show ?thesis by auto
  next
    case True
    obtain r w1 where pw: "poll_write w (subslice bs pos en) = (r, w1)" by fastforce
    note eq = eq [simplified True pw]
    show ?thesis
    proof (cases "\<exists>n. r = Val (Ready (Inr n)) \<and> n \<noteq> 0")
      case True
      then obtain n where r: "r = Val (Ready (Inr n))" and n: "n \<noteq> 0" by blast
      from takes [OF pw [unfolded r]] assms(3)
      have len: "n \<le> en - pos" and acc: "accepted w1 = accepted w @ take n (subslice bs pos en)"
        by simp_all
      with assms(3,4) \<open>pos < en\<close> have le: "pos + n \<le> en" "pos + n \<le> usize_max" by auto
      with eq r n assms(3)
      have "write_all_loop poll_write bs ro wo (pos + n) en w1 = (res, ro', wo', w')" by simp
      moreover from n \<open>pos < en\<close> have "en - (pos + n) < en - pos" by simp
      ultimately show ?thesis
        using less.hyps [of "pos + n" w1] le(1) acc subslice_consume [OF len, of bs] by (auto split: outcome.splits poll.splits sum.splits)
    next
      case False
      then have same: "accepted w1 = accepted w"
        using takes_none [OF pw] takes [of w "subslice bs pos en" 0 w1] pw by (cases "r = Val (Ready (Inr 0))") auto
      from eq False same \<open>pos < en\<close> assms(3,4) pw show ?thesis
        by (auto simp: io_err_def split: outcome.splits poll.splits sum.splits if_splits)
    qed
  qed
qed

lemma flush_poll_post:
  assumes "flush_poll poll_write s = (res, s')" and "brw_inv s"
  shows "brw_inv s'" and "buf s' = buf s" and "reader s' = reader s"
    and "case res of
        Val (Ready (Inr _)) \<Rightarrow> w_offset s' = 0 \<and> pending s' = [] \<and>
          accepted (writer s') = accepted (writer s) @ pending s
      | Panic m \<Rightarrow> \<exists>v vs v'. poll_write v vs = (Panic m, v')
      | _ \<Rightarrow> w_offset s' = w_offset s \<and> r_offset s \<le> r_offset s' \<and>
          accepted (writer s') @ pending s' = accepted (writer s) @ pending s"
proof -
  obtain ro wo w' where loop: "write_all_loop poll_write (buf s) (r_offset s) (w_offset s)
      (r_offset s) (w_offset s) (writer s) = (res, ro, wo, w')"
    and s': "s' = s\<lparr>writer := w', r_offset := ro, w_offset := wo\<rparr>"
    using assms(1) by (auto simp: flush_poll_def write_all_poll_def split: prod.splits)
  from assms(2) have bounds: "r_offset s \<le> w_offset s" "w_offset s \<le> length (buf s)"
    "0 < length (buf s)" "length (buf s) \<le> usize_max"
    by (auto simp: brw_inv_def)
  note post = write_all_loop_post [OF loop bounds(1,2,4)]
  show "buf s' = buf s" and "reader s' = reader s" by (simp_all add: s')
  show "brw_inv s'"
    using post bounds by (auto simp: s' brw_inv_def split: outcome.splits poll.splits sum.splits)
  show "case res of
        Val (Ready (Inr _)) \<Rightarrow> w_offset s' = 0 \<and> pending s' = [] \<and>
          accepted (writer s') = accepted (writer s) @ pending s
      | Panic m \<Rightarrow> \<exists>v vs v'. poll_write v vs = (Panic m, v')
      | _ \<Rightarrow> w_offset s' = w_offset s \<and> r_offset s \<le> r_offset s' \<and>
          accepted (writer s') @ pending s' = accepted (writer s) @ pending s"
    using post by (auto simp: s' pending_def split: outcome.splits poll.splits sum.splits)
qed

lemma ff_flush_poll_post:
  assumes "ff_flush_poll poll_write poll_read s = (res, pc, s')" and "brw_inv s"
    and "read_half_ok poll_read got"
  shows "brw_inv s'" and "length (buf s') = length (buf s)"
    and "\<forall>m. res \<noteq> Panic m \<Longrightarrow>
      \<exists>bs. accepted (writer s') @ pending s' = accepted (writer s) @ pending s @ bs \<and>
           got (reader s') = got (reader s) @ bs \<and> (\<forall>n. res = Val (Ready (Inr n)) \<longrightarrow> n = length bs)"
    and "res = Panic m \<Longrightarrow> \<exists>v vs v'. poll_write v vs = (Panic m, v')"
proof -
  obtain r s1 where fl: "flush_poll poll_write s = (r, s1)" by fastforce
  note post = flush_poll_post [OF fl assms(2)]
  have flush_only: "s' = s1 \<and> res \<noteq> Val (Ready (Inr n)) \<and> (res = Panic m \<longrightarrow> r = Panic m)"
    if "r \<noteq> Val (Ready (Inr ()))" for n
    using assms(1) fl that by (auto simp: ff_flush_poll_def split: outcome.splits poll.splits sum.splits)
  have rd: "ff_read_poll poll_read s1 = (res, pc, s')" if "r = Val (Ready (Inr ()))"
    using assms(1) fl that by (simp add: ff_flush_poll_def)
  note rd_post = ff_read_poll_post [OF rd post(1) assms(3)]
  show "brw_inv s'" and "length (buf s') = length (buf s)"
    using flush_only rd_post post(1,2) by metis+
  show "\<exists>bs. accepted (writer s') @ pending s' = accepted (writer s) @ pending s @ bs \<and>
      got (reader s') = got (reader s) @ bs \<and> (\<forall>n. res = Val (Ready (Inr n)) \<longrightarrow> n = length bs)"
    if np: "\<forall>m. res \<noteq> Panic m"
  proof (cases "r = Val (Ready (Inr ()))")
    case True
    from post(4) True have "pending s1 = []" "accepted (writer s1) = accepted (writer s) @ pending s"
      by simp_all
    with rd_post(2,4) [OF True] post(3) show ?thesis by force
  next
    case False
    then have "accepted (writer s') @ pending s' = accepted (writer s) @ pending s"
      using flush_only [OF False] post(4) np assms(1) fl
      by (auto simp: ff_flush_poll_def split: outcome.splits poll.splits sum.splits)
    with flush_only [OF False] post(3) show ?thesis by (intro exI [of _ "[]"]) auto
  qed
  show "\<exists>v vs v'. poll_write v vs = (Panic m, v')" if "res = Panic m"
    using that rd_post(5) flush_only post(4) by (cases "r = Val (Ready (Inr ()))") auto
qed

text \<open>The two together, for a poll at any of the await points.\<close>

lemma fill_flush_poll_post:
  assumes "fill_flush_poll poll_write poll_read pc0 s = (res, pc, s')" and "brw_inv s"
    and "read_half_ok poll_read got"
  shows "brw_inv s'" and "length (buf s') = length (buf s)"
    and "\<forall>m. res \<noteq> Panic m \<Longrightarrow>
      \<exists>bs. accepted (writer s') @ pending s' = accepted (writer s) @ pending s @ bs \<and>
           got (reader s') = got (reader s) @ bs \<and> (\<forall>n. res = Val (Ready (Inr n)) \<longrightarrow> n = length bs)"
    and "res = Panic m \<Longrightarrow> \<exists>v vs v'. poll_write v vs = (Panic m, v')"
proof -
  consider (fl) "ff_flush_poll poll_write poll_read s = (res, pc, s')"
    | (rd) "ff_read_poll poll_read s = (res, pc, s')"
    using assms(1) by (cases pc0) (auto split: if_splits)
  then have "brw_inv s' \<and> length (buf s') = length (buf s) \<and> ((\<forall>m. res \<noteq> Panic m) \<longrightarrow>
      (\<exists>bs. accepted (writer s') @ pending s' = accepted (writer s) @ pending s @ bs \<and>
           got (reader s') = got (reader s) @ bs \<and> (\<forall>n. res = Val (Ready (Inr n)) \<longrightarrow> n = length bs)))
      \<and> (res = Panic m \<longrightarrow> (\<exists>v vs v'. poll_write v vs = (Panic m, v')))"
  proof cases
    case fl
    from ff_flush_poll_post [OF fl assms(2,3)] show ?thesis by blast
  next
    case rd
    note post = ff_read_poll_post [OF rd assms(2,3)]
    then show ?thesis by (metis append.assoc)
  qed
  then show "brw_inv s'" and "length (buf s') = length (buf s)"
    and "\<forall>m. res \<noteq> Panic m \<Longrightarrow>
      \<exists>bs. accepted (writer s') @ pending s' = accepted (writer s) @ pending s @ bs \<and>
           got (reader s') = got (reader s) @ bs \<and> (\<forall>n. res = Val (Ready (Inr n)) \<longrightarrow> n = length bs)"
    and "res = Panic m \<Longrightarrow> \<exists>v vs v'. poll_write v vs = (Panic m, v')"
    by auto
qed

end

section \<open>Cancellation\<close>

text \<open>Where a suspended \<open>fill_flush\<close> can stand: in the flush only with a full buffer, in the read
  only with free space.\<close>

definition pc_ok :: "ff_pc \<Rightarrow> ('rd, 'w) buf_read_write \<Rightarrow> bool" where
  "pc_ok pc s \<longleftrightarrow> (pc = FF_flush \<longrightarrow> w_offset s = length (buf s)) \<and>
     (pc = FF_read \<longrightarrow> w_offset s < length (buf s))"

lemma write_all_loop_offsets:
  "write_all_loop poll_write bs ro wo pos en w = (res, ro', wo', w') \<Longrightarrow>
     (res = Val Pending \<longrightarrow> wo' = wo) \<and> (res = Val (Ready (Inr ())) \<longrightarrow> ro' = 0 \<and> wo' = 0)"
  by (induction poll_write bs ro wo pos en w rule: write_all_loop.induct)
    (subst (asm) (2) write_all_loop.simps,
     auto simp: io_err_def split: prod.splits outcome.splits poll.splits sum.splits if_splits)

lemma flush_poll_offsets:
  assumes "flush_poll poll_write s = (res, s')"
  shows "buf s' = buf s" and "res = Val Pending \<Longrightarrow> w_offset s' = w_offset s"
    and "res = Val (Ready (Inr ())) \<Longrightarrow> w_offset s' = 0"
  using assms by (auto simp: flush_poll_def write_all_poll_def
      split: prod.splits dest!: write_all_loop_offsets)

lemma ff_read_poll_pending:
  "ff_read_poll poll_read s = (Val Pending, pc, s') \<Longrightarrow>
     pc = FF_read \<and> buf s' = buf s \<and> w_offset s' = w_offset s"
  by (auto simp: ff_read_poll_def split: prod.splits poll.splits sum.splits if_splits)

lemma ff_flush_poll_pending:
  assumes "ff_flush_poll poll_write poll_read s = (Val Pending, pc, s')"
    and "w_offset s = length (buf s)" and "0 < length (buf s)"
  shows "pc_ok pc s' \<and> 0 < length (buf s')"
proof -
  obtain r s1 where fl: "flush_poll poll_write s = (r, s1)" by fastforce
  note offs = flush_poll_offsets [OF fl]
  from assms(1) fl consider "r = Val (Ready (Inr ()))" "ff_read_poll poll_read s1 = (Val Pending, pc, s')"
    | "r = Val Pending" "pc = FF_flush" "s' = s1"
    by (auto simp: ff_flush_poll_def split: outcome.splits poll.splits sum.splits)
  then show ?thesis
    using offs assms(2,3) by cases (auto simp: pc_ok_def dest!: ff_read_poll_pending)
qed

text \<open>A pending \<open>fill_flush\<close> is at an await point that fits the buffer, so a new future polled in its
  place does what the dropped one would have done.\<close>

lemma fill_flush_poll_pc:
  assumes "fill_flush_poll poll_write poll_read pc0 s = (Val Pending, pc, s')"
    and "pc_ok pc0 s" and "0 < length (buf s)" and "w_offset s \<le> length (buf s)"
  shows "pc_ok pc s' \<and> 0 < length (buf s')"
  using assms
  by (cases pc0) (auto simp: pc_ok_def split: if_splits
      dest!: ff_read_poll_pending ff_flush_poll_pending)

lemma fill_flush_restart:
  "pc_ok pc s \<Longrightarrow>
     fill_flush_poll poll_write poll_read FF_start s = fill_flush_poll poll_write poll_read pc s"
  by (cases pc) (auto simp: pc_ok_def)

text \<open>The slice handed to \<open>read\<close> is never empty: a reader that differs only on empty slices is
  indistinguishable.\<close>

lemma ff_read_poll_cong:
  assumes "\<And>rd n. 0 < n \<Longrightarrow> poll_read rd n = poll_read' rd n" and "w_offset s < length (buf s)"
  shows "ff_read_poll poll_read s = ff_read_poll poll_read' s"
  using assms by (simp add: ff_read_poll_def)

lemma fill_flush_poll_cong:
  assumes "\<And>rd n. 0 < n \<Longrightarrow> poll_read rd n = poll_read' rd n"
    and "brw_inv s" and "pc_ok pc s"
  shows "fill_flush_poll poll_write poll_read pc s = fill_flush_poll poll_write poll_read' pc s"
proof -
  have fl: "ff_flush_poll poll_write poll_read s = ff_flush_poll poll_write poll_read' s"
  proof (cases "flush_poll poll_write s")
    case (Pair r s1)
    note offs = flush_poll_offsets [OF Pair]
    have "r = Val (Ready (Inr ())) \<Longrightarrow> ff_read_poll poll_read s1 = ff_read_poll poll_read' s1"
      using ff_read_poll_cong [of poll_read poll_read' s1] assms(1,2) offs by (simp add: brw_inv_def)
    with Pair show ?thesis by (auto simp: ff_flush_poll_def split: outcome.splits poll.splits sum.splits)
  qed
  have "w_offset s < length (buf s) \<Longrightarrow> ff_read_poll poll_read s = ff_read_poll poll_read' s"
    using ff_read_poll_cong [of poll_read poll_read' s] assms(1) by blast
  with fl assms(2,3) show ?thesis
    by (cases pc) (auto simp: pc_ok_def brw_inv_def)
qed

end
