(* ===== verification/On_Msg.thy ===== *)
theory On_Msg
  imports C_Utils Buf_Read_Write Async_Ffi
begin

text \<open>
  The message callback: \<open>OnMsgObj::call_inner\<close> of \<open>src/c_api/on_msg.rs\<close> and the writer \<open>OnMsgWrite\<close> of
  \<open>src/read.rs\<close> that wraps it for the read buffer.

  The foreign function \<open>socket_manager_extern_on_msg\<close> is the argument \<open>cb\<close>: from the C heap, the state of
  the callback object and the message it computes the returned \<open>c_long\<close>, the error pointer and the new
  heap and object.  A \<open>c_long\<close> is a 64-bit word read as two's complement (LP64).
\<close>

section \<open>The foreign callback\<close>

type_synonym c_long = "64 word"

record 'u c_env =
  heap :: c_heap
  user :: 'u

text \<open>\<open>Msg\<close> borrows the bytes; the structure \<open>ConnMsg\<close> has them with their number.\<close>

type_synonym msg = "byte list"

record conn_msg =
  cm_bytes :: "byte list"
  cm_len :: nat

type_synonym 'u extern_on_msg = "'u c_env \<Rightarrow> conn_msg \<Rightarrow> c_waker \<Rightarrow> c_long \<times> ptr \<times> 'u c_env"

text \<open>The type \<open>Fn(Msg, Waker) -> Poll<Result<usize, String>>\<close>, on a callback with state \<open>'u\<close>.\<close>

type_synonym 'u on_msg_fn = "'u \<Rightarrow> msg \<Rightarrow> raw_waker \<Rightarrow> (string + nat) poll outcome \<times> 'u"

definition call_inner :: "'u extern_on_msg \<Rightarrow> 'u c_env on_msg_fn" where
  "call_inner cb env bytes waker =
     (case cb env \<lparr>cm_bytes = bytes, cm_len = length bytes\<rparr> (from_waker waker) of
        (cb_result, err, env1) \<Rightarrow>
          (case parse_c_err_str (heap env1) err of
             Panic m \<Rightarrow> (Panic m, env1)
           | Val (Inl e, h) \<Rightarrow> (Val (Ready (Inl e)), env1\<lparr>heap := h\<rparr>)
           | Val (Inr _, h) \<Rightarrow>
               (if sint cb_result > 0 then
                  if sint cb_result \<le> sint (of_nat (length bytes) :: c_long)
                  then (Val (Ready (Inr (unat cb_result))), env1\<lparr>heap := h\<rparr>)
                  else (Panic ''assertion failed: cb_result <= len as c_long'', env1\<lparr>heap := h\<rparr>)
                else (Val Pending, env1\<lparr>heap := h\<rparr>))))"

section \<open>The writer of the read buffer\<close>

text \<open>\<open>delivered\<close> records the bytes the callback has taken, in order; the code has no such field.\<close>

record 'u on_msg_write =
  on_msg_env :: 'u
  delivered :: "byte list"

definition on_msg_poll_write :: "'u on_msg_fn \<Rightarrow> raw_waker \<Rightarrow> 'u on_msg_write poll_write_fn" where
  "on_msg_poll_write on_msg waker w bytes =
     (case on_msg (on_msg_env w) bytes waker of
        (Panic m, u) \<Rightarrow> (Panic m, w\<lparr>on_msg_env := u\<rparr>)
      | (Val Pending, u) \<Rightarrow> (Val Pending, w\<lparr>on_msg_env := u\<rparr>)
      | (Val (Ready (Inl e)), u) \<Rightarrow>
          (Val (Ready (io_err Other (''error writing message: '' @ e))), w\<lparr>on_msg_env := u\<rparr>)
      | (Val (Ready (Inr n)), u) \<Rightarrow>
          (Val (Ready (Inr n)), w\<lparr>on_msg_env := u, delivered := delivered w @ take n bytes\<rparr>))"

definition on_msg_poll_flush :: "'u on_msg_write \<Rightarrow> unit io_result poll" where
  "on_msg_poll_flush w = Ready (Inr ())"

definition on_msg_poll_shutdown :: "'u on_msg_write \<Rightarrow> unit io_result poll" where
  "on_msg_poll_shutdown w = Ready (Inr ())"

section \<open>The callback never claims more than it was given\<close>

text \<open>The assertion in \<open>call_inner\<close> is what makes the callback a writer in the sense of the buffer: a
  count that passes it is positive and within the message, even where the length does not fit a
  \<open>c_long\<close>.\<close>

lemma uint_eq_sint: "0 \<le> sint w \<Longrightarrow> uint w = sint w" for w :: c_long
proof -
  assume "0 \<le> sint w"
  moreover have "sint w < 2 ^ 64" using sint_lt [of w] by simp
  ultimately show ?thesis by (simp add: uint_sint take_bit_int_eq_self)
qed

lemma sint_of_nat_le: "sint (of_nat n :: c_long) \<le> int n"
proof -
  have "sint (of_nat n :: c_long) = signed_take_bit 63 (int n)" by transfer simp
  then show ?thesis by (simp add: signed_take_bit_int_less_eq_self_iff)
qed

text \<open>A count of bytes that fits a \<open>c_long\<close>.\<close>

lemma c_long_of_nat:
  assumes "n < 2 ^ 63"
  shows "sint (of_nat n :: c_long) = int n" and "unat (of_nat n :: c_long) = n"
proof -
  have "sint (of_nat n :: c_long) = signed_take_bit 63 (int n)" by transfer simp
  with assms show "sint (of_nat n :: c_long) = int n" by (simp add: signed_take_bit_int_eq_self)
  show "unat (of_nat n :: c_long) = n" using assms by (simp add: unat_of_nat take_bit_nat_eq_self)
qed

lemma c_long_count:
  fixes w :: c_long
  assumes "0 < sint w" and "sint w \<le> sint (of_nat n :: c_long)"
  shows "0 < unat w" and "unat w \<le> n"
proof -
  have "int (unat w) = sint w" using assms(1) uint_eq_sint [of w] by simp
  then show "0 < unat w" and "unat w \<le> n" using assms sint_of_nat_le [of n] by linarith+
qed

lemma call_inner_bound:
  assumes "call_inner cb env bytes waker = (Val (Ready (Inr n)), env')"
  shows "0 < n" and "n \<le> length bytes"
  using assms c_long_count
  by (auto simp: call_inner_def split: prod.splits outcome.splits sum.splits if_splits)

interpretation on_msg_writer: async_writer "on_msg_poll_write (call_inner cb) waker" delivered
  for cb :: "'u extern_on_msg" and waker
proof unfold_locales
  fix w w' :: "'u c_env on_msg_write" and bs n
  assume "on_msg_poll_write (call_inner cb) waker w bs = (Val (Ready (Inr n)), w')"
  then show "n \<le> length bs \<and> delivered w' = delivered w @ take n bs"
    by (auto simp: on_msg_poll_write_def io_err_def dest: call_inner_bound
        split: prod.splits outcome.splits poll.splits sum.splits)
next
  fix w w' :: "'u c_env on_msg_write" and bs r
  assume "on_msg_poll_write (call_inner cb) waker w bs = (r, w')" and "\<And>n. r \<noteq> Val (Ready (Inr n))"
  then show "delivered w' = delivered w"
    by (auto simp: on_msg_poll_write_def split: prod.splits outcome.splits poll.splits sum.splits)
qed

text \<open>It never takes nothing: a \<open>WriteZero\<close> error cannot arise in the read path.\<close>

lemma on_msg_poll_write_pos:
  "on_msg_poll_write (call_inner cb) waker w bs = (Val (Ready (Inr n)), w') \<Longrightarrow> 0 < n"
  by (auto simp: on_msg_poll_write_def io_err_def dest: call_inner_bound
      split: prod.splits outcome.splits poll.splits sum.splits)

section \<open>Properties\<close>

text \<open>C31: a count the message callback returns is trusted only within the message.  When \<open>call_inner\<close>
  reports bytes as taken, the number is positive and at most the length of the message, whatever \<open>c_long\<close>
  the foreign code returned, so the read offset never passes the write offset and \<open>WriteZero\<close> cannot
  arise in the read path.\<close>

theorem callback_count_bounded:
  assumes "on_msg_poll_write (call_inner cb) waker w bytes = (Val (Ready (Inr n)), w')"
  shows "0 < n \<and> n \<le> length bytes \<and> delivered w' = delivered w @ take n bytes"
  using on_msg_writer.takes [OF assms] on_msg_poll_write_pos [OF assms] by simp

theorem callback_count_bounded_witness:
  "\<exists>w'. on_msg_poll_write (call_inner (\<lambda>env msg waker. (1, null, env))) \<lparr>waker_data = 3, waker_vtable = 4\<rparr>
       \<lparr>on_msg_env = \<lparr>heap = Map.empty, user = ()\<rparr>, delivered = []\<rparr> [5, 6] = (Val (Ready (Inr 1)), w') \<and>
     delivered w' = [5]"
proof -
  obtain w' where r: "on_msg_poll_write (call_inner (\<lambda>env msg waker. (1, null, env))) \<lparr>waker_data = 3, waker_vtable = 4\<rparr>
       \<lparr>on_msg_env = \<lparr>heap = Map.empty, user = ()\<rparr>, delivered = []\<rparr> [5, 6] = (Val (Ready (Inr 1)), w')"
    by (simp add: on_msg_poll_write_def call_inner_def parse_c_err_str_def)
  from callback_count_bounded [OF r] r show ?thesis by auto
qed

text \<open>Any result that is not positive means that nothing was taken: without an error the callback is
  pending, the message stays undelivered and will be offered again, also for the result 0.\<close>

lemma callback_not_positive_is_pending:
  assumes "cb (on_msg_env w) \<lparr>cm_bytes = bytes, cm_len = length bytes\<rparr> (from_waker waker) = (res, null, env')" and "sint res \<le> 0"
  shows "on_msg_poll_write (call_inner cb) waker w bytes = (Val Pending, w\<lparr>on_msg_env := env'\<rparr>)"
  using assms by (simp add: on_msg_poll_write_def call_inner_def parse_c_err_str_def)

end
