(* ===== verification/Reader.thy ===== *)
theory Reader
  imports Conn On_Msg
begin

text \<open>
  The model of \<open>src/read.rs\<close>: the task that reads a socket and feeds the message callback.

  The task is a state machine over the await points of \<open>handle_reader_auto_flush\<close> and
  \<open>handle_reader_no_auto_flush\<close>.  One step polls the future the task is waiting for and, when it is
  ready, runs the code up to the next await; in the automatic mode the input \<open>tick\<close> says whether the
  flush interval is due when the \<open>select!\<close> polls it, which it does after \<open>fill_flush\<close> (\<open>biased\<close>).
\<close>

section \<open>State and steps\<close>

definition MIN_MSG_BUFFER_SIZE :: nat where
  "MIN_MSG_BUFFER_SIZE = 1024 * 8"

definition MAX_MSG_BUFFER_SIZE :: nat where
  "MAX_MSG_BUFFER_SIZE = 1024 * 1024 * 8"

datatype rd_pc =
    Rd_loop ff_pc
  | Rd_tick_flush
  | Rd_final_flush
  | Rd_done "unit io_result"
  | Rd_panicked string

record ('rd, 'w) reader_task =
  brw :: "('rd, 'w) buf_read_write"
  has_data :: bool
  rd_pc :: rd_pc

definition msg_buf_size :: "conn_config \<Rightarrow> nat" where
  "msg_buf_size config = max (min (msg_buffer_size config) MAX_MSG_BUFFER_SIZE) MIN_MSG_BUFFER_SIZE"

text \<open>The start of \<open>handle_reader\<close>, up to the first await of either mode.\<close>

definition handle_reader_start :: "'rd \<Rightarrow> 'w \<Rightarrow> conn_config \<Rightarrow> ('rd, 'w) reader_task outcome" where
  "handle_reader_start rd w config =
     (case brw_new rd w (msg_buf_size config) of
        Val b \<Rightarrow> Val \<lparr>brw = b, has_data = False, rd_pc = Rd_loop FF_start\<rparr>
      | Panic m \<Rightarrow> Panic m)"

text \<open>An await of \<open>read_write.flush()\<close>, continuing with \<open>k\<close> once it is done.\<close>

definition await_flush ::
  "'w poll_write_fn \<Rightarrow> (('rd, 'w) reader_task \<Rightarrow> ('rd, 'w) reader_task) \<Rightarrow>
     ('rd, 'w) reader_task \<Rightarrow> ('rd, 'w) reader_task" where
  "await_flush poll_write k t =
     (case flush_poll poll_write (brw t) of
        (Val (Ready (Inr _)), b) \<Rightarrow> k (t\<lparr>brw := b\<rparr>)
      | (Val (Ready (Inl e)), b) \<Rightarrow> t\<lparr>brw := b, rd_pc := Rd_done (Inl e)\<rparr>
      | (Val Pending, b) \<Rightarrow> t\<lparr>brw := b\<rparr>
      | (Panic m, b) \<Rightarrow> t\<lparr>brw := b, rd_pc := Rd_panicked m\<rparr>)"

definition reader_auto_step ::
  "'w poll_write_fn \<Rightarrow> 'rd poll_read_fn \<Rightarrow> bool \<Rightarrow> ('rd, 'w) reader_task \<Rightarrow> ('rd, 'w) reader_task" where
  "reader_auto_step poll_write poll_read tick t =
     (case rd_pc t of
        Rd_loop pc \<Rightarrow>
          (case fill_flush_poll poll_write poll_read pc (brw t) of
             (Val (Ready (Inr n)), _, b) \<Rightarrow>
               if n = 0 then t\<lparr>brw := b, rd_pc := Rd_final_flush\<rparr>
               else t\<lparr>brw := b, has_data := True, rd_pc := Rd_loop FF_start\<rparr>
           | (Val (Ready (Inl e)), _, b) \<Rightarrow> t\<lparr>brw := b, rd_pc := Rd_done (Inl e)\<rparr>
           | (Val Pending, pc', b) \<Rightarrow>
               if has_data t \<and> tick then t\<lparr>brw := b, rd_pc := Rd_tick_flush\<rparr>
               else t\<lparr>brw := b, rd_pc := Rd_loop pc'\<rparr>
           | (Panic m, _, b) \<Rightarrow> t\<lparr>brw := b, rd_pc := Rd_panicked m\<rparr>)
      | Rd_tick_flush \<Rightarrow>
          await_flush poll_write (\<lambda>t. t\<lparr>has_data := False, rd_pc := Rd_loop FF_start\<rparr>) t
      | Rd_final_flush \<Rightarrow> await_flush poll_write (\<lambda>t. t\<lparr>rd_pc := Rd_done (Inr ())\<rparr>) t
      | _ \<Rightarrow> t)"

text \<open>The mode without automatic flush has no \<open>has_data\<close>: the field keeps its initial value.\<close>

definition reader_no_auto_step ::
  "'w poll_write_fn \<Rightarrow> 'rd poll_read_fn \<Rightarrow> ('rd, 'w) reader_task \<Rightarrow> ('rd, 'w) reader_task" where
  "reader_no_auto_step poll_write poll_read t =
     (case rd_pc t of
        Rd_loop pc \<Rightarrow>
          (case fill_flush_poll poll_write poll_read pc (brw t) of
             (Val (Ready (Inr n)), _, b) \<Rightarrow>
               if n \<noteq> 0 then t\<lparr>brw := b, rd_pc := Rd_loop FF_start\<rparr>
               else t\<lparr>brw := b, rd_pc := Rd_final_flush\<rparr>
           | (Val (Ready (Inl e)), _, b) \<Rightarrow> t\<lparr>brw := b, rd_pc := Rd_done (Inl e)\<rparr>
           | (Val Pending, pc', b) \<Rightarrow> t\<lparr>brw := b, rd_pc := Rd_loop pc'\<rparr>
           | (Panic m, _, b) \<Rightarrow> t\<lparr>brw := b, rd_pc := Rd_panicked m\<rparr>)
      | Rd_tick_flush \<Rightarrow> t
      | Rd_final_flush \<Rightarrow> await_flush poll_write (\<lambda>t. t\<lparr>rd_pc := Rd_done (Inr ())\<rparr>) t
      | _ \<Rightarrow> t)"

definition handle_reader_step ::
  "'w poll_write_fn \<Rightarrow> 'rd poll_read_fn \<Rightarrow> conn_config \<Rightarrow> bool \<Rightarrow>
     ('rd, 'w) reader_task \<Rightarrow> ('rd, 'w) reader_task" where
  "handle_reader_step poll_write poll_read config tick t =
     (if read_msg_flush_interval config = 0 then reader_no_auto_step poll_write poll_read t
      else reader_auto_step poll_write poll_read tick t)"

text \<open>A run of the task, one flag per poll.\<close>

fun reader_run ::
  "'w poll_write_fn \<Rightarrow> 'rd poll_read_fn \<Rightarrow> conn_config \<Rightarrow> bool list \<Rightarrow>
     ('rd, 'w) reader_task \<Rightarrow> ('rd, 'w) reader_task" where
  "reader_run poll_write poll_read config [] t = t"
| "reader_run poll_write poll_read config (tick # ticks) t =
     reader_run poll_write poll_read config ticks (handle_reader_step poll_write poll_read config tick t)"

section \<open>Invariant\<close>

lemma msg_buf_size_bounds:
  "MIN_MSG_BUFFER_SIZE \<le> msg_buf_size config \<and> msg_buf_size config \<le> MAX_MSG_BUFFER_SIZE"
  by (auto simp: msg_buf_size_def MIN_MSG_BUFFER_SIZE_def MAX_MSG_BUFFER_SIZE_def)

lemma msg_buf_size_range: "0 < msg_buf_size config" "msg_buf_size config \<le> usize_max"
  using msg_buf_size_bounds [of config]
  by (auto simp: MIN_MSG_BUFFER_SIZE_def MAX_MSG_BUFFER_SIZE_def usize_max_def)

text \<open>\<open>eof rd\<close> says that the read half has reported the end of the stream.\<close>

definition read_eof_ok :: "'rd poll_read_fn \<Rightarrow> ('rd \<Rightarrow> bool) \<Rightarrow> bool" where
  "read_eof_ok poll_read eof \<longleftrightarrow>
     (\<forall>rd n rd'. 0 < n \<longrightarrow> poll_read rd n = (Ready (Inr []), rd') \<longrightarrow> eof rd')"

text \<open>The pending window stays in range and every byte got from the socket is either delivered or
  pending, in order, unless the task has panicked; a suspended \<open>fill_flush\<close> stands where the buffer
  allows; bytes are pending only while the flush tick is enabled, in the automatic mode; the end of
  the stream has been seen before the final flush.\<close>

definition reader_inv ::
  "('w \<Rightarrow> byte list) \<Rightarrow> ('rd \<Rightarrow> byte list) \<Rightarrow> ('rd \<Rightarrow> bool) \<Rightarrow> conn_config \<Rightarrow>
     ('rd, 'w) reader_task \<Rightarrow> bool" where
  "reader_inv acc got eof config t \<longleftrightarrow>
     brw_inv (brw t) \<and> length (buf (brw t)) = msg_buf_size config \<and>
     (case rd_pc t of
        Rd_panicked _ \<Rightarrow> True
      | _ \<Rightarrow> acc (writer (brw t)) @ pending (brw t) = got (reader (brw t))) \<and>
     (case rd_pc t of
        Rd_loop pc \<Rightarrow> pc_ok pc (brw t) \<and>
          (read_msg_flush_interval config \<noteq> 0 \<longrightarrow> \<not> has_data t \<longrightarrow> pending (brw t) = [])
      | Rd_final_flush \<Rightarrow> eof (reader (brw t))
      | Rd_done (Inr _) \<Rightarrow> eof (reader (brw t)) \<and> pending (brw t) = []
      | _ \<Rightarrow> True)"

lemma flush_poll_nothing:
  assumes "brw_inv s" and "pending s = []"
  shows "\<exists>s'. flush_poll poll_write s = (Val (Ready (Inr ())), s') \<and> pending s' = []"
proof -
  from assms have "r_offset s = w_offset s"
    by (auto simp: brw_inv_def pending_def subslice_def)
  then show ?thesis
    by (simp add: flush_poll_def write_all_poll_def write_all_loop.simps pending_def)
qed

lemma ff_read_poll_pending_same:
  "ff_read_poll poll_read s = (Val Pending, pc, s') \<Longrightarrow> pending s' = pending s"
  by (auto simp: ff_read_poll_def pending_def split: prod.splits poll.splits sum.splits if_splits)

lemma fill_flush_pending_empty:
  assumes "fill_flush_poll poll_write poll_read pc s = (Val Pending, pc', s')"
    and "brw_inv s" and "pending s = []"
  shows "pending s' = []"
proof -
  obtain s1 where fl: "flush_poll poll_write s = (Val (Ready (Inr ())), s1)" and "pending s1 = []"
    using flush_poll_nothing [OF assms(2,3)] by blast
  with assms(1,3) show ?thesis
    by (cases pc) (auto simp: ff_flush_poll_def split: if_splits dest!: ff_read_poll_pending_same)
qed

lemma ff_read_poll_eof:
  assumes "ff_read_poll poll_read s = (Val (Ready (Inr 0)), pc, s')"
    and "w_offset s < length (buf s)" and "read_eof_ok poll_read eof"
  shows "eof (reader s')"
proof -
  have "eof x" if "poll_read (reader s) (length (buf s) - w_offset s) = (Ready (Inr []), x)" for x
    using assms(2,3) that unfolding read_eof_ok_def by (metis zero_less_diff)
  with assms(1) show ?thesis
    by (auto simp: ff_read_poll_def split: prod.splits poll.splits sum.splits if_splits)
qed

lemma fill_flush_eof:
  assumes "fill_flush_poll poll_write poll_read pc s = (Val (Ready (Inr 0)), pc', s')"
    and "brw_inv s" and "pc_ok pc s" and "read_eof_ok poll_read eof"
  shows "eof (reader s')"
proof -
  have fl: "eof (reader s')" if ff: "ff_flush_poll poll_write poll_read s = (Val (Ready (Inr 0)), pc', s')"
  proof -
    from ff obtain s1 where "flush_poll poll_write s = (Val (Ready (Inr ())), s1)"
      and "ff_read_poll poll_read s1 = (Val (Ready (Inr 0)), pc', s')"
      by (auto simp: ff_flush_poll_def split: prod.splits outcome.splits poll.splits sum.splits)
    with flush_poll_offsets [of poll_write s] assms(2,4) show ?thesis
      by (intro ff_read_poll_eof) (auto simp: brw_inv_def)
  qed
  then show ?thesis
    using assms by (cases pc) (auto simp: pc_ok_def brw_inv_def split: if_splits
        intro: ff_read_poll_eof)
qed

lemma pc_ok_start [simp]: "pc_ok FF_start s"
  by (simp add: pc_ok_def)

context async_writer
begin

lemma await_flush_inv:
  assumes "reader_inv accepted got eof config t" and "rd_pc t = Rd_tick_flush \<or> rd_pc t = Rd_final_flush"
    and k: "\<And>t'. k t' = t'\<lparr>has_data := False, rd_pc := Rd_loop FF_start\<rparr> \<and> rd_pc t = Rd_tick_flush \<or>
      k t' = t'\<lparr>rd_pc := Rd_done (Inr ())\<rparr> \<and> rd_pc t = Rd_final_flush"
  shows "reader_inv accepted got eof config (await_flush poll_write k t)"
proof -
  obtain r b where fl: "flush_poll poll_write (brw t) = (r, b)" by fastforce
  from assms(1) have inv: "brw_inv (brw t)" by (simp add: reader_inv_def)
  note post = flush_poll_post [OF fl inv]
  show ?thesis
    using assms(1,2) k [of "t\<lparr>brw := b\<rparr>"] post fl
    by (auto simp: reader_inv_def await_flush_def
        split: outcome.splits poll.splits sum.splits)
qed

lemma reader_loop_facts:
  assumes "reader_inv accepted got eof config t" and "rd_pc t = Rd_loop pc"
    and "fill_flush_poll poll_write poll_read pc (brw t) = (r, pc', b)"
    and "read_half_ok poll_read got" and "read_eof_ok poll_read eof"
  shows "brw_inv b" and "length (buf b) = msg_buf_size config"
    and "\<forall>m. r \<noteq> Panic m \<Longrightarrow> accepted (writer b) @ pending b = got (reader b)"
    and "r = Val Pending \<Longrightarrow> pc_ok pc' b"
    and "r = Val (Ready (Inr 0)) \<Longrightarrow> eof (reader b)"
    and "r = Val Pending \<Longrightarrow> read_msg_flush_interval config \<noteq> 0 \<Longrightarrow> \<not> has_data t \<Longrightarrow> pending b = []"
proof -
  from assms(1,2) have inv: "brw_inv (brw t)" "length (buf (brw t)) = msg_buf_size config"
    "accepted (writer (brw t)) @ pending (brw t) = got (reader (brw t))" "pc_ok pc (brw t)"
    and empty: "read_msg_flush_interval config \<noteq> 0 \<Longrightarrow> \<not> has_data t \<Longrightarrow> pending (brw t) = []"
    by (auto simp: reader_inv_def)
  note post = fill_flush_poll_post [OF assms(3) inv(1) assms(4)]
  show "brw_inv b" and "length (buf b) = msg_buf_size config"
    using post inv by simp_all
  show "accepted (writer b) @ pending b = got (reader b)" if "\<forall>m. r \<noteq> Panic m"
    using post(3) [OF that] inv(3) by fastforce
  show "pc_ok pc' b" if "r = Val Pending"
    using fill_flush_poll_pc [of poll_write poll_read pc "brw t" pc' b] assms(3) that inv
    by (auto simp: brw_inv_def)
  show "eof (reader b)" if "r = Val (Ready (Inr 0))"
    using fill_flush_eof [OF _ inv(1,4) assms(5)] assms(3) that by blast
  show "pending b = []"
    if "r = Val Pending" "read_msg_flush_interval config \<noteq> 0" "\<not> has_data t"
    using fill_flush_pending_empty [OF _ inv(1) empty [OF that(2,3)]] assms(3) that(1) by blast
qed

lemma reader_step_inv:
  assumes "reader_inv accepted got eof config t"
    and "read_half_ok poll_read got" and "read_eof_ok poll_read eof"
  shows "reader_inv accepted got eof config (handle_reader_step poll_write poll_read config tick t)"
proof (cases "rd_pc t")
  case (Rd_loop pc)
  obtain r pc' b where ff: "fill_flush_poll poll_write poll_read pc (brw t) = (r, pc', b)"
    by (cases "fill_flush_poll poll_write poll_read pc (brw t)") auto
  note facts = reader_loop_facts [OF assms(1) Rd_loop ff assms(2,3)]
  show ?thesis
    using Rd_loop ff facts
    by (auto simp: reader_inv_def handle_reader_step_def reader_auto_step_def reader_no_auto_step_def
        split: outcome.splits poll.splits sum.splits)
next
  case Rd_tick_flush
  then show ?thesis
    using await_flush_inv [OF assms(1)] assms(1)
    by (auto simp: handle_reader_step_def reader_auto_step_def reader_no_auto_step_def)
next
  case Rd_final_flush
  then show ?thesis
    using await_flush_inv [OF assms(1)]
    by (auto simp: handle_reader_step_def reader_auto_step_def reader_no_auto_step_def)
qed (use assms in \<open>simp_all add: handle_reader_step_def reader_auto_step_def reader_no_auto_step_def\<close>)

lemma reader_run_inv:
  assumes "reader_inv accepted got eof config t"
    and "read_half_ok poll_read got" and "read_eof_ok poll_read eof"
  shows "reader_inv accepted got eof config (reader_run poll_write poll_read config ticks t)"
  using assms(1)
  by (induction ticks arbitrary: t) (auto intro: reader_step_inv [OF _ assms(2,3)])

lemma reader_start_inv:
  assumes "accepted w = []" and "got rd = []"
  shows "\<exists>t. handle_reader_start rd w config = Val t \<and> reader_inv accepted got eof config t"
proof -
  obtain b where "brw_new rd w (msg_buf_size config) = Val b" "brw_inv b" "pending b = []"
    "length (buf b) = msg_buf_size config" "reader b = rd" "writer b = w"
    using brw_new_inv [OF msg_buf_size_range] by metis
  with assms show ?thesis by (simp add: handle_reader_start_def reader_inv_def)
qed

end

section \<open>The reader with the message callback\<close>

text \<open>A writer that always takes something lets a flush complete in one poll.\<close>

lemma write_all_loop_completes:
  assumes "\<And>w xs. xs \<noteq> [] \<Longrightarrow> length xs \<le> length bs \<Longrightarrow>
      \<exists>n w'. poll_write w xs = (Val (Ready (Inr n)), w') \<and> 0 < n \<and> n \<le> length xs"
    and "pos \<le> en" and "en \<le> length bs" and "length bs \<le> usize_max"
  shows "\<exists>w'. write_all_loop poll_write bs ro wo pos en w = (Val (Ready (Inr ())), 0, 0, w')"
  using assms(2)
proof (induction "en - pos" arbitrary: pos w rule: less_induct)
  case less
  show ?case
  proof (cases "pos < en")
    case True
    then have "0 < length (subslice bs pos en)" using assms(3) by simp
    then have "subslice bs pos en \<noteq> []" "length (subslice bs pos en) \<le> length bs"
      using assms(3) by (auto simp: subslice_def)
    then obtain n w' where pw: "poll_write w (subslice bs pos en) = (Val (Ready (Inr n)), w')"
      and n: "0 < n" "n \<le> length (subslice bs pos en)" using assms(1) by blast
    from n(2) assms(3) True have le: "pos + n \<le> en" by simp
    have "en - (pos + n) < en - pos" using n(1) True by linarith
    from less.hyps [OF this le] obtain w2 where
      "write_all_loop poll_write bs ro wo (pos + n) en w' = (Val (Ready (Inr ())), 0, 0, w2)" by blast
    with pw n(1) le True assms(3,4) show ?thesis by (subst write_all_loop.simps) auto
  next
    case False
    with less.prems show ?thesis by (subst write_all_loop.simps) simp
  qed
qed

lemma flush_poll_completes:
  assumes "\<And>w xs. xs \<noteq> [] \<Longrightarrow> length xs \<le> length (buf s) \<Longrightarrow>
      \<exists>n w'. poll_write w xs = (Val (Ready (Inr n)), w') \<and> 0 < n \<and> n \<le> length xs"
    and "brw_inv s"
  shows "\<exists>s'. flush_poll poll_write s = (Val (Ready (Inr ())), s')"
proof -
  from assms(2) have range: "r_offset s \<le> w_offset s" "w_offset s \<le> length (buf s)" "length (buf s) \<le> usize_max"
    by (simp_all add: brw_inv_def)
  obtain w' where "write_all_loop poll_write (buf s) (r_offset s) (w_offset s) (r_offset s) (w_offset s) (writer s) =
      (Val (Ready (Inr ())), 0, 0, w')"
    using write_all_loop_completes [of "buf s" poll_write, OF assms(1) range] by blast
  then show ?thesis by (simp add: flush_poll_def write_all_poll_def)
qed

text \<open>The states the reader task of a connection goes through, with the callback \<open>cb\<close> and its
  environment \<open>u\<close> at the start.\<close>

definition reader_reaches ::
  "'u extern_on_msg \<Rightarrow> raw_waker \<Rightarrow> 'rd poll_read_fn \<Rightarrow> conn_config \<Rightarrow> 'rd \<Rightarrow> 'u c_env \<Rightarrow>
     ('rd, 'u c_env on_msg_write) reader_task \<Rightarrow> bool" where
  "reader_reaches cb waker poll_read config rd u t \<longleftrightarrow>
     (\<exists>t0 ticks. handle_reader_start rd \<lparr>on_msg_env = u, delivered = []\<rparr> config = Val t0 \<and>
        t = reader_run (on_msg_poll_write (call_inner cb) waker) poll_read config ticks t0)"

lemma reader_reaches_inv:
  assumes "reader_reaches cb waker poll_read config rd u t"
    and "read_half_ok poll_read got" and "read_eof_ok poll_read eof" and "got rd = []"
  shows "reader_inv delivered got eof config t"
proof -
  obtain t0 ticks where t0: "handle_reader_start rd \<lparr>on_msg_env = u, delivered = []\<rparr> config = Val t0"
    and t: "t = reader_run (on_msg_poll_write (call_inner cb) waker) poll_read config ticks t0"
    using assms(1) by (auto simp: reader_reaches_def)
  from on_msg_writer.reader_start_inv [of "\<lparr>on_msg_env = u, delivered = []\<rparr>" got rd config eof] t0 assms(4)
  have "reader_inv delivered got eof config t0" by auto
  with on_msg_writer.reader_run_inv [OF _ assms(2,3)] t show ?thesis by blast
qed

section \<open>Properties\<close>

text \<open>A read half that delivers its input, at most \<open>n\<close> bytes per read; \<open>got\<close> is what it has delivered.\<close>

record demo_read =
  dr_input :: "byte list"
  dr_got :: "byte list"
  dr_eof :: bool

definition demo_poll_read :: "demo_read poll_read_fn" where
  "demo_poll_read rd n =
     (Ready (Inr (take n (dr_input rd))),
      rd\<lparr>dr_input := drop n (dr_input rd), dr_got := dr_got rd @ take n (dr_input rd),
        dr_eof := dr_eof rd \<or> dr_input rd = []\<rparr>)"

text \<open>A callback that takes whole messages and counts them.\<close>

definition demo_cb :: "nat extern_on_msg" where
  "demo_cb env msg waker = (of_nat (cm_len msg), null, env\<lparr>user := Suc (user env)\<rparr>)"

definition demo_waker :: raw_waker where
  "demo_waker = \<lparr>waker_data = 3, waker_vtable = 4\<rparr>"

definition demo_config :: conn_config where
  "demo_config = \<lparr>write_flush_interval = 1000000, read_msg_flush_interval = 1000000, msg_buffer_size = 0\<rparr>"

definition demo_rd :: demo_read where
  "demo_rd = \<lparr>dr_input = [1, 2, 3], dr_got = [], dr_eof = False\<rparr>"

definition demo_env :: "nat c_env" where
  "demo_env = \<lparr>heap = Map.empty, user = 0\<rparr>"

lemma demo_read_ok: "read_half_ok demo_poll_read dr_got" "read_eof_ok demo_poll_read dr_eof"
  by (auto simp: read_half_ok_def read_eof_ok_def demo_poll_read_def)

lemma demo_cb_takes:
  assumes "length bytes < 2 ^ 63" and "bytes \<noteq> []"
  shows "call_inner demo_cb env bytes waker = (Val (Ready (Inr (length bytes))), env\<lparr>user := Suc (user env)\<rparr>)"
  using assms c_long_of_nat [OF assms(1)] by (simp add: call_inner_def demo_cb_def parse_c_err_str_def)

text \<open>C8: the reader delivers the byte stream.  In every state of the reader task that is not a panic of
  the callback, what the callback has taken followed by what is pending in the buffer is exactly what was
  read from the socket, in order, and the pending window lies inside the buffer; a task that ends with
  \<open>Ok\<close> has delivered everything up to the end of the stream.\<close>

theorem reader_delivers_stream:
  assumes "reader_reaches cb waker poll_read config rd u t"
    and "read_half_ok poll_read got" and "read_eof_ok poll_read eof" and "got rd = []"
  shows "brw_inv (brw t) \<and>
    ((\<forall>m. rd_pc t \<noteq> Rd_panicked m) \<longrightarrow> delivered (writer (brw t)) @ pending (brw t) = got (reader (brw t))) \<and>
    (rd_pc t = Rd_done (Inr ()) \<longrightarrow> delivered (writer (brw t)) = got (reader (brw t)) \<and> eof (reader (brw t)))"
  using reader_reaches_inv [OF assms] by (auto simp: reader_inv_def split: rd_pc.splits sum.splits)

text \<open>A run of the reader: three bytes are read, then the end of the stream, then they are flushed.\<close>

definition demo_state ::
  "demo_read \<Rightarrow> byte list \<Rightarrow> nat \<Rightarrow> byte list \<Rightarrow> nat \<Rightarrow> bool \<Rightarrow> rd_pc \<Rightarrow>
     (demo_read, nat c_env on_msg_write) reader_task" where
  "demo_state rd b wo del calls data pc =
     \<lparr>brw = \<lparr>reader = rd, writer = \<lparr>on_msg_env = demo_env\<lparr>user := calls\<rparr>, delivered = del\<rparr>, buf = b,
             r_offset = 0, w_offset = wo\<rparr>, has_data = data, rd_pc = pc\<rparr>"

definition demo_buf :: "byte list" where
  "demo_buf = overwrite (replicate (msg_buf_size demo_config) 0) 0 [1, 2, 3]"

abbreviation (input) demo_step :: "bool \<Rightarrow> (demo_read, nat c_env on_msg_write) reader_task \<Rightarrow>
    (demo_read, nat c_env on_msg_write) reader_task" where
  "demo_step \<equiv> handle_reader_step (on_msg_poll_write (call_inner demo_cb) demo_waker) demo_poll_read demo_config"

lemma demo_size: "3 < msg_buf_size demo_config" "msg_buf_size demo_config < usize_max"
  using msg_buf_size_bounds [of demo_config]
  by (auto simp: MIN_MSG_BUFFER_SIZE_def MAX_MSG_BUFFER_SIZE_def usize_max_def)

lemma demo_buf_facts: "length demo_buf = msg_buf_size demo_config" "subslice demo_buf 0 3 = [1, 2, 3]"
  using demo_size by (simp_all add: demo_buf_def subslice_def overwrite_def)

lemma demo_step1:
  "demo_step tick (demo_state demo_rd (replicate (msg_buf_size demo_config) 0) 0 [] 0 False (Rd_loop FF_start)) =
     demo_state \<lparr>dr_input = [], dr_got = [1, 2, 3], dr_eof = False\<rparr> demo_buf 3 [] 0 True (Rd_loop FF_start)"
  using demo_size(1)
  by (simp add: handle_reader_step_def reader_auto_step_def demo_state_def ff_read_poll_def demo_poll_read_def
      demo_rd_def demo_buf_def) (simp add: demo_config_def)

lemma demo_step2:
  "demo_step tick (demo_state \<lparr>dr_input = [], dr_got = [1, 2, 3], dr_eof = False\<rparr> demo_buf 3 [] 0 True (Rd_loop FF_start)) =
     demo_state \<lparr>dr_input = [], dr_got = [1, 2, 3], dr_eof = True\<rparr> demo_buf 3 [] 0 True Rd_final_flush"
  using demo_size(1) demo_buf_facts(1)
  by (simp add: handle_reader_step_def reader_auto_step_def demo_state_def ff_read_poll_def demo_poll_read_def
      overwrite_def) (simp add: demo_config_def)

lemma demo_flush:
  "flush_poll (on_msg_poll_write (call_inner demo_cb) demo_waker)
       (brw (demo_state rd demo_buf 3 [] k data pc)) =
     (Val (Ready (Inr ())), brw (demo_state rd demo_buf 0 [1, 2, 3] (Suc k) data pc))"
  using demo_size demo_buf_facts
  by (simp add: flush_poll_def write_all_poll_def demo_state_def write_all_loop.simps on_msg_poll_write_def
      demo_cb_takes)

lemma demo_step3:
  "demo_step tick (demo_state rd demo_buf 3 [] 0 True Rd_final_flush) =
     demo_state rd demo_buf 0 [1, 2, 3] 1 True (Rd_done (Inr ()))"
  using demo_flush [of rd 0 True Rd_final_flush]
  by (simp add: handle_reader_step_def reader_auto_step_def await_flush_def demo_state_def)
    (simp add: demo_config_def)

lemma demo_reaches:
  "reader_reaches demo_cb demo_waker demo_poll_read demo_config demo_rd demo_env
     (reader_run (on_msg_poll_write (call_inner demo_cb) demo_waker) demo_poll_read demo_config ticks
       (demo_state demo_rd (replicate (msg_buf_size demo_config) 0) 0 [] 0 False (Rd_loop FF_start)))"
  using demo_size(1) unfolding reader_reaches_def
  by (auto simp: handle_reader_start_def brw_new_def demo_state_def demo_env_def)

theorem reader_delivers_stream_witness:
  "\<exists>t. reader_reaches demo_cb demo_waker demo_poll_read demo_config demo_rd demo_env t \<and> rd_pc t = Rd_done (Inr ()) \<and>
     delivered (writer (brw t)) = [1, 2, 3] \<and> dr_eof (reader (brw t))"
proof -
  let ?t = "demo_state \<lparr>dr_input = [], dr_got = [1, 2, 3], dr_eof = True\<rparr> demo_buf 0 [1, 2, 3] 1 True (Rd_done (Inr ()))"
  have reach: "reader_reaches demo_cb demo_waker demo_poll_read demo_config demo_rd demo_env ?t"
    using demo_reaches [of "[False, False, False]"] by (simp only: reader_run.simps demo_step1 demo_step2 demo_step3)
  have "rd_pc ?t = Rd_done (Inr ())" "dr_got (reader (brw ?t)) = [1, 2, 3]" "dr_got demo_rd = []"
    by (simp_all add: demo_state_def demo_rd_def)
  with reader_delivers_stream [OF reach demo_read_ok] reach show ?thesis by metis
qed

text \<open>The reader always starts, with a buffer between 8KB and 8MB whatever size was asked for.\<close>

lemma reader_starts:
  "\<exists>t. handle_reader_start rd w config = Val t \<and> rd_pc t = Rd_loop FF_start \<and> pending (brw t) = [] \<and>
     8 * 1024 \<le> length (buf (brw t)) \<and> length (buf (brw t)) \<le> 8 * 1024 * 1024 \<and>
     (8 * 1024 \<le> msg_buffer_size config \<and> msg_buffer_size config \<le> 8 * 1024 * 1024 \<longrightarrow>
        length (buf (brw t)) = msg_buffer_size config)"
  by (auto simp: handle_reader_start_def brw_new_def pending_def msg_buf_size_def MIN_MSG_BUFFER_SIZE_def
      MAX_MSG_BUFFER_SIZE_def)

text \<open>C23: with automatic flush no byte waits in the read buffer for more data.  Whenever bytes are pending
  and the socket has nothing to read, the flush interval is enabled, and its tick, with a callback that
  takes something of every message, delivers all of them.\<close>

theorem reader_tick_delivers:
  assumes "reader_reaches cb waker poll_read config rd u t"
    and ok: "read_half_ok poll_read got" "read_eof_ok poll_read eof" "got rd = []"
    and auto: "read_msg_flush_interval config \<noteq> 0" and "rd_pc t = Rd_loop pc" and "pending (brw t) \<noteq> []"
    and idle: "fill_flush_poll (on_msg_poll_write (call_inner cb) waker) poll_read pc (brw t) = (Val Pending, pc', b)"
    and takes: "\<And>env bs. bs \<noteq> [] \<Longrightarrow> length bs \<le> MAX_MSG_BUFFER_SIZE \<Longrightarrow>
      \<exists>n env'. call_inner cb env bs waker = (Val (Ready (Inr n)), env')"
  shows "has_data t \<and>
    (let t' = reader_run (on_msg_poll_write (call_inner cb) waker) poll_read config [True, tick] t
     in rd_pc t' = Rd_loop FF_start \<and> pending (brw t') = [] \<and> delivered (writer (brw t')) = got (reader (brw t')))"
proof -
  let ?pw = "on_msg_poll_write (call_inner cb) waker"
  note inv = reader_reaches_inv [OF assms(1) ok]
  have data: "has_data t" using inv assms(6,7) auto by (auto simp: reader_inv_def)
  let ?t1 = "t\<lparr>brw := b, rd_pc := Rd_tick_flush\<rparr>"
  have s1: "handle_reader_step ?pw poll_read config True t = ?t1"
    using assms(6) idle data auto by (simp add: handle_reader_step_def reader_auto_step_def)
  have inv1: "reader_inv delivered got eof config ?t1"
    using on_msg_writer.reader_step_inv [OF inv ok(1,2), of cb waker True] s1 by simp
  have bi: "brw_inv b" "length (buf b) \<le> MAX_MSG_BUFFER_SIZE"
    using inv1 msg_buf_size_bounds [of config] by (auto simp: reader_inv_def)
  have "\<exists>n w'. ?pw w xs = (Val (Ready (Inr n)), w') \<and> 0 < n \<and> n \<le> length xs"
    if "xs \<noteq> []" "length xs \<le> length (buf b)" for w xs
  proof -
    from takes [OF that(1)] that(2) bi(2) obtain n env' where
      ci: "call_inner cb (on_msg_env w) xs waker = (Val (Ready (Inr n)), env')" by (meson order.trans)
    with call_inner_bound [OF ci] show ?thesis by (simp add: on_msg_poll_write_def)
  qed
  with bi(1) obtain b' where fl: "flush_poll ?pw b = (Val (Ready (Inr ())), b')"
    using flush_poll_completes [of b ?pw] by blast
  let ?t2 = "?t1\<lparr>brw := b', has_data := False, rd_pc := Rd_loop FF_start\<rparr>"
  have s2: "handle_reader_step ?pw poll_read config tick ?t1 = ?t2"
    using fl auto by (simp add: handle_reader_step_def reader_auto_step_def await_flush_def)
  have inv2: "reader_inv delivered got eof config ?t2"
    using on_msg_writer.reader_step_inv [OF inv1 ok(1,2), of cb waker tick] s2 by simp
  then have "pending b' = []" "delivered (writer b') @ pending b' = got (reader b')"
    using auto by (auto simp: reader_inv_def)
  with data s1 s2 show ?thesis by simp
qed

text \<open>A read half that is idle once its input is used up.\<close>

definition demo_poll_idle :: "demo_read poll_read_fn" where
  "demo_poll_idle rd n = (if dr_input rd = [] then (Pending, rd) else demo_poll_read rd n)"

lemma demo_idle_ok: "read_half_ok demo_poll_idle dr_got" "read_eof_ok demo_poll_idle dr_eof"
  by (auto simp: read_half_ok_def read_eof_ok_def demo_poll_read_def demo_poll_idle_def)

lemma demo_idle_reaches:
  "reader_reaches demo_cb demo_waker demo_poll_idle demo_config demo_rd demo_env
     (demo_state \<lparr>dr_input = [], dr_got = [1, 2, 3], dr_eof = False\<rparr> demo_buf 3 [] 0 True (Rd_loop FF_start))"
proof -
  let ?t0 = "demo_state demo_rd (replicate (msg_buf_size demo_config) 0) 0 [] 0 False (Rd_loop FF_start)"
  have "handle_reader_start demo_rd \<lparr>on_msg_env = demo_env, delivered = []\<rparr> demo_config = Val ?t0"
    using demo_size(1) by (simp add: handle_reader_start_def brw_new_def demo_state_def demo_env_def)
  moreover have "reader_run (on_msg_poll_write (call_inner demo_cb) demo_waker) demo_poll_idle demo_config [False] ?t0 =
      demo_state \<lparr>dr_input = [], dr_got = [1, 2, 3], dr_eof = False\<rparr> demo_buf 3 [] 0 True (Rd_loop FF_start)"
    using demo_size(1)
    by (simp add: handle_reader_step_def reader_auto_step_def demo_state_def ff_read_poll_def demo_poll_read_def
        demo_poll_idle_def demo_rd_def demo_buf_def) (simp add: demo_config_def)
  ultimately show ?thesis unfolding reader_reaches_def by metis
qed

theorem reader_tick_delivers_witness:
  "\<exists>t t'. reader_reaches demo_cb demo_waker demo_poll_idle demo_config demo_rd demo_env t \<and> pending (brw t) = [1, 2, 3] \<and>
     t' = reader_run (on_msg_poll_write (call_inner demo_cb) demo_waker) demo_poll_idle demo_config [True, False] t \<and>
     pending (brw t') = [] \<and> delivered (writer (brw t')) = dr_got (reader (brw t'))"
proof -
  let ?rd = "\<lparr>dr_input = [], dr_got = [1, 2, 3], dr_eof = False\<rparr>"
  let ?t = "demo_state ?rd demo_buf 3 [] 0 True (Rd_loop FF_start)"
  have pend: "pending (brw ?t) = [1, 2, 3]" using demo_buf_facts by (simp add: demo_state_def pending_def)
  then have ne: "pending (brw ?t) \<noteq> []" by simp
  have idle: "fill_flush_poll (on_msg_poll_write (call_inner demo_cb) demo_waker) demo_poll_idle FF_start (brw ?t) =
      (Val Pending, FF_read, brw ?t)"
    using demo_size(1) demo_buf_facts by (simp add: demo_state_def ff_read_poll_def demo_poll_idle_def)
  have takes: "\<exists>n env'. call_inner demo_cb env bs demo_waker = (Val (Ready (Inr n)), env')"
    if "bs \<noteq> []" "length bs \<le> MAX_MSG_BUFFER_SIZE" for env bs
    using demo_cb_takes [of bs env demo_waker] that by (simp add: MAX_MSG_BUFFER_SIZE_def)
  have "read_msg_flush_interval demo_config \<noteq> 0" "dr_got demo_rd = []" "rd_pc ?t = Rd_loop FF_start"
    by (simp_all add: demo_config_def demo_rd_def demo_state_def)
  from reader_tick_delivers [OF demo_idle_reaches demo_idle_ok this(2,1,3) ne idle takes, of False]
  show ?thesis using demo_idle_reaches pend unfolding Let_def by blast
qed

text \<open>C24: the flush tick cancels a suspended read without loss.  At every suspended \<open>fill_flush\<close> of the
  reader, a new \<open>fill_flush\<close> polled in its place does exactly what the old one would have done.\<close>

theorem fill_flush_cancel_safe:
  assumes "reader_reaches cb waker poll_read config rd u t"
    and "read_half_ok poll_read got" and "got rd = []" and "rd_pc t = Rd_loop pc"
  shows "fill_flush_poll poll_write poll_read FF_start (brw t) = fill_flush_poll poll_write poll_read pc (brw t)"
proof -
  have "read_eof_ok poll_read (\<lambda>_. True)" by (simp add: read_eof_ok_def)
  from reader_reaches_inv [OF assms(1,2) this assms(3)] assms(4) have "pc_ok pc (brw t)" by (simp add: reader_inv_def)
  then show ?thesis by (rule fill_flush_restart)
qed

theorem fill_flush_cancel_safe_witness:
  "\<exists>t. reader_reaches demo_cb demo_waker demo_poll_idle demo_config demo_rd demo_env t \<and> rd_pc t = Rd_loop FF_read \<and>
     fill_flush_poll (on_msg_poll_write (call_inner demo_cb) demo_waker) demo_poll_idle FF_start (brw t) =
       fill_flush_poll (on_msg_poll_write (call_inner demo_cb) demo_waker) demo_poll_idle FF_read (brw t)"
proof -
  let ?t = "demo_state \<lparr>dr_input = [], dr_got = [1, 2, 3], dr_eof = False\<rparr> demo_buf 3 [] 0 True (Rd_loop FF_start)"
  let ?pw = "on_msg_poll_write (call_inner demo_cb) demo_waker"
  obtain t0 ticks where t0: "handle_reader_start demo_rd \<lparr>on_msg_env = demo_env, delivered = []\<rparr> demo_config = Val t0"
    and t: "?t = reader_run ?pw demo_poll_idle demo_config ticks t0"
    using demo_idle_reaches by (auto simp: reader_reaches_def)
  have append: "reader_run ?pw demo_poll_idle demo_config (xs @ [x]) s =
      handle_reader_step ?pw demo_poll_idle demo_config x (reader_run ?pw demo_poll_idle demo_config xs s)" for xs x s
    by (induction xs arbitrary: s) auto
  let ?t1 = "?t\<lparr>rd_pc := Rd_loop FF_read\<rparr>"
  have "handle_reader_step ?pw demo_poll_idle demo_config False ?t = ?t1"
    using demo_size(1) demo_buf_facts
    by (simp add: handle_reader_step_def reader_auto_step_def demo_state_def ff_read_poll_def demo_poll_idle_def)
      (simp add: demo_config_def)
  then have reach: "reader_reaches demo_cb demo_waker demo_poll_idle demo_config demo_rd demo_env ?t1"
    using t0 t append [of ticks False t0] unfolding reader_reaches_def by metis
  have got: "dr_got demo_rd = []" and pc: "rd_pc ?t1 = Rd_loop FF_read" by (simp_all add: demo_rd_def)
  from fill_flush_cancel_safe [OF reach demo_idle_ok(1) got pc, of ?pw] reach pc show ?thesis by blast
qed

text \<open>The reader never asks the socket for zero bytes, so a read that returns nothing means the end of
  the stream: two read halves that differ only on empty slices are indistinguishable to \<open>fill_flush\<close>.\<close>

lemma fill_flush_reads_nonempty:
  assumes "reader_reaches cb waker poll_read config rd u t"
    and "read_half_ok poll_read got" and "got rd = []" and "rd_pc t = Rd_loop pc"
    and "\<And>rd n. 0 < n \<Longrightarrow> poll_read' rd n = poll_read rd n"
  shows "fill_flush_poll poll_write poll_read' pc (brw t) = fill_flush_poll poll_write poll_read pc (brw t)"
proof -
  have "read_eof_ok poll_read (\<lambda>_. True)" by (simp add: read_eof_ok_def)
  from reader_reaches_inv [OF assms(1,2) this assms(3)] assms(4) have "pc_ok pc (brw t)" "brw_inv (brw t)"
    by (simp_all add: reader_inv_def)
  with assms(5) show ?thesis by (intro fill_flush_poll_cong) auto
qed

end
