(* ===== verification/Writer.thy ===== *)
theory Writer
  imports Conn Msg_Sender Reader
begin

text \<open>
  The model of \<open>src/write.rs\<close>: the task that drains the chain of ring buffers into the write half of
  the socket.

  The task's state extends the world it shares with the sender by its await point \<open>w_pc\<close> and by \<open>out\<close>,
  the bytes the socket has accepted (the code has no such field).  One step takes an event: the task is
  polled, the flush interval fires, a write or the shutdown of the socket completes, or the task is
  aborted.  An event that is impossible at the await point gives \<open>None\<close>.  The reads of
  \<open>is_closed\<close> and \<open>occupied_len\<close> that follow a completed \<open>wait_occupied\<close> are one step with it.  Both only
  grow until the task itself advances the ring, and a producer pushes nothing once it has closed the
  ring, so a run in which it acts between these reads is one in which the step comes after its pushes
  and, if \<open>is_closed\<close> was false, just before it closes.
\<close>

section \<open>State and steps\<close>

text \<open>\<open>W_loop\<close> has the ring and \<open>tick_flush\<close>; \<open>W_flush\<close> the ring and whether it is the flush after the
  loop; \<open>W_write\<close> also the slice being written.\<close>

datatype w_pc =
    W_recv
  | W_loop nat bool
  | W_flush nat bool
  | W_write nat "byte list" bool
  | W_shutdown
  | W_done "unit io_result"
  | W_aborted

record ('r, 'c) dp = "('r, 'c) world" +
  w_pc :: w_pc
  out :: "byte list"

datatype w_event = Ev_poll | Ev_tick | Ev_wrote nat | Ev_shutdown | Ev_io_error io_error | Ev_abort

text \<open>The ring the task holds.\<close>

fun held_ring :: "w_pc \<Rightarrow> nat list" where
  "held_ring (W_loop i _) = [i]"
| "held_ring (W_flush i _) = [i]"
| "held_ring (W_write i _ _) = [i]"
| "held_ring _ = []"

fun writer_live :: "w_pc \<Rightarrow> bool" where
  "writer_live (W_done _) = False"
| "writer_live W_aborted = False"
| "writer_live _ = True"

definition drop_cons_at :: "('r, 'c) rb_lib \<Rightarrow> nat list \<Rightarrow> 'r list \<Rightarrow> 'r list" where
  "drop_cons_at L is rs = fold (\<lambda>i rs. rs[i := rb_drop_cons L (rs ! i)]) is rs"

text \<open>The end of the task: the ring it holds and the receiver with the rings still queued are
  dropped.\<close>

definition writer_exit :: "('r, 'c) rb_lib \<Rightarrow> w_pc \<Rightarrow> ('r, 'c) dp \<Rightarrow> ('r, 'c) dp" where
  "writer_exit L pc d =
     (case ch_drop_rx L (chan d) of
        (is, c) \<Rightarrow> d\<lparr>rings := drop_cons_at L (held_ring (w_pc d) @ is) (rings d), chan := c, w_pc := pc\<rparr>)"

definition recv_poll :: "('r, 'c) rb_lib \<Rightarrow> ('r, 'c) dp \<Rightarrow> ('r, 'c) dp" where
  "recv_poll L d =
     (case ch_recv L (chan d) of
        (Ready (Some i), c) \<Rightarrow> d\<lparr>chan := c, w_pc := W_loop i True\<rparr>
      | (Ready None, c) \<Rightarrow> d\<lparr>chan := c, w_pc := W_shutdown\<rparr>
      | (Pending, c) \<Rightarrow> d\<lparr>chan := c\<rparr>)"

definition wait_threshold :: "bool \<Rightarrow> nat" where
  "wait_threshold tick_flush = of_bool tick_flush * MIN_MSG_BUFFER_SIZE + of_bool (\<not> tick_flush)"

definition auto_loop_poll :: "('r, 'c) rb_lib \<Rightarrow> nat \<Rightarrow> bool \<Rightarrow> ('r, 'c) dp \<Rightarrow> ('r, 'c) dp" where
  "auto_loop_poll L i tick_flush d =
     (let r = rings d ! i in
      if \<not> rb_wait_occupied L r (wait_threshold tick_flush) then d
      else if rb_cons_closed L r then d\<lparr>w_pc := W_flush i True\<rparr>
      else if rb_occupied_len L r < MIN_MSG_BUFFER_SIZE then d\<lparr>w_pc := W_loop i True\<rparr>
      else d\<lparr>w_pc := W_flush i False\<rparr>)"

text \<open>The interval is polled after \<open>wait_occupied\<close> and only if \<open>tick_flush\<close> is set.\<close>

definition auto_loop_tick :: "('r, 'c) rb_lib \<Rightarrow> nat \<Rightarrow> bool \<Rightarrow> ('r, 'c) dp \<Rightarrow> ('r, 'c) dp option" where
  "auto_loop_tick L i tick_flush d =
     (if tick_flush \<and> \<not> rb_wait_occupied L (rings d ! i) (wait_threshold tick_flush)
      then Some (d\<lparr>w_pc := W_flush i False\<rparr>) else None)"

definition no_auto_loop_poll :: "('r, 'c) rb_lib \<Rightarrow> nat \<Rightarrow> ('r, 'c) dp \<Rightarrow> ('r, 'c) dp" where
  "no_auto_loop_poll L i d =
     (let r = rings d ! i in
      if \<not> rb_wait_occupied L r MIN_MSG_BUFFER_SIZE then d
      else if rb_cons_closed L r then d\<lparr>w_pc := W_flush i True\<rparr>
      else d\<lparr>w_pc := W_flush i False\<rparr>)"

text \<open>One round of \<open>flush\<close>: start a write of the first slice, or return when there is none.  After the
  flush that follows the loop the ring is dropped and the next one is received; after the others the
  loop goes on, with \<open>tick_flush\<close> false in the automatic mode.\<close>

definition flush_round :: "('r, 'c) rb_lib \<Rightarrow> bool \<Rightarrow> nat \<Rightarrow> bool \<Rightarrow> ('r, 'c) dp \<Rightarrow> ('r, 'c) dp" where
  "flush_round L auto i final d =
     (case rb_as_slices L (rings d ! i) of
        (left, _) \<Rightarrow>
          if left \<noteq> [] then d\<lparr>w_pc := W_write i left final\<rparr>
          else if final then d\<lparr>rings := drop_cons_at L [i] (rings d), w_pc := W_recv\<rparr>
          else d\<lparr>w_pc := W_loop i (\<not> auto)\<rparr>)"

text \<open>A completed write of \<open>count\<close> bytes of \<open>left\<close>; the socket accepts at most what it was given.\<close>

definition flush_wrote ::
  "('r, 'c) rb_lib \<Rightarrow> nat \<Rightarrow> byte list \<Rightarrow> bool \<Rightarrow> nat \<Rightarrow> ('r, 'c) dp \<Rightarrow> ('r, 'c) dp option" where
  "flush_wrote L i left final count d =
     (if count \<le> length left
      then Some (d\<lparr>out := out d @ take count left,
                   rings := (rings d)[i := rb_advance_read_index L (rings d ! i) count],
                   w_pc := W_flush i final\<rparr>)
      else None)"

text \<open>\<open>auto\<close> is the choice \<open>handle_writer\<close> makes by the flush interval.\<close>

definition writer_auto :: "conn_config \<Rightarrow> bool" where
  "writer_auto config \<longleftrightarrow> write_flush_interval config \<noteq> 0"

fun writer_exec ::
  "('r, 'c) rb_lib \<Rightarrow> conn_config \<Rightarrow> w_event \<Rightarrow> ('r, 'c) dp \<Rightarrow> ('r, 'c) dp option" where
  "writer_exec L config Ev_poll d =
     (case w_pc d of
        W_recv \<Rightarrow> Some (recv_poll L d)
      | W_loop i tick_flush \<Rightarrow>
          Some (if writer_auto config then auto_loop_poll L i tick_flush d else no_auto_loop_poll L i d)
      | W_flush i final \<Rightarrow> Some (flush_round L (writer_auto config) i final d)
      | W_write i left final \<Rightarrow> Some d
      | W_shutdown \<Rightarrow> Some d
      | _ \<Rightarrow> None)"
| "writer_exec L config Ev_tick d =
     (case w_pc d of
        W_loop i tick_flush \<Rightarrow> if writer_auto config then auto_loop_tick L i tick_flush d else None
      | _ \<Rightarrow> None)"
| "writer_exec L config (Ev_wrote count) d =
     (case w_pc d of
        W_write i left final \<Rightarrow> flush_wrote L i left final count d
      | _ \<Rightarrow> None)"
| "writer_exec L config Ev_shutdown d =
     (case w_pc d of W_shutdown \<Rightarrow> Some (writer_exit L (W_done (Inr ())) d) | _ \<Rightarrow> None)"
| "writer_exec L config (Ev_io_error e) d =
     (case w_pc d of
        W_write _ _ _ \<Rightarrow> Some (writer_exit L (W_done (Inl e)) d)
      | W_shutdown \<Rightarrow> Some (writer_exit L (W_done (Inl e)) d)
      | _ \<Rightarrow> None)"
| "writer_exec L config Ev_abort d =
     (if writer_live (w_pc d) then Some (writer_exit L W_aborted d) else None)"

text \<open>A run over a list of events.\<close>

fun writer_run ::
  "('r, 'c) rb_lib \<Rightarrow> conn_config \<Rightarrow> w_event list \<Rightarrow> ('r, 'c) dp \<Rightarrow> ('r, 'c) dp option" where
  "writer_run L config [] d = Some d"
| "writer_run L config (e # es) d =
     (case writer_exec L config e d of None \<Rightarrow> None | Some d' \<Rightarrow> writer_run L config es d')"

lemma writer_run_append:
  "writer_run L config (es @ fs) d =
     (case writer_run L config es d of None \<Rightarrow> None | Some d' \<Rightarrow> writer_run L config fs d')"
  by (induction es arbitrary: d) (auto split: option.splits)

section \<open>Laws of the consumer half\<close>

lemma cons_law:
  assumes "rb_laws L V"
  shows "rb_wait_occupied L r n \<longleftrightarrow> n \<le> length (items V r) \<or> prod_gone V r"
    and "rb_cons_closed L r = prod_gone V r" and "rb_occupied_len L r = length (items V r)"
    and "rb_as_slices L r = (a, b) \<Longrightarrow> items V r = a @ b"
    and "rb_as_slices L r = ([], b) \<Longrightarrow> items V r = []"
  using assms unfolding rb_laws_def cons_laws_def by (blast, blast, blast, blast, force)

lemma advance_law:
  assumes "rb_laws L V" and "n \<le> length (items V r)"
  shows "items V (rb_advance_read_index L r n) = drop n (items V r)"
    and "cap V (rb_advance_read_index L r n) = cap V r"
    and "prod_gone V (rb_advance_read_index L r n) = prod_gone V r"
    and "cons_gone V (rb_advance_read_index L r n) = cons_gone V r"
    and "wakes_producer V r (rb_advance_read_index L r n) \<or> n = 0 \<and> waker_kept V r (rb_advance_read_index L r n)"
  using assms unfolding rb_laws_def cons_laws_def by blast+

lemma drop_cons_law:
  assumes "rb_laws L V"
  shows "items V (rb_drop_cons L r) = items V r" and "cap V (rb_drop_cons L r) = cap V r"
    and "prod_gone V (rb_drop_cons L r) = prod_gone V r" and "cons_gone V (rb_drop_cons L r)"
    and "wakes_producer V r (rb_drop_cons L r)"
  using assms unfolding rb_laws_def cons_laws_def by blast+

lemma recv_law:
  assumes "rb_laws L V" and "ch_recv L c = (res, c')"
  shows "queued V c' = tl (queued V c)" and "tx_gone V c' = tx_gone V c" and "rx_gone V c' = rx_gone V c"
    and "res = (case queued V c of x # _ \<Rightarrow> Ready (Some x)
      | [] \<Rightarrow> if tx_gone V c then Ready None else Pending)"
  using assms unfolding rb_laws_def chan_laws_def by blast+

lemma drop_rx_law:
  assumes "rb_laws L V" and "ch_drop_rx L c = (xs, c')"
  shows "xs = queued V c" and "queued V c' = []" and "tx_gone V c' = tx_gone V c" and "rx_gone V c'"
  using assms unfolding rb_laws_def chan_laws_def by blast+

lemma length_drop_cons_at [simp]: "length (drop_cons_at L is rs) = length rs"
  by (induction "is" arbitrary: rs) (simp_all add: drop_cons_at_def)

lemma drop_cons_at_step:
  "j < length rs \<Longrightarrow> rs[i := rb_drop_cons L (rs ! i)] ! j = (if i = j then rb_drop_cons L (rs ! j) else rs ! j)"
  by (cases "i = j") auto

lemma drop_cons_at_view:
  assumes "rb_laws L V" and "j < length rs"
  shows "items V (drop_cons_at L is rs ! j) = items V (rs ! j)"
    and "cap V (drop_cons_at L is rs ! j) = cap V (rs ! j)"
    and "prod_gone V (drop_cons_at L is rs ! j) = prod_gone V (rs ! j)"
    and "cons_gone V (drop_cons_at L is rs ! j) \<longleftrightarrow> cons_gone V (rs ! j) \<or> j \<in> set is"
  using assms(2)
  by (induction "is" arbitrary: rs)
    (auto simp: drop_cons_at_def drop_cons_at_step drop_cons_law [OF assms(1)])

text \<open>The writer neither allocates rings nor hands over bytes.\<close>

lemma writer_exec_frame:
  "writer_exec L config e d = Some d' \<Longrightarrow> length (rings d') = length (rings d) \<and> sent d' = sent d"
  by (cases e)
    (auto simp: recv_poll_def auto_loop_poll_def auto_loop_tick_def no_auto_loop_poll_def
      flush_round_def flush_wrote_def writer_exit_def Let_def
      split: w_pc.splits if_splits prod.splits poll.splits option.splits)

lemma writer_run_frame:
  "writer_run L config es d = Some d' \<Longrightarrow> length (rings d') = length (rings d) \<and> sent d' = sent d"
proof (induction es arbitrary: d)
  case (Cons e es)
  then obtain d1 where "writer_exec L config e d = Some d1" "writer_run L config es d1 = Some d'"
    by (auto split: option.splits)
  with Cons.IH writer_exec_frame show ?case by metis
qed simp

end
