(* ===== verification/Data_Path.thy ===== *)
theory Data_Path
  imports Writer
begin

text \<open>
  The sender and the writer together: what the user hands to a \<open>MsgSender\<close> is what the socket gets.

  \<open>dp_inv V opens d\<close> is the invariant of the shared state, where \<open>opens\<close> lists the rings whose producer
  half the sender still holds (one between two calls, two while it replaces its ring, none after it is
  dropped).  It is kept by every event of the writer and by every method of the sender in which the
  writer runs between any two library calls.
\<close>

section \<open>The invariant\<close>

text \<open>The rings that still hold bytes of the stream, oldest first.\<close>

definition pend :: "('r, 'c) rb_view \<Rightarrow> ('r, 'c) dp \<Rightarrow> nat list" where
  "pend V d = held_ring (w_pc d) @ queued V (chan d)"

definition in_flight :: "('r, 'c) rb_view \<Rightarrow> ('r, 'c) dp \<Rightarrow> byte list" where
  "in_flight V d = concat (map (\<lambda>i. items V (rings d ! i)) (pend V d))"

definition rings_ok :: "('r, 'c) rb_view \<Rightarrow> ('r, 'c) dp \<Rightarrow> bool" where
  "rings_ok V d \<longleftrightarrow>
     (\<forall>i < length (rings d). RING_BUFFER_SIZE \<le> cap V (rings d ! i) \<and>
        length (items V (rings d ! i)) \<le> cap V (rings d ! i))"

definition chain_ok :: "('r, 'c) rb_view \<Rightarrow> nat list \<Rightarrow> ('r, 'c) dp \<Rightarrow> bool" where
  "chain_ok V opens d \<longleftrightarrow>
     \<not> rx_gone V (chan d) \<and> distinct (pend V d) \<and> (\<forall>i \<in> set (pend V d). i < length (rings d)) \<and>
     (\<exists>closed. pend V d = closed @ opens \<and> (\<forall>i \<in> set closed. prod_gone V (rings d ! i))) \<and>
     out d @ in_flight V d = sent d"

definition pc_inv :: "('r, 'c) rb_view \<Rightarrow> nat list \<Rightarrow> ('r, 'c) dp \<Rightarrow> bool" where
  "pc_inv V opens d \<longleftrightarrow>
     (case w_pc d of
        W_flush i final \<Rightarrow> final \<longrightarrow> prod_gone V (rings d ! i)
      | W_write i left final \<Rightarrow> left \<noteq> [] \<and> (\<exists>rest. items V (rings d ! i) = left @ rest) \<and>
          (final \<longrightarrow> prod_gone V (rings d ! i))
      | W_shutdown \<Rightarrow> pend V d = [] \<and> tx_gone V (chan d)
      | W_done (Inr _) \<Rightarrow> out d = sent d \<and> opens = []
      | _ \<Rightarrow> True)"

definition dp_inv :: "('r, 'c) rb_view \<Rightarrow> nat list \<Rightarrow> ('r, 'c) dp \<Rightarrow> bool" where
  "dp_inv V opens d \<longleftrightarrow>
     rings_ok V d \<and> distinct opens \<and> (\<forall>i \<in> set opens. i < length (rings d) \<and> \<not> prod_gone V (rings d ! i)) \<and>
     (tx_gone V (chan d) \<longrightarrow> opens = []) \<and>
     (if writer_live (w_pc d) then chain_ok V opens d
      else rx_gone V (chan d) \<and> (\<exists>rest. sent d = out d @ rest)) \<and>
     pc_inv V opens d"

lemmas dp_inv_defs = dp_inv_def rings_ok_def chain_ok_def pc_inv_def

text \<open>Replacing the await point alone.\<close>

lemma dp_inv_pc:
  assumes "dp_inv V opens d" and "writer_live (w_pc d)" and "writer_live pc"
    and "held_ring pc = held_ring (w_pc d)" and "pc_inv V opens (d\<lparr>w_pc := pc\<rparr>)"
  shows "dp_inv V opens (d\<lparr>w_pc := pc\<rparr>)"
  using assms by (simp add: dp_inv_def rings_ok_def chain_ok_def pend_def in_flight_def)

text \<open>What the socket has accepted is the front of what was handed over.\<close>

lemma dp_inv_in_order: "dp_inv V opens d \<Longrightarrow> \<exists>rest. sent d = out d @ rest"
  by (cases "writer_live (w_pc d)") (auto simp: dp_inv_def chain_ok_def intro: sym)

lemma dp_inv_clock [simp]: "dp_inv V opens (d\<lparr>clock := k\<rparr>) = dp_inv V opens d"
  by (simp add: dp_inv_defs pend_def in_flight_def cong: w_pc.case_cong sum.case_cong)

section \<open>Events of the writer\<close>

lemma recv_poll_inv:
  assumes "rb_laws L V" and "dp_inv V opens d" and "w_pc d = W_recv"
  shows "dp_inv V opens (recv_poll L d)"
proof -
  obtain res c where rc: "ch_recv L (chan d) = (res, c)" by fastforce
  note law = recv_law [OF assms(1) rc]
  show ?thesis
  proof (cases "queued V (chan d)")
    case (Cons x xs)
    with law rc assms(2,3) show ?thesis
      by (auto simp: recv_poll_def dp_inv_defs pend_def in_flight_def)
  next
    case Nil
    with law rc assms(2,3) show ?thesis
      by (auto simp: recv_poll_def dp_inv_defs pend_def in_flight_def)
  qed
qed

lemma loop_poll_inv:
  assumes "rb_laws L V" and "dp_inv V opens d" and "w_pc d = W_loop i t"
  shows "dp_inv V opens (auto_loop_poll L i t d)" and "dp_inv V opens (no_auto_loop_poll L i d)"
    and "auto_loop_tick L i t d = Some d' \<Longrightarrow> dp_inv V opens d'"
proof -
  have pc: "dp_inv V opens (d\<lparr>w_pc := W_loop i u\<rparr>)" "dp_inv V opens (d\<lparr>w_pc := W_flush i False\<rparr>)"
    "prod_gone V (rings d ! i) \<Longrightarrow> dp_inv V opens (d\<lparr>w_pc := W_flush i True\<rparr>)" for u
    using assms(2,3) by (auto intro!: dp_inv_pc simp: pc_inv_def)
  with assms(2) cons_law(2) [OF assms(1)]
  show "dp_inv V opens (auto_loop_poll L i t d)" and "dp_inv V opens (no_auto_loop_poll L i d)"
    and "auto_loop_tick L i t d = Some d' \<Longrightarrow> dp_inv V opens d'"
    by (auto simp: auto_loop_poll_def no_auto_loop_poll_def auto_loop_tick_def Let_def split: if_splits)
qed

lemma chain_hd_closed:
  assumes "dp_inv V opens d" and "writer_live (w_pc d)" and "pend V d = i # q"
    and "prod_gone V (rings d ! i)"
  shows "\<exists>closed. q = closed @ opens \<and> (\<forall>j \<in> set closed. prod_gone V (rings d ! j))"
proof -
  from assms(1,2) obtain closed where c: "pend V d = closed @ opens"
    "\<forall>j \<in> set closed. prod_gone V (rings d ! j)" and o: "\<forall>j \<in> set opens. \<not> prod_gone V (rings d ! j)"
    by (auto simp: dp_inv_defs)
  with assms(3,4) have "closed \<noteq> []" by (cases closed; cases opens) auto
  with c assms(3) show ?thesis by (cases closed) auto
qed

lemma flush_round_inv:
  assumes "rb_laws L V" and "dp_inv V opens d" and "w_pc d = W_flush i final"
  shows "dp_inv V opens (flush_round L auto i final d)"
proof -
  obtain left right where sl: "rb_as_slices L (rings d ! i) = (left, right)" by fastforce
  note law = cons_law(4,5) [OF assms(1)]
  consider (wr) "left \<noteq> []" | (again) "left = []" "\<not> final" | (last) "left = []" "final" by blast
  then show ?thesis
  proof cases
    case wr
    from assms(2,3) have "final \<longrightarrow> prod_gone V (rings d ! i)" by (simp add: dp_inv_def pc_inv_def)
    with wr sl law(1) [OF sl] assms(3) have "dp_inv V opens (d\<lparr>w_pc := W_write i left final\<rparr>)"
      by (intro dp_inv_pc [OF assms(2)]) (simp_all add: pc_inv_def)
    with wr sl show ?thesis by (simp add: flush_round_def)
  next
    case again
    with sl assms(2,3) show ?thesis
      by (auto simp: flush_round_def intro!: dp_inv_pc simp: pc_inv_def)
  next
    case last
    from sl last law(2) have empty: "items V (rings d ! i) = []" by blast
    from assms(2,3) last have gone: "prod_gone V (rings d ! i)" and live: "writer_live (w_pc d)"
      by (auto simp: dp_inv_def pc_inv_def)
    have pend: "pend V d = i # queued V (chan d)" using assms(3) by (simp add: pend_def)
    obtain closed where closed: "queued V (chan d) = closed @ opens"
      "\<forall>j \<in> set closed. prod_gone V (rings d ! j)"
      using chain_hd_closed [OF assms(2) live pend gone] by blast
    let ?d = "d\<lparr>rings := drop_cons_at L [i] (rings d), w_pc := W_recv\<rparr>"
    note view = drop_cons_at_view [OF assms(1)]
    have old: "chain_ok V opens d" "rings_ok V d" using assms(2) live by (simp_all add: dp_inv_def)
    have items: "in_flight V ?d = in_flight V d"
    proof -
      have "concat (map (\<lambda>j. items V (drop_cons_at L [i] (rings d) ! j)) (queued V (chan d))) =
          concat (map (\<lambda>j. items V (rings d ! j)) (queued V (chan d)))"
        using old(1) pend by (intro concat_map_cong) (simp add: chain_ok_def view)
      then show ?thesis by (simp add: in_flight_def pend_def assms(3) empty)
    qed
    have "chain_ok V opens ?d"
      using old(1) pend closed items view(3)
      by (auto simp: chain_ok_def pend_def assms(3) intro!: exI [of _ closed])
    with last sl assms(2) old(2) show ?thesis
      by (auto simp: flush_round_def dp_inv_def rings_ok_def pc_inv_def view)
  qed
qed

text \<open>Advancing the read index: the slice being written is still the front of the ring, so the count
  is within the occupied slots.\<close>

lemma flush_wrote_inv:
  assumes "rb_laws L V" and "dp_inv V opens d" and "w_pc d = W_write i left final"
    and "flush_wrote L i left final n d = Some d'"
  shows "dp_inv V opens d'"
proof -
  let ?r = "rb_advance_read_index L (rings d ! i) n"
  from assms(4) have n: "n \<le> length left" and d': "d' = d\<lparr>out := out d @ take n left,
      rings := (rings d)[i := ?r], w_pc := W_flush i final\<rparr>"
    by (auto simp: flush_wrote_def split: if_splits)
  from assms(2,3) obtain rest where rest: "items V (rings d ! i) = left @ rest"
    and fin: "final \<longrightarrow> prod_gone V (rings d ! i)" and old: "chain_ok V opens d" "rings_ok V d"
    by (auto simp: dp_inv_def pc_inv_def)
  note law = advance_law [OF assms(1), of n "rings d ! i"]
  have pend: "pend V d = i # queued V (chan d)" using assms(3) by (simp add: pend_def)
  with old(1) have i: "i < length (rings d)" "i \<notin> set (queued V (chan d))"
    by (auto simp: chain_ok_def)
  have view: "prod_gone V ((rings d)[i := ?r] ! j) = prod_gone V (rings d ! j)"
    "cap V ((rings d)[i := ?r] ! j) = cap V (rings d ! j)"
    "length (items V ((rings d)[i := ?r] ! j)) \<le> length (items V (rings d ! j))" for j
    using law n rest i(1) by (cases "i = j"; simp)+
  have "concat (map (\<lambda>j. items V ((rings d)[i := ?r] ! j)) (queued V (chan d))) =
      concat (map (\<lambda>j. items V (rings d ! j)) (queued V (chan d)))"
    using i by (intro concat_map_cong) (metis nth_list_update_neq)
  then have "out d' @ in_flight V d' = out d @ in_flight V d"
    using law(1) n rest i(1) by (simp add: d' in_flight_def pend_def assms(3))
  then have "chain_ok V opens d'"
    using old(1) view(1) by (simp add: chain_ok_def d' pend_def assms(3))
  moreover have "rings_ok V d'"
    using old(2) view(2,3) by (simp add: rings_ok_def d') (meson le_trans)
  ultimately show ?thesis
    using assms(2) view(1) fin by (simp add: dp_inv_def pc_inv_def d')
qed

lemma writer_exit_inv:
  assumes "rb_laws L V" and "dp_inv V opens d" and "writer_live (w_pc d)" and "\<not> writer_live pc"
    and "pc = W_done (Inr ()) \<Longrightarrow> w_pc d = W_shutdown"
  shows "dp_inv V opens (writer_exit L pc d)"
proof -
  obtain xs c where rx: "ch_drop_rx L (chan d) = (xs, c)" by fastforce
  note law = drop_rx_law [OF assms(1) rx] and view = drop_cons_at_view [OF assms(1)]
  from assms(2,3) have old: "chain_ok V opens d" by (simp add: dp_inv_def)
  have fin: "out d = sent d \<and> opens = []" if "pc = W_done (Inr ())"
    using assms(2) assms(5) [OF that] old
    by (auto simp: dp_inv_def pc_inv_def chain_ok_def in_flight_def)
  have "sent d = out d @ in_flight V d" using old by (simp add: chain_ok_def)
  with assms(2,4) law view fin rx show ?thesis
    by (cases pc) (auto simp: writer_exit_def dp_inv_def rings_ok_def pc_inv_def split: sum.splits)
qed

theorem writer_exec_inv:
  assumes "rb_laws L V" and "dp_inv V opens d" and "writer_exec L config e d = Some d'"
  shows "dp_inv V opens d'"
proof (cases e)
  case Ev_poll
  with assms show ?thesis
    by (auto split: w_pc.splits if_splits intro: recv_poll_inv loop_poll_inv flush_round_inv)
next
  case Ev_tick
  with assms show ?thesis by (auto split: w_pc.splits if_splits intro: loop_poll_inv)
next
  case (Ev_wrote n)
  with assms show ?thesis by (auto split: w_pc.splits intro: flush_wrote_inv)
next
  case Ev_abort
  with assms show ?thesis by (auto split: if_splits intro!: writer_exit_inv)
qed (use assms in \<open>auto split: w_pc.splits intro!: writer_exit_inv\<close>)

lemma writer_run_inv:
  assumes "rb_laws L V" and "dp_inv V opens d" and "writer_run L config es d = Some d'"
  shows "dp_inv V opens d'"
  using assms(2,3)
  by (induction es arbitrary: d) (auto split: option.splits intro: writer_exec_inv [OF assms(1)])

section \<open>Wakers\<close>

text \<open>What the writer may have done to a ring: nothing the producer waits for, or the producer has been
  woken.\<close>

definition ring_rely :: "('r, 'c) rb_view \<Rightarrow> 'r \<Rightarrow> 'r \<Rightarrow> bool" where
  "ring_rely V r r' \<longleftrightarrow>
     waker_kept V r r' \<and> items V r' = items V r \<and> cons_gone V r' = cons_gone V r \<or> wakes_producer V r r'"

lemma ring_rely_refl [simp]: "ring_rely V r r"
  by (simp add: ring_rely_def waker_kept_def)

lemma wakes_producer_trans:
  "wakes_producer V a b \<Longrightarrow> ring_rely V b c \<Longrightarrow> wakes_producer V a c"
  by (auto simp: wakes_producer_def ring_rely_def waker_kept_def)

lemma ring_rely_trans: "ring_rely V a b \<Longrightarrow> ring_rely V b c \<Longrightarrow> ring_rely V a c"
  using wakes_producer_trans [of V a b c]
  by (auto simp: ring_rely_def waker_kept_def wakes_producer_def)

lemma drop_cons_at_rely:
  assumes "rb_laws L V" and "j < length rs"
  shows "ring_rely V (rs ! j) (drop_cons_at L is rs ! j)"
  using assms(2)
proof (induction "is" arbitrary: rs)
  case (Cons i "is")
  have "ring_rely V (rs ! j) (rs[i := rb_drop_cons L (rs ! i)] ! j)"
    using drop_cons_law(5) [OF assms(1)] Cons.prems by (cases "i = j") (simp_all add: drop_cons_at_step, simp add: ring_rely_def)
  moreover have "ring_rely V (rs[i := rb_drop_cons L (rs ! i)] ! j) (drop_cons_at L (i # is) rs ! j)"
    using Cons.IH [of "rs[i := rb_drop_cons L (rs ! i)]"] Cons.prems by (simp add: drop_cons_at_def)
  ultimately show ?case by (rule ring_rely_trans)
qed (simp add: drop_cons_at_def)

lemma flush_wrote_rely:
  assumes "rb_laws L V" and "dp_inv V opens d" and "w_pc d = W_write i left final"
    and "flush_wrote L i left final n d = Some d'" and "j < length (rings d)"
  shows "ring_rely V (rings d ! j) (rings d' ! j)"
proof (cases "j = i")
  case True
  from assms(2,3) obtain rest where "items V (rings d ! i) = left @ rest" by (auto simp: dp_inv_def pc_inv_def)
  moreover have n: "n \<le> length left" "rings d' ! i = rb_advance_read_index L (rings d ! i) n"
    using assms(4,5) True by (auto simp: flush_wrote_def split: if_splits)
  ultimately show ?thesis
    using True advance_law [OF assms(1), of n "rings d ! i"] by (auto simp: ring_rely_def)
qed (use assms(4) in \<open>auto simp: flush_wrote_def split: if_splits\<close>)

lemma writer_exec_rely:
  assumes "rb_laws L V" and "dp_inv V opens d" and "writer_exec L config e d = Some d'" and "j < length (rings d)"
  shows "ring_rely V (rings d ! j) (rings d' ! j)"
proof (cases "\<exists>n. e = Ev_wrote n")
  case True
  with assms show ?thesis by (auto split: w_pc.splits intro: flush_wrote_rely)
next
  case False
  have "rings (recv_poll L d) = rings d" "rings (auto_loop_poll L i t d) = rings d"
    "rings (no_auto_loop_poll L i d) = rings d" "auto_loop_tick L i t d = Some d' \<Longrightarrow> rings d' = rings d" for i t
    by (auto simp: recv_poll_def auto_loop_poll_def no_auto_loop_poll_def auto_loop_tick_def Let_def
        split: prod.splits poll.splits option.splits if_splits)
  moreover have "ring_rely V (rings d ! j) (rings (flush_round L auto i final d) ! j)" for auto i final
    using drop_cons_at_rely [OF assms(1,4)] by (simp add: flush_round_def split: prod.splits)
  moreover have "ring_rely V (rings d ! j) (rings (writer_exit L pc d) ! j)" for pc
    using drop_cons_at_rely [OF assms(1,4)] by (simp add: writer_exit_def split: prod.splits)
  ultimately show ?thesis
    using False assms(3) by (cases e) (auto split: w_pc.splits if_splits)
qed

lemma writer_run_rely:
  assumes "rb_laws L V" and "dp_inv V opens d" and "writer_run L config es d = Some d'" and "j < length (rings d)"
  shows "ring_rely V (rings d ! j) (rings d' ! j)"
  using assms(2-4)
proof (induction es arbitrary: d)
  case (Cons e es)
  then obtain d1 where e: "writer_exec L config e d = Some d1" and es: "writer_run L config es d1 = Some d'"
    by (auto split: option.splits)
  have "ring_rely V (rings d1 ! j) (rings d' ! j)"
    using writer_exec_inv [OF assms(1) Cons.prems(1) e] es Cons.prems(3) writer_exec_frame [OF e]
    by (intro Cons.IH) auto
  with writer_exec_rely [OF assms(1) Cons.prems(1) e Cons.prems(3)] show ?case by (rule ring_rely_trans)
qed simp

section \<open>Methods of the sender\<close>

text \<open>The writer may run any number of steps between two calls of the sender.\<close>

definition writer_env :: "('r, 'c) rb_lib \<Rightarrow> conn_config \<Rightarrow> (('r, 'c) dp \<Rightarrow> ('r, 'c) dp) \<Rightarrow> bool" where
  "writer_env L config env \<longleftrightarrow> (\<forall>d. \<exists>es. writer_run L config es d = Some (env d))"

lemma writer_env_inv:
  "rb_laws L V \<Longrightarrow> writer_env L config env \<Longrightarrow> dp_inv V opens d \<Longrightarrow> dp_inv V opens (env d)"
  unfolding writer_env_def by (blast intro: writer_run_inv)

lemma writer_env_frame: "writer_env L config env \<Longrightarrow> sender_frame env"
  unfolding writer_env_def sender_frame_def using writer_run_frame by blast

text \<open>Appending bytes to the one open ring appends them to the stream.\<close>

lemma dp_inv_append:
  assumes inv: "dp_inv V [i] d" and r: "items V r = items V (rings d ! i) @ bs"
    "cap V r = cap V (rings d ! i)" "\<not> prod_gone V r" "length (items V r) \<le> cap V r"
  shows "dp_inv V [i] ((set_ring i r d)\<lparr>sent := sent d @ bs\<rparr>)" (is "dp_inv V [i] ?d")
proof -
  from inv have i: "i < length (rings d)" "\<not> prod_gone V (rings d ! i)" "\<not> tx_gone V (chan d)"
    and rok: "rings_ok V d" and pcs: "pc_inv V [i] d"
    by (auto simp: dp_inv_def)
  have view: "rings (set_ring i r d) ! j = (if j = i then r else rings d ! j)" for j
    using i(1) by (simp add: set_ring_def)
  have same: "pend V ?d = pend V d" "w_pc ?d = w_pc d" "chan ?d = chan d" "out ?d = out d"
    "sent ?d = sent d @ bs" "length (rings ?d) = length (rings d)"
    by (simp_all add: set_ring_def pend_def)
  have "rings_ok V ?d" using rok r view same(6) by (simp add: rings_ok_def)
  moreover have "pc_inv V [i] ?d"
    using pcs view i r by (auto simp: pc_inv_def same split: w_pc.splits sum.splits)
  moreover have "chain_ok V [i] ?d" if live: "chain_ok V [i] d"
  proof -
    from live obtain closed where c: "pend V d = closed @ [i]" "\<forall>j \<in> set closed. prod_gone V (rings d ! j)"
      and dist: "i \<notin> set closed" by (auto simp: chain_ok_def)
    have "concat (map (\<lambda>j. items V (rings ?d ! j)) closed) = concat (map (\<lambda>j. items V (rings d ! j)) closed)"
      using dist view by (intro concat_map_cong) auto
    then have "in_flight V ?d = in_flight V d @ bs"
      using c(1) r(1) by (simp add: in_flight_def same view)
    with live c dist view show ?thesis by (auto simp: chain_ok_def same)
  qed
  ultimately show ?thesis
    using inv r(3) i view by (auto simp: dp_inv_def same)
qed

lemma push_ring_inv:
  assumes "rb_laws L V" and "writer_env L config env" and "dp_inv V [i] d"
    and "push_ring L env i bs d = (n, d')"
  shows "dp_inv V [i] d'"
proof -
  obtain r where ps: "rb_push_slice L (rings (env d) ! i) bs = (n, r)"
    and d': "d' = (set_ring i r (env d))\<lparr>sent := sent (env d) @ take n bs\<rparr>"
    using assms(4) by (auto simp: push_ring_def Let_def split: prod.splits)
  note inv = writer_env_inv [OF assms(1-3)] and law = push_slice_law [OF assms(1) ps]
  from inv have "\<not> prod_gone V (rings (env d) ! i)"
    "length (items V (rings (env d) ! i)) \<le> cap V (rings (env d) ! i)"
    by (auto simp: dp_inv_def rings_ok_def)
  with law show ?thesis unfolding d' by (intro dp_inv_append [OF inv]) (auto simp: min_def)
qed

lemma burst_write_inv:
  assumes "rb_laws L V" and "writer_env L config env" and "dp_inv V [i] d"
    and "burst_write L env offset i bytes d = (res, offset', d')"
  shows "dp_inv V [i] d'"
  by (rule burst_write_rule [where P = "dp_inv V [i]", OF _ assms(4,3)])
    (rule push_ring_inv [OF assms(1,2)])

text \<open>Opening a second ring, and dropping the producer half of the first of them.\<close>

lemma dp_inv_open:
  assumes "rb_laws L V" and inv: "dp_inv V [i] d" and "ch_send L (chan d) (length (rings d)) = Inr c"
    and r: "items V r = bs" "RING_BUFFER_SIZE \<le> cap V r" "length bs \<le> cap V r" "\<not> prod_gone V r"
  shows "dp_inv V [i, length (rings d)] (d\<lparr>rings := rings d @ [r], chan := c, clock := k, sent := sent d @ bs\<rparr>)"
    (is "dp_inv V ?opens ?d")
proof -
  note law = chan_law [OF assms(1)]
  have c: "queued V c = queued V (chan d) @ [length (rings d)]" "tx_gone V c = tx_gone V (chan d)"
    "rx_gone V c = rx_gone V (chan d)" "\<not> rx_gone V (chan d)"
    using assms(3) law(5-8) by (metis Inl_Inr_False)+
  then have live: "writer_live (w_pc d)" and chain: "chain_ok V [i] d"
    using inv by (auto simp: dp_inv_def split: if_splits)
  from inv have i: "i < length (rings d)" "\<not> prod_gone V (rings d ! i)" "\<not> tx_gone V (chan d)"
    by (auto simp: dp_inv_def)
  have pend: "pend V ?d = pend V d @ [length (rings d)]" using c(1) by (simp add: pend_def)
  have "concat (map (\<lambda>j. items V ((rings d @ [r]) ! j)) (pend V d)) = in_flight V d"
    unfolding in_flight_def using chain by (intro concat_map_cong) (simp add: chain_ok_def nth_append)
  then have flight: "in_flight V ?d = in_flight V d @ bs"
    using r(1) by (simp add: in_flight_def pend)
  from chain obtain closed where closed: "pend V d = closed @ [i]"
    "\<forall>j \<in> set closed. prod_gone V (rings d ! j)" "\<forall>j \<in> set closed. j < length (rings d)"
    by (auto simp: chain_ok_def)
  have "chain_ok V ?opens ?d"
    using chain flight pend closed c
    by (auto simp: chain_ok_def nth_append intro!: exI [of _ closed])
  moreover have "rings_ok V ?d"
    using inv r by (auto simp: dp_inv_def rings_ok_def nth_append less_Suc_eq)
  moreover have "pc_inv V ?opens ?d"
    using inv live chain i(3) c by (auto simp: dp_inv_def pc_inv_def chain_ok_def pend_def nth_append
        split: w_pc.splits)
  ultimately show ?thesis using live i r(4) c by (simp add: dp_inv_def nth_append)
qed

lemma dp_inv_close:
  assumes "rb_laws L V" and inv: "dp_inv V (i # opens) d"
  shows "dp_inv V opens (set_ring i (rb_drop_prod L (rings d ! i)) d)" (is "dp_inv V opens ?d")
proof -
  note law = rb_flags_law [OF assms(1)]
  from inv have i: "i < length (rings d)" "\<not> tx_gone V (chan d)" by (auto simp: dp_inv_def)
  have view: "rings ?d ! j = (if j = i then rb_drop_prod L (rings d ! i) else rings d ! j)" for j
    using i(1) by (simp add: set_ring_def)
  have items: "items V (rings ?d ! j) = items V (rings d ! j)" "cap V (rings ?d ! j) = cap V (rings d ! j)"
    "prod_gone V (rings d ! j) \<Longrightarrow> prod_gone V (rings ?d ! j)" for j
    using law by (simp_all add: view)
  have same: "pend V ?d = pend V d" "w_pc ?d = w_pc d" "chan ?d = chan d" "out ?d = out d"
    "sent ?d = sent d" "length (rings ?d) = length (rings d)"
    by (simp_all add: set_ring_def pend_def)
  have flight: "in_flight V ?d = in_flight V d" by (simp add: in_flight_def same items)
  have "chain_ok V opens ?d" if live: "chain_ok V (i # opens) d"
  proof -
    from live obtain closed where c: "pend V d = closed @ i # opens" "\<forall>j \<in> set closed. prod_gone V (rings d ! j)"
      by (auto simp: chain_ok_def)
    have "\<forall>j \<in> set (closed @ [i]). prod_gone V (rings ?d ! j)" using c items(3) law(9) view by auto
    with live c flight show ?thesis
      by (auto simp: chain_ok_def same intro!: exI [of _ "closed @ [i]"])
  qed
  moreover have "rings_ok V ?d" using inv by (simp add: dp_inv_def rings_ok_def same items)
  moreover have "pc_inv V opens ?d"
    using inv items by (auto simp: dp_inv_def pc_inv_def same split: w_pc.splits sum.splits)
  ultimately show ?thesis using inv i by (auto simp: dp_inv_def same view)
qed

lemma send_ring_inv:
  assumes "rb_laws L V" and "writer_env L config env" and "dp_inv V [ring_buf s] d"
    and r: "items V r = bs" "RING_BUFFER_SIZE \<le> cap V r" "length bs \<le> cap V r" "\<not> prod_gone V r"
    and "send_ring L env r bs s d = (res, s', d')"
  shows "dp_inv V [ring_buf s'] d'"
proof -
  note inv = writer_env_inv [OF assms(1,2)]
  show ?thesis
  proof (cases "ch_send L (chan (env d)) (length (rings (env d)))")
    case (Inl e)
    with inv [OF assms(3)] assms(8) show ?thesis by (auto simp: send_ring_def Let_def)
  next
    case (Inr c)
    let ?d1 = "(env d)\<lparr>rings := rings (env d) @ [r], chan := c, clock := Suc (clock (env d)),
        sent := sent (env d) @ bs\<rparr>"
    have "dp_inv V [ring_buf s, length (rings (env d))] ?d1"
      by (rule dp_inv_open [OF assms(1) inv [OF assms(3)] Inr r])
    from dp_inv_close [OF assms(1) inv [OF this]] Inr assms(8) show ?thesis
      by (auto simp: send_ring_def Let_def)
  qed
qed

lemma send_nonblock_inv:
  assumes "rb_laws L V" and "writer_env L config env" and "dp_inv V [ring_buf s] d"
    and "send_nonblock L env bytes s d = (res, s', d')"
  shows "dp_inv V [ring_buf s'] d'"
proof (cases "bytes = []")
  case True
  with assms(3,4) show ?thesis by (simp add: send_nonblock_def)
next
  case False
  obtain r off d1 where bw: "burst_write L env 0 (ring_buf s) bytes d = (r, off, d1)"
    by (cases "burst_write L env 0 (ring_buf s) bytes d") auto
  note inv = burst_write_inv [OF assms(1-3) bw]
  show ?thesis
  proof (cases "r = Val Burst_pending")
    case no: False
    then show ?thesis
      using False bw inv assms(4)
      by (auto simp: send_nonblock_def split: outcome.splits burst_write_state.splits)
  next
    case True
    obtain n ring where ring: "rb_push_slice L (rb_new L (max RING_BUFFER_SIZE (length (drop off bytes))))
        (drop off bytes) = (n, ring)" by fastforce
    note new = new_ring_takes_all [OF assms(1) ring]
    obtain r2 s2 d2 where sr: "send_ring L env ring (drop off bytes) s d1 = (r2, s2, d2)"
      by (cases "send_ring L env ring (drop off bytes) s d1") auto
    have "dp_inv V [ring_buf s2] d2"
      by (rule send_ring_inv [OF assms(1,2) inv _ _ _ _ sr]) (use new in auto)
    moreover have "s' = s2" "d' = d2"
      using assms(4) False bw True ring new(1) sr by (auto simp: send_nonblock_def Let_def)
    ultimately show ?thesis by simp
  qed
qed

lemma sender_flush_inv:
  assumes "rb_laws L V" and "writer_env L config env" and "dp_inv V [ring_buf s] d"
    and "sender_flush L env s d = (res, s', d')"
  shows "dp_inv V [ring_buf s'] d'"
  by (rule send_ring_inv [OF assms(1-3) _ _ _ _ assms(4) [unfolded sender_flush_def]])
    (simp_all add: rb_new_law [OF assms(1)])

lemma dp_inv_set_same:
  assumes "dp_inv V [i] d" and "items V r = items V (rings d ! i)" "cap V r = cap V (rings d ! i)"
    "\<not> prod_gone V r"
  shows "dp_inv V [i] (set_ring i r d)"
proof -
  have "length (items V r) \<le> cap V r" using assms by (auto simp: dp_inv_def rings_ok_def)
  with dp_inv_append [OF assms(1), of r "[]"] assms show ?thesis by (simp add: set_ring_def)
qed

lemma send_async_loop_inv:
  assumes "rb_laws L V" and "writer_env L config env" and "dp_inv V [ring_buf s] d"
    and "send_async_loop L env waker bytes reg offset s d = (res, d')"
  shows "dp_inv V [ring_buf s] d'"
  using assms(3,4)
proof (induction "if reg then 0 else 1 :: nat" arbitrary: reg offset d rule: less_induct)
  case less
  note inv = writer_env_inv [OF assms(1,2)]
  let ?i = "ring_buf s" and ?d0 = "env d"
  note eq = less.prems(2) [unfolded send_async_loop.simps [of L env waker bytes reg offset s d] Let_def]
  obtain r off d1 where bw: "burst_write L env offset ?i bytes ?d0 = (r, off, d1)"
    by (cases "burst_write L env offset ?i bytes ?d0") auto
  note inv0 = inv [OF less.prems(1)]
  note inv1 = burst_write_inv [OF assms(1,2) inv0 bw]
  let ?d2 = "env d1"
  let ?d3 = "set_ring ?i (rb_register_waker L (rings ?d2 ! ?i) waker) ?d2"
  have inv3: "dp_inv V [?i] ?d3"
    using inv [OF inv1] rb_flags_law [OF assms(1)]
    by (intro dp_inv_set_same) (auto simp: dp_inv_def)
  have "dp_inv V [?i] d'" if "\<not> reg" "send_async_loop L env waker bytes True off s ?d3 = (res, d')"
    using less.hyps [of True ?d3 off] that inv3 by simp
  with eq bw inv0 inv1 show ?case by (auto split: if_splits outcome.splits)
qed

lemma send_async_inv:
  assumes "rb_laws L V" and "writer_env L config env" and "dp_inv V [ring_buf s] d"
    and "send_async L env bytes waker s d = (res, d')"
  shows "dp_inv V [ring_buf s] d'"
  using assms send_async_loop_inv [OF assms(1-3)] by (auto simp: send_async_def split: if_splits)

text \<open>A waker that the call has registered stays registered or is woken; \<open>woken_since\<close> counts from the
  start of the call.\<close>

definition woken_since :: "('r, 'c) rb_view \<Rightarrow> raw_waker \<Rightarrow> 'r \<Rightarrow> 'r \<Rightarrow> bool" where
  "woken_since V k r r' \<longleftrightarrow> (\<exists>ks. wakes V r' = wakes V r @ ks \<and> k \<in> set ks)"

definition wakes_grow :: "('r, 'c) rb_view \<Rightarrow> 'r \<Rightarrow> 'r \<Rightarrow> bool" where
  "wakes_grow V r r' \<longleftrightarrow> (\<exists>ks. wakes V r' = wakes V r @ ks)"

lemma ring_rely_grow: "ring_rely V r r' \<Longrightarrow> wakes_grow V r r'"
  by (auto simp: ring_rely_def waker_kept_def wakes_producer_def wakes_grow_def)

lemma waker_kept_grow: "waker_kept V r r' \<Longrightarrow> wakes_grow V r r'"
  by (simp add: waker_kept_def wakes_grow_def)

lemma wakes_grow_trans: "wakes_grow V a b \<Longrightarrow> wakes_grow V b c \<Longrightarrow> wakes_grow V a c"
  by (auto simp: wakes_grow_def)

lemma woken_grow: "woken_since V k a b \<Longrightarrow> wakes_grow V b c \<Longrightarrow> woken_since V k a c"
  "wakes_grow V a b \<Longrightarrow> woken_since V k b c \<Longrightarrow> woken_since V k a c"
  by (auto simp: woken_since_def wakes_grow_def)

text \<open>The waker \<open>k\<close> of the producer waits in the ring, or was woken since the ring was \<open>r0\<close>.\<close>

definition waits_or_woken :: "('r, 'c) rb_view \<Rightarrow> raw_waker \<Rightarrow> 'r \<Rightarrow> 'r \<Rightarrow> bool" where
  "waits_or_woken V k r0 r \<longleftrightarrow> wakes_grow V r0 r \<and> (prod_waker V r = Some k \<or> woken_since V k r0 r)"

lemma waits_rely: "waits_or_woken V k r0 r \<Longrightarrow> ring_rely V r r' \<Longrightarrow> waits_or_woken V k r0 r'"
  by (auto simp: waits_or_woken_def woken_since_def wakes_grow_def ring_rely_def waker_kept_def wakes_producer_def)

lemma waits_kept: "waits_or_woken V k r0 r \<Longrightarrow> waker_kept V r r' \<Longrightarrow> waits_or_woken V k r0 r'"
  by (auto simp: waits_or_woken_def woken_since_def wakes_grow_def waker_kept_def)

lemma waits_rely_cases:
  "waits_or_woken V k r0 r \<Longrightarrow> ring_rely V r r' \<Longrightarrow>
    woken_since V k r0 r' \<or> prod_waker V r' = Some k \<and> items V r' = items V r \<and> cons_gone V r' = cons_gone V r"
  by (auto simp: waits_or_woken_def woken_since_def wakes_grow_def ring_rely_def waker_kept_def wakes_producer_def)

lemma writer_env_rely:
  assumes "rb_laws L V" and "writer_env L config env" and "dp_inv V opens d" and "j < length (rings d)"
  shows "ring_rely V (rings d ! j) (rings (env d) ! j)"
  using assms writer_run_rely [OF assms(1,3)] unfolding writer_env_def by blast

text \<open>A relation to the ring at the start that the writer and a push keep, is kept by a burst.\<close>

lemma burst_write_waker:
  assumes "rb_laws L V" and "writer_env L config env" and "dp_inv V [i] d"
    and "burst_write L env off i bytes d = (r, off', d')" and "Q (rings d ! i)"
    and "\<And>x y. Q x \<Longrightarrow> ring_rely V x y \<Longrightarrow> Q y" and "\<And>x y. Q x \<Longrightarrow> waker_kept V x y \<Longrightarrow> Q y"
  shows "Q (rings d' ! i)"
proof -
  let ?P = "\<lambda>d. dp_inv V [i] d \<and> Q (rings d ! i)"
  have "?P d'"
  proof (rule burst_write_rule [where P = ?P, OF _ assms(4)])
    fix w bs n w'
    assume P: "?P w" and push: "push_ring L env i bs w = (n, w')"
    then have i: "i < length (rings w)" by (simp add: dp_inv_def)
    have "Q (rings (env w) ! i)" by (rule assms(6) [OF conjunct2 [OF P] writer_env_rely [OF assms(1,2) conjunct1 [OF P] i]])
    moreover obtain x where x: "rb_push_slice L (rings (env w) ! i) bs = (n, x)"
      "w' = (set_ring i x (env w))\<lparr>sent := sent (env w) @ take n bs\<rparr>"
      using push by (auto simp: push_ring_def Let_def split: prod.splits)
    moreover have "rings w' ! i = x"
      using i sender_frameD(1) [OF writer_env_frame [OF assms(2)]] by (simp add: x(2) set_ring_def)
    ultimately have "Q (rings w' ! i)" using assms(7) [OF _ push_slice_law(6) [OF assms(1) x(1)]] by simp
    with push_ring_inv [OF assms(1,2) _ push] P show "?P w'" by blast
  qed (use assms(3,5) in simp)
  then show ?thesis ..
qed

lemma send_async_loop_waker:
  assumes "rb_laws L V" and "writer_env L config env" and "dp_inv V [ring_buf s] d"
    and "send_async_loop L env waker bytes reg offset s d = (Val Pending, d')"
    and "wakes_grow V r0 (rings d ! ring_buf s)" and "reg \<Longrightarrow> waits_or_woken V waker r0 (rings d ! ring_buf s)"
  shows "waits_or_woken V waker r0 (rings d' ! ring_buf s)"
  using assms(3-6)
proof (induction "if reg then 0 else 1 :: nat" arbitrary: reg offset d rule: less_induct)
  case less
  let ?i = "ring_buf s" and ?d0 = "env d"
  note inv = writer_env_inv [OF assms(1,2)] and rely = writer_env_rely [OF assms(1,2)]
  note eq = less.prems(2) [unfolded send_async_loop.simps [of L env waker bytes reg offset s d] Let_def]
  obtain r off d1 where bw: "burst_write L env offset ?i bytes ?d0 = (r, off, d1)"
    by (cases "burst_write L env offset ?i bytes ?d0") auto
  note inv0 = inv [OF less.prems(1)] and inv1 = burst_write_inv [OF assms(1,2) inv [OF less.prems(1)] bw]
  have i: "?i < length (rings d)" "?i < length (rings d1)" using less.prems(1) inv1 by (simp_all add: dp_inv_def)
  note burst = burst_write_waker [OF assms(1,2) inv0 bw]
  have "waits_or_woken V waker r0 (rings d' ! ?i)" if "\<not> reg"
  proof -
    let ?d2 = "env d1"
    let ?d3 = "set_ring ?i (rb_register_waker L (rings ?d2 ! ?i) waker) ?d2"
    have "wakes_grow V r0 (rings ?d0 ! ?i)"
      by (rule wakes_grow_trans [OF less.prems(3) ring_rely_grow [OF rely [OF less.prems(1) i(1)]]])
    then have "wakes_grow V r0 (rings d1 ! ?i)"
      by (rule burst) (auto intro: wakes_grow_trans ring_rely_grow waker_kept_grow)
    then have g2: "wakes_grow V r0 (rings ?d2 ! ?i)"
      by (rule wakes_grow_trans [OF _ ring_rely_grow [OF rely [OF inv1 i(2)]]])
    have i2: "?i < length (rings ?d2)" using inv [OF inv1] by (simp add: dp_inv_def)
    have "dp_inv V [?i] ?d3"
      using inv [OF inv1] rb_flags_law [OF assms(1)] by (intro dp_inv_set_same) (auto simp: dp_inv_def)
    moreover have "waits_or_woken V waker r0 (rings ?d3 ! ?i)"
      using g2 i2 rb_flags_law [OF assms(1)] by (simp add: waits_or_woken_def wakes_grow_def set_ring_def)
    moreover have "send_async_loop L env waker bytes True off s ?d3 = (Val Pending, d')"
      using eq bw that by (auto split: if_splits outcome.splits)
    ultimately show ?thesis using less.hyps [of True ?d3 off] that by (simp add: waits_or_woken_def)
  qed
  moreover have "waits_or_woken V waker r0 (rings d' ! ?i)" if reg
  proof -
    have "waits_or_woken V waker r0 (rings d1 ! ?i)"
      by (rule burst [where Q = "waits_or_woken V waker r0"])
        (use waits_rely [OF less.prems(4) [OF that] rely [OF less.prems(1) i(1)]] in \<open>auto intro: waits_rely waits_kept\<close>)
    moreover have "d' = d1" using eq bw that by (auto split: if_splits outcome.splits)
    ultimately show ?thesis by simp
  qed
  ultimately show ?case by blast
qed

lemma send_async_waker:
  assumes "rb_laws L V" and "writer_env L config env" and "dp_inv V [ring_buf s] d"
    and "send_async L env bytes waker s d = (Val Pending, d')"
  shows "waits_or_woken V waker (rings d ! ring_buf s) (rings d' ! ring_buf s)"
  using send_async_loop_waker [OF assms(1-3), of waker bytes False 0 d'] assms(4)
  by (simp add: send_async_def wakes_grow_def split: if_splits)

lemma write_all_future_inv:
  assumes "rb_laws L V" and "writer_env L config env" and "dp_inv V [ring_buf s] d"
    and "write_all_future L env waker bytes fuel offset s d = Some (res, d')"
  shows "dp_inv V [ring_buf s] d'"
  using assms(3,4)
proof (induction fuel arbitrary: offset d)
  case (Suc fuel)
  let ?i = "ring_buf s"
  note inv = writer_env_inv [OF assms(1,2) Suc.prems(1)]
  obtain pres r where pw: "rb_poll_write L (rings (env d) ! ?i) waker (drop offset bytes) = (pres, r)"
    by fastforce
  note law = poll_write_law [OF assms(1) pw]
  have same: "dp_inv V [?i] (set_ring ?i r (env d))" if "\<forall>n. pres \<noteq> Ready (Inr n)"
    using inv law(1,2) law(5) [OF that] by (intro dp_inv_set_same) (auto simp: dp_inv_def)
  have more: "dp_inv V [?i] ((set_ring ?i r (env d))\<lparr>sent := sent (env d) @ take n (drop offset bytes)\<rparr>)"
    if "pres = Ready (Inr n)" for n
    using inv law(1,2) law(4) [OF that]
    by (intro dp_inv_append [OF inv]) (auto simp: dp_inv_def rings_ok_def)
  show ?case
    using Suc.prems inv pw same more Suc.IH
    by (auto simp: Let_def split: if_splits poll.splits sum.splits)
qed simp

lemma send_block_inv:
  assumes "rb_laws L V" and "writer_env L config env" and "dp_inv V [ring_buf s] d"
    and "send_block L env in_async fuel bytes waker s d = Some (res, d')"
  shows "dp_inv V [ring_buf s] d'"
proof (cases "bytes = []")
  case True
  with assms(3,4) show ?thesis by (simp add: send_block_def)
next
  case False
  obtain r off d1 where bw: "burst_write L env 0 (ring_buf s) bytes d = (r, off, d1)"
    by (cases "burst_write L env 0 (ring_buf s) bytes d") auto
  note inv = burst_write_inv [OF assms(1-3) bw]
  from assms(4) False bw inv show ?thesis
    by (auto simp: send_block_def split: outcome.splits burst_write_state.splits if_splits
        dest: write_all_future_inv [OF assms(1,2)])
qed

lemma dp_inv_drop_tx:
  assumes "rb_laws L V" and "dp_inv V [] d"
  shows "dp_inv V [] (d\<lparr>chan := ch_drop_tx L (chan d)\<rparr>)"
  using assms(2) chan_law(9-11) [OF assms(1)]
  by (auto simp: dp_inv_defs pend_def in_flight_def split: w_pc.splits sum.splits)

lemma drop_sender_inv:
  assumes "rb_laws L V" and "writer_env L config env" and "dp_inv V [ring_buf s] d"
  shows "dp_inv V [] (drop_sender L env s d)" and "tx_gone V (chan (drop_sender L env s d))"
proof -
  note inv = writer_env_inv [OF assms(1,2)] and law = chan_law(9-11) [OF assms(1)]
  let ?d1 = "env (set_ring (ring_buf s) (rb_drop_prod L (rings (env d) ! ring_buf s)) (env d))"
  have "dp_inv V [] ?d1"
    by (rule inv [OF dp_inv_close [OF assms(1) inv [OF assms(3)]]])
  from dp_inv_drop_tx [OF assms(1) this] show "dp_inv V [] (drop_sender L env s d)"
    by (simp add: drop_sender_def Let_def)
  show "tx_gone V (chan (drop_sender L env s d))"
    using law by (simp add: drop_sender_def Let_def)
qed

end
