(* ===== verification/Data_System.thy ===== *)
theory Data_System
  imports Data_Path
begin

text \<open>
  Sender and writer of one connection as a transition system, and its end-to-end properties.

  A state is the sender (until it is dropped) and the shared state.  A step is an event of the writer,
  a method call of the user on the sender, or the drop of the sender; during a call the writer may
  take any number of steps between two library calls.
\<close>

section \<open>The transition system\<close>

datatype sender_call =
    Call_send_block bool nat "byte list" raw_waker
  | Call_send_nonblock "byte list"
  | Call_send_async "byte list" raw_waker
  | Call_flush

text \<open>The effect of a call on the sender and the state; \<open>None\<close> if a blocking send is not done within its
  fuel.\<close>

fun exec_call ::
  "('r, 'c) rb_lib \<Rightarrow> (('r, 'c) dp \<Rightarrow> ('r, 'c) dp) \<Rightarrow> sender_call \<Rightarrow> msg_sender \<Rightarrow> ('r, 'c) dp \<Rightarrow>
     (msg_sender \<times> ('r, 'c) dp) option" where
  "exec_call L env (Call_send_block in_async fuel bytes waker) s d =
     map_option (\<lambda>(_, d'). (s, d')) (send_block L env in_async fuel bytes waker s d)"
| "exec_call L env (Call_send_nonblock bytes) s d = Some (snd (send_nonblock L env bytes s d))"
| "exec_call L env (Call_send_async bytes waker) s d = Some (s, snd (send_async L env bytes waker s d))"
| "exec_call L env Call_flush s d = Some (snd (sender_flush L env s d))"

text \<open>The state of a new connection whose writer has been spawned.\<close>

definition dp_init :: "('r, 'c) rb_lib \<Rightarrow> msg_sender option \<times> ('r, 'c) dp \<Rightarrow> bool" where
  "dp_init L st \<longleftrightarrow>
     (\<exists>s w. make_sender L = Val (s, w) \<and> st = (Some s, world.extend w \<lparr>w_pc = W_recv, out = []\<rparr>))"

inductive dp_step ::
  "('r, 'c) rb_lib \<Rightarrow> conn_config \<Rightarrow> msg_sender option \<times> ('r, 'c) dp \<Rightarrow>
     msg_sender option \<times> ('r, 'c) dp \<Rightarrow> bool"
  for L :: "('r, 'c) rb_lib" and config :: conn_config where
  step_writer: "writer_exec L config e d = Some d' \<Longrightarrow> dp_step L config (s, d) (s, d')"
| step_call: "writer_env L config env \<Longrightarrow> exec_call L env c s d = Some (s', d') \<Longrightarrow>
    dp_step L config (Some s, d) (Some s', d')"
| step_drop: "writer_env L config env \<Longrightarrow> dp_step L config (Some s, d) (None, drop_sender L env s d)"

inductive_cases dp_stepE: "dp_step L config st st'"

abbreviation dp_reach ::
  "('r, 'c) rb_lib \<Rightarrow> conn_config \<Rightarrow> msg_sender option \<times> ('r, 'c) dp \<Rightarrow> bool" where
  "dp_reach L config \<equiv> reach (dp_init L) (dp_step L config)"

section \<open>The contract of a sender method\<close>

text \<open>Every method of the sender keeps the invariant, with the ring it leaves the sender on.  The
  client's view: what the socket has accepted stays the front of what was handed over.\<close>

locale sender_method =
  fixes run :: "('r, 'c) rb_lib \<Rightarrow> (('r, 'c) dp \<Rightarrow> ('r, 'c) dp) \<Rightarrow> msg_sender \<Rightarrow> ('r, 'c) dp \<Rightarrow>
    (msg_sender \<times> ('r, 'c) dp) option"
  assumes keeps: "rb_laws L V \<Longrightarrow> writer_env L config env \<Longrightarrow> dp_inv V [ring_buf s] d \<Longrightarrow>
    run L env s d = Some (s', d') \<Longrightarrow> dp_inv V [ring_buf s'] d'"
begin

lemma run_in_order:
  assumes "rb_laws L V" and "writer_env L config env" and "dp_inv V [ring_buf s] d"
    and "run L env s d = Some (s', d')"
  shows "\<exists>rest. sent d' = out d' @ rest"
  by (rule dp_inv_in_order [OF keeps [OF assms]])

lemma run_keeps_env:
  assumes "rb_laws L V" and "writer_env L config env" and "dp_inv V [ring_buf s] d"
    and "run L env s d = Some (s', d')"
  shows "dp_inv V [ring_buf s'] (env d')"
  using writer_env_inv [OF assms(1,2) keeps [OF assms]] .

end

interpretation block_method:
  sender_method "\<lambda>L env s d. map_option (\<lambda>(_, d'). (s, d')) (send_block L env in_async fuel bytes waker s d)"
  for in_async fuel bytes waker
  by unfold_locales (auto intro: send_block_inv)

interpretation nonblock_method:
  sender_method "\<lambda>L env s d. Some (snd (send_nonblock L env bytes s d))" for bytes
  by unfold_locales (metis option.inject prod.collapse send_nonblock_inv)

interpretation async_method:
  sender_method "\<lambda>L env s d. Some (s, snd (send_async L env bytes waker s d))" for bytes waker
  by unfold_locales (metis option.inject prod.collapse prod.inject send_async_inv)

interpretation flush_method:
  sender_method "\<lambda>L env s d. Some (snd (sender_flush L env s d))"
  by unfold_locales (metis option.inject prod.collapse sender_flush_inv)

section \<open>Reachable states\<close>

definition opens_of :: "msg_sender option \<Rightarrow> nat list" where
  "opens_of s = (case s of None \<Rightarrow> [] | Some s \<Rightarrow> [ring_buf s])"

definition sys_inv :: "('r, 'c) rb_view \<Rightarrow> msg_sender option \<times> ('r, 'c) dp \<Rightarrow> bool" where
  "sys_inv V st \<longleftrightarrow> dp_inv V (opens_of (fst st)) (snd st) \<and>
     (fst st = None \<longrightarrow> tx_gone V (chan (snd st)))"

lemma exec_call_inv:
  assumes "rb_laws L V" and "writer_env L config env" and "dp_inv V [ring_buf s] d"
    and "exec_call L env c s d = Some (s', d')"
  shows "dp_inv V [ring_buf s'] d'"
proof (cases c)
  case (Call_send_block in_async fuel bytes waker)
  with assms(4) show ?thesis by (intro block_method.keeps [OF assms(1-3), of in_async fuel bytes waker]) auto
next
  case (Call_send_nonblock bytes)
  with assms(4) show ?thesis by (intro nonblock_method.keeps [OF assms(1-3), of bytes]) simp
next
  case (Call_send_async bytes waker)
  with assms(4) show ?thesis by (intro async_method.keeps [OF assms(1-3), of bytes waker]) auto
next
  case Call_flush
  with assms(4) show ?thesis by (intro flush_method.keeps [OF assms(1-3)]) simp
qed

lemma dp_init_inv:
  assumes "rb_laws L V" and "dp_init L st"
  shows "sys_inv V st"
proof -
  obtain s w where mk: "make_sender L = Val (s, w)"
    and st: "st = (Some s, world.extend w \<lparr>w_pc = W_recv, out = []\<rparr>)"
    using assms(2) by (auto simp: dp_init_def)
  obtain c where c: "ch_send L (ch_new L) 0 = Inr c" and s: "s = \<lparr>ring_buf = 0\<rparr>"
    and w: "w = \<lparr>rings = [rb_new L RING_BUFFER_SIZE], chan = c, clock = 0, sent = []\<rparr>"
    using mk by (auto simp: make_sender_def split: sum.splits)
  note ch = chan_law [OF assms(1)]
  have "queued V c = [0]" "\<not> tx_gone V c" "\<not> rx_gone V c"
    using ch(1-3) ch(6-8) [OF c] by simp_all
  then show ?thesis
    by (simp add: sys_inv_def opens_of_def st s w dp_inv_defs pend_def in_flight_def world.defs
        rb_new_law [OF assms(1)])
qed

lemma writer_exec_tx:
  assumes "rb_laws L V" and "writer_exec L config e d = Some d'"
  shows "tx_gone V (chan d') = tx_gone V (chan d)"
  using assms(2) recv_law(2) [OF assms(1)] drop_rx_law(3) [OF assms(1)]
  by (cases e)
    (auto simp: recv_poll_def auto_loop_poll_def auto_loop_tick_def no_auto_loop_poll_def
      flush_round_def flush_wrote_def writer_exit_def Let_def
      split: w_pc.splits if_splits prod.splits poll.splits option.splits)

interpretation dp_system: invariant_system "dp_init L" "dp_step L config" "\<lambda>st. rb_laws L V \<longrightarrow> sys_inv V st"
  for L :: "('r, 'c) rb_lib" and V and config
proof unfold_locales
  fix st :: "msg_sender option \<times> ('r, 'c) dp"
  assume "dp_init L st"
  then show "rb_laws L V \<longrightarrow> sys_inv V st" by (blast intro: dp_init_inv)
next
  fix st st' :: "msg_sender option \<times> ('r, 'c) dp"
  assume inv: "rb_laws L V \<longrightarrow> sys_inv V st" and step: "dp_step L config st st'"
  show "rb_laws L V \<longrightarrow> sys_inv V st'"
  proof
    assume laws: "rb_laws L V"
    from step show "sys_inv V st'"
    proof (cases rule: dp_step.cases)
      case (step_writer e d d' s)
      with inv laws have "dp_inv V (opens_of s) d" "s = None \<longrightarrow> tx_gone V (chan d)"
        by (auto simp: sys_inv_def)
      with step_writer writer_exec_inv [OF laws _ step_writer(3)] writer_exec_tx [OF laws step_writer(3)]
      show ?thesis by (simp add: sys_inv_def)
    next
      case (step_call env c s d s' d')
      with inv laws exec_call_inv [OF laws] show ?thesis
        by (auto simp: sys_inv_def opens_of_def)
    next
      case (step_drop env s d)
      with inv laws drop_sender_inv [OF laws] show ?thesis
        by (auto simp: sys_inv_def opens_of_def)
    qed
  qed
qed

lemma dp_reach_inv: "rb_laws L V \<Longrightarrow> dp_reach L config st \<Longrightarrow> sys_inv V st"
  using dp_system.reach_inv by blast

section \<open>Draining\<close>

text \<open>How much the writer still has to do once the sender is gone: every step below makes it
  smaller.\<close>

fun pc_rank :: "w_pc \<Rightarrow> nat" where
  "pc_rank W_recv = 1"
| "pc_rank (W_loop _ _) = 5"
| "pc_rank (W_flush _ final) = (if final then 3 else 7)"
| "pc_rank (W_write _ _ final) = (if final then 2 else 6)"
| "pc_rank _ = 0"

definition drain_measure :: "('r, 'c) rb_view \<Rightarrow> ('r, 'c) dp \<Rightarrow> nat" where
  "drain_measure V d = 20 * length (queued V (chan d)) + 20 * length (in_flight V d) + pc_rank (w_pc d)"

text \<open>The next event of a writer whose socket accepts whatever it is given.\<close>

definition drain_event :: "('r, 'c) dp \<Rightarrow> w_event" where
  "drain_event d =
     (case w_pc d of W_write _ left _ \<Rightarrow> Ev_wrote (length left) | W_shutdown \<Rightarrow> Ev_shutdown | _ \<Rightarrow> Ev_poll)"

definition drains_on :: "('r, 'c) rb_lib \<Rightarrow> ('r, 'c) rb_view \<Rightarrow> conn_config \<Rightarrow> ('r, 'c) dp \<Rightarrow> bool" where
  "drains_on L V config d \<longleftrightarrow>
     (\<exists>d'. writer_exec L config (drain_event d) d = Some d' \<and>
        (w_pc d' = W_done (Inr ()) \<or> writer_live (w_pc d') \<and> drain_measure V d' < drain_measure V d))"

lemma drain_flush:
  assumes "rb_laws L V" and "chain_ok V [] d" and "w_pc d = W_flush i final"
  shows "drains_on L V config d"
proof -
  obtain left right where sl: "rb_as_slices L (rings d ! i) = (left, right)" by fastforce
  show ?thesis
  proof (cases "left = [] \<and> final")
    case False
    with assms(3) sl show ?thesis
      by (auto simp: drains_on_def drain_event_def flush_round_def drain_measure_def in_flight_def pend_def)
  next
    case True
    let ?d = "d\<lparr>rings := drop_cons_at L [i] (rings d), w_pc := W_recv\<rparr>"
    have empty: "items V (rings d ! i) = []" using cons_law(5) [OF assms(1)] sl True by blast
    have "in_flight V ?d = in_flight V d"
      using assms(2,3) empty drop_cons_at_view(1) [OF assms(1)]
      by (auto simp: in_flight_def pend_def chain_ok_def intro!: arg_cong [where f = concat] map_cong)
    with assms(3) sl True show ?thesis
      by (auto simp: drains_on_def drain_event_def flush_round_def drain_measure_def)
  qed
qed

lemma drain_write:
  assumes "rb_laws L V" and inv: "dp_inv V [] d" and "chain_ok V [] d" and pc: "w_pc d = W_write i left final"
  shows "drains_on L V config d"
proof -
  from inv pc have ne: "left \<noteq> []" by (simp add: dp_inv_def pc_inv_def)
  obtain d' where d': "flush_wrote L i left final (length left) d = Some d'"
    by (simp add: flush_wrote_def)
  then have fields: "out d' = out d @ left" "w_pc d' = W_flush i final" "chan d' = chan d" "sent d' = sent d"
    by (auto simp: flush_wrote_def)
  have "dp_inv V [] d'" by (rule flush_wrote_inv [OF assms(1) inv pc d'])
  then have "out d' @ in_flight V d' = sent d'" using fields(2) by (simp add: dp_inv_def chain_ok_def)
  then have "length (in_flight V d) = length left + length (in_flight V d')"
    using assms(3) pc fields by (simp add: chain_ok_def) (metis append.assoc length_append same_append_eq)
  with pc d' fields ne show ?thesis
    by (cases left) (auto simp: drains_on_def drain_event_def drain_measure_def)
qed

lemma drain_step:
  assumes "rb_laws L V" and inv: "dp_inv V [] d" and "tx_gone V (chan d)" and live: "writer_live (w_pc d)"
  shows "drains_on L V config d"
proof -
  from inv live have chain: "chain_ok V [] d" by (simp add: dp_inv_def)
  show ?thesis
  proof (cases "w_pc d")
    case W_recv
    obtain res c where rc: "ch_recv L (chan d) = (res, c)" by fastforce
    from W_recv rc recv_law [OF assms(1) rc] assms(3) show ?thesis
      by (cases "queued V (chan d)")
        (auto simp: drains_on_def drain_event_def recv_poll_def drain_measure_def in_flight_def pend_def)
  next
    case (W_loop i t)
    with chain have gone: "prod_gone V (rings d ! i)" by (auto simp: chain_ok_def pend_def)
    with W_loop cons_law [OF assms(1)] show ?thesis
      by (auto simp: drains_on_def drain_event_def auto_loop_poll_def no_auto_loop_poll_def Let_def
          drain_measure_def in_flight_def pend_def)
  next
    case W_shutdown
    then show ?thesis by (auto simp: drains_on_def drain_event_def writer_exit_def split: prod.splits)
  qed (use live drain_flush [OF assms(1) chain] drain_write [OF assms(1) inv chain] in simp_all)
qed

lemma drain:
  assumes "rb_laws L V" and "dp_inv V [] d" and "tx_gone V (chan d)" and "writer_live (w_pc d)"
  shows "\<exists>es d'. writer_run L config es d = Some d' \<and> w_pc d' = W_done (Inr ())"
  using assms(2-4)
proof (induction "drain_measure V d" arbitrary: d rule: less_induct)
  case less
  obtain d1 where d1: "writer_exec L config (drain_event d) d = Some d1"
    and or: "w_pc d1 = W_done (Inr ()) \<or> writer_live (w_pc d1) \<and> drain_measure V d1 < drain_measure V d"
    using drain_step [OF assms(1) less.prems, unfolded drains_on_def] by blast
  show ?case
  proof (cases "w_pc d1 = W_done (Inr ())")
    case True
    with d1 show ?thesis by (intro exI [of _ "[drain_event d]"]) simp
  next
    case False
    with or less.hyps [of d1] writer_exec_inv [OF assms(1) less.prems(1) d1]
      writer_exec_tx [OF assms(1) d1] less.prems(2)
    obtain es d' where "writer_run L config es d1 = Some d'" "w_pc d' = W_done (Inr ())" by auto
    with d1 show ?thesis by (intro exI [of _ "drain_event d # es"]) simp
  qed
qed

text \<open>Flushing one ring: whatever the socket accepts at a time, a writer in a flush can write the whole
  ring and come out of the flush.\<close>

lemma flush_all:
  assumes "rb_laws L V" and "dp_inv V opens d" and "w_pc d = W_flush i final"
  shows "\<exists>es d'. writer_run L config es d = Some d' \<and> out d' = out d @ items V (rings d ! i) \<and>
    (\<forall>e \<in> set es. e = Ev_poll \<or> (\<exists>n. e = Ev_wrote n)) \<and>
    w_pc d' = (if final then W_recv else W_loop i (\<not> writer_auto config))"
  using assms(2,3)
proof (induction "length (items V (rings d ! i))" arbitrary: d rule: less_induct)
  case less
  obtain left right where sl: "rb_as_slices L (rings d ! i) = (left, right)" by fastforce
  note law = cons_law(4,5) [OF assms(1)]
  show ?case
  proof (cases "left = []")
    case True
    with sl law(2) have "items V (rings d ! i) = []" by blast
    with less.prems(2) sl True show ?thesis
      by (intro exI [of _ "[Ev_poll]"]) (auto simp: flush_round_def)
  next
    case False
    let ?d1 = "d\<lparr>w_pc := W_write i left final\<rparr>"
    have s1: "writer_exec L config Ev_poll d = Some ?d1"
      using less.prems(2) sl False by (simp add: flush_round_def)
    obtain d2 where s2: "writer_exec L config (Ev_wrote (length left)) ?d1 = Some d2"
      by (simp add: flush_wrote_def)
    have i: "i < length (rings d)" using less.prems by (auto simp: dp_inv_def chain_ok_def pend_def)
    from law(1) [OF sl] advance_law(1) [OF assms(1), of "length left" "rings d ! i"]
    have d2: "items V (rings d2 ! i) = right" "out d2 = out d @ left" "w_pc d2 = W_flush i final"
      using s2 i by (auto simp: flush_wrote_def)
    have "dp_inv V opens d2"
      by (rule writer_exec_inv [OF assms(1) writer_exec_inv [OF assms(1) less.prems(1) s1] s2])
    moreover have "length (items V (rings d2 ! i)) < length (items V (rings d ! i))"
      using law(1) [OF sl] d2(1) False by simp
    ultimately obtain es d' where "writer_run L config es d2 = Some d'"
      "out d' = out d2 @ items V (rings d2 ! i)" "\<forall>e \<in> set es. e = Ev_poll \<or> (\<exists>n. e = Ev_wrote n)"
      "w_pc d' = (if final then W_recv else W_loop i (\<not> writer_auto config))"
      using less.hyps d2(3) by blast
    with s1 s2 d2 law(1) [OF sl] show ?thesis
      by (intro exI [of _ "Ev_poll # Ev_wrote (length left) # es"]) auto
  qed
qed

lemma drain_all:
  assumes "rb_laws L V" and "dp_inv V [] d" and "tx_gone V (chan d)" and "writer_live (w_pc d)"
  shows "\<exists>es d'. writer_run L config es d = Some d' \<and> w_pc d' = W_done (Inr ()) \<and> out d' = sent d"
proof -
  obtain es d' where run: "writer_run L config es d = Some d'" and ok: "w_pc d' = W_done (Inr ())"
    using drain [OF assms] by blast
  from writer_run_inv [OF assms(1,2) run] ok have "out d' = sent d'" by (simp add: dp_inv_def pc_inv_def)
  with run ok writer_run_frame [OF run] show ?thesis by metis
qed

end
