(* ===== verification/List_Lib.thy ===== *)
theory List_Lib
  imports Msg_Sender
begin

text \<open>
  A concrete instance of the two libraries the sender and the writer are built on: a ring buffer is a
  list of bytes with a capacity, the channel a list of ring names.  It satisfies \<open>rb_laws\<close>, so the laws
  are consistent, and the theorems on the data path are exercised on it.
\<close>

record list_ring =
  lr_items :: "byte list"
  lr_cap :: nat
  lr_prod_gone :: bool
  lr_cons_gone :: bool
  lr_waker :: "raw_waker option"
  lr_wakes :: "raw_waker list"

record list_chan =
  lc_queue :: "nat list"
  lc_tx_gone :: bool
  lc_rx_gone :: bool

definition list_push :: "list_ring \<Rightarrow> byte list \<Rightarrow> nat \<times> list_ring" where
  "list_push r bs =
     (let n = min (length bs) (lr_cap r - length (lr_items r))
      in (n, r\<lparr>lr_items := lr_items r @ take n bs\<rparr>))"

text \<open>The consumer wakes the producer that waits, and forgets its waker.\<close>

definition list_wake :: "list_ring \<Rightarrow> list_ring" where
  "list_wake r = r\<lparr>lr_waker := None, lr_wakes := lr_wakes r @ (case lr_waker r of None \<Rightarrow> [] | Some k \<Rightarrow> [k])\<rparr>"

definition list_lib :: "(list_ring, list_chan) rb_lib" where
  "list_lib = \<lparr>
     rb_new = (\<lambda>n. \<lparr>lr_items = [], lr_cap = n, lr_prod_gone = False, lr_cons_gone = False, lr_waker = None,
       lr_wakes = []\<rparr>),
     rb_push_slice = list_push,
     rb_prod_closed = lr_cons_gone,
     rb_register_waker = (\<lambda>r k. r\<lparr>lr_waker := Some k\<rparr>),
     rb_poll_write = (\<lambda>r k bs.
       if lr_cons_gone r then (Ready (Inr 0), r)
       else case list_push r bs of
         (n, r') \<Rightarrow> if n = 0 then (Pending, r\<lparr>lr_waker := Some k\<rparr>) else (Ready (Inr n), r')),
     rb_drop_prod = (\<lambda>r. r\<lparr>lr_prod_gone := True\<rparr>),
     rb_wait_occupied = (\<lambda>r n. n \<le> length (lr_items r) \<or> lr_prod_gone r),
     rb_cons_closed = lr_prod_gone,
     rb_occupied_len = (\<lambda>r. length (lr_items r)),
     rb_as_slices = (\<lambda>r. (take (Suc (length (lr_items r)) div 2) (lr_items r),
                          drop (Suc (length (lr_items r)) div 2) (lr_items r))),
     rb_advance_read_index = (\<lambda>r n. list_wake (r\<lparr>lr_items := drop n (lr_items r)\<rparr>)),
     rb_drop_cons = (\<lambda>r. list_wake (r\<lparr>lr_cons_gone := True\<rparr>)),
     ch_new = \<lparr>lc_queue = [], lc_tx_gone = False, lc_rx_gone = False\<rparr>,
     ch_send = (\<lambda>c x. if lc_rx_gone c then Inl ''channel closed'' else Inr (c\<lparr>lc_queue := lc_queue c @ [x]\<rparr>)),
     ch_recv = (\<lambda>c. case lc_queue c of
         x # xs \<Rightarrow> (Ready (Some x), c\<lparr>lc_queue := xs\<rparr>)
       | [] \<Rightarrow> (if lc_tx_gone c then Ready None else Pending, c)),
     ch_drop_tx = (\<lambda>c. c\<lparr>lc_tx_gone := True\<rparr>),
     ch_drop_rx = (\<lambda>c. (lc_queue c, c\<lparr>lc_queue := [], lc_rx_gone := True\<rparr>))\<rparr>"

definition list_view :: "(list_ring, list_chan) rb_view" where
  "list_view = \<lparr>items = lr_items, cap = lr_cap, prod_gone = lr_prod_gone, cons_gone = lr_cons_gone,
     prod_waker = lr_waker, wakes = lr_wakes, queued = lc_queue, tx_gone = lc_tx_gone, rx_gone = lc_rx_gone\<rparr>"

lemma list_prod_laws: "prod_laws list_lib list_view"
  by (auto simp: prod_laws_def waker_kept_def list_lib_def list_view_def list_push_def Let_def
      split: poll.splits sum.splits if_splits)

lemma list_cons_laws: "cons_laws list_lib list_view"
  by (auto simp: cons_laws_def wakes_producer_def list_wake_def list_lib_def list_view_def Suc_le_eq div_eq_0_iff)

lemma list_chan_laws: "chan_laws list_lib list_view"
  by (auto simp: chan_laws_def list_lib_def list_view_def split: list.splits if_splits)

lemma list_lib_laws: "rb_laws list_lib list_view"
  by (simp add: rb_laws_def list_prod_laws list_cons_laws list_chan_laws)

end
