(* ===== verification/Demo.thy ===== *)
theory Demo
  imports Data_System List_Lib
begin

text \<open>
  A concrete run of a connection's sender and writer on the list instance of the libraries: the states
  at which the theorems on the data path are exercised.
\<close>

definition demo_sender :: msg_sender where
  "demo_sender = \<lparr>ring_buf = 0\<rparr>"

definition demo_ring :: "byte list \<Rightarrow> bool \<Rightarrow> bool \<Rightarrow> list_ring" where
  "demo_ring bs p c =
     \<lparr>lr_items = bs, lr_cap = RING_BUFFER_SIZE, lr_prod_gone = p, lr_cons_gone = c, lr_waker = None, lr_wakes = []\<rparr>"

definition demo_dp ::
  "byte list \<Rightarrow> bool \<times> bool \<Rightarrow> nat list \<times> bool \<times> bool \<Rightarrow> nat \<Rightarrow> byte list \<Rightarrow> w_pc \<Rightarrow> byte list \<Rightarrow>
     (list_ring, list_chan) dp" where
  "demo_dp bs gone ch k sents pc outs =
     \<lparr>rings = [demo_ring bs (fst gone) (snd gone)],
      chan = \<lparr>lc_queue = fst ch, lc_tx_gone = fst (snd ch), lc_rx_gone = snd (snd ch)\<rparr>,
      clock = k, sent = sents, w_pc = pc, out = outs\<rparr>"

lemmas demo_defs = demo_sender_def demo_ring_def demo_dp_def list_lib_def list_push_def list_wake_def

lemma dp_reach_run:
  "dp_reach L config (s, d) \<Longrightarrow> writer_run L config es d = Some d' \<Longrightarrow> dp_reach L config (s, d')"
  by (induction es arbitrary: d) (auto split: option.splits intro: reach_step dp_step.step_writer)

lemma writer_run_steps:
  "writer_run L config es d = Some d' \<Longrightarrow> (dp_step L config)\<^sup>*\<^sup>* (s, d) (s, d')"
  by (induction es arbitrary: d) (auto split: option.splits intro: converse_rtranclp_into_rtranclp dp_step.step_writer)

lemma writer_env_id: "writer_env L config (\<lambda>d. d)"
  unfolding writer_env_def by (metis writer_run.simps(1))

lemma demo_init: "dp_reach list_lib demo_config
    (Some demo_sender, demo_dp [] (False, False) ([0], False, False) 0 [] W_recv [])"
  by (rule reach_init) (simp add: dp_init_def make_sender_def demo_defs world.defs)

lemma demo_push:
  assumes "length bs \<le> RING_BUFFER_SIZE" and "bs \<noteq> []" and "cs = []"
  shows "burst_write list_lib (\<lambda>d. d) 0 0 bs (demo_dp cs (False, c) ch k sents pc outs) =
    (Val Burst_finished, length bs, demo_dp bs (False, c) ch (Suc k) (sents @ bs) pc outs)"
  using assms
  by (simp add: burst_write.simps push_ring_def set_ring_def demo_defs Let_def min_def)

text \<open>Three bytes are handed over, the writer picks up the ring and starts a write, the sender is dropped,
  and the writer drains what is left.\<close>

lemma demo_call:
  "exec_call list_lib (\<lambda>d. d) (Call_send_nonblock [1, 2, 3]) demo_sender
     (demo_dp [] (False, False) ([0], False, False) 0 [] W_recv []) =
   Some (demo_sender, demo_dp [1, 2, 3] (False, False) ([0], False, False) 1 [1, 2, 3] W_recv [])"
  using demo_push [of "[1, 2, 3]" "[]"]
  by (simp add: send_nonblock_def RING_BUFFER_SIZE_def demo_sender_def)

lemma demo_write_run:
  "writer_run list_lib demo_config [Ev_poll, Ev_tick, Ev_poll]
     (demo_dp [1, 2, 3] (False, False) ([0], False, False) 1 [1, 2, 3] W_recv []) =
   Some (demo_dp [1, 2, 3] (False, False) ([], False, False) 1 [1, 2, 3] (W_write 0 [1, 2] False) [])"
  by (simp add: demo_defs recv_poll_def auto_loop_tick_def flush_round_def writer_auto_def demo_config_def
      wait_threshold_def MIN_MSG_BUFFER_SIZE_def)

lemma demo_drop:
  "drop_sender list_lib (\<lambda>d. d) demo_sender
     (demo_dp [1, 2, 3] (False, False) ([], False, False) 1 [1, 2, 3] (W_write 0 [1, 2] False) []) =
   demo_dp [1, 2, 3] (True, False) ([], True, False) 3 [1, 2, 3] (W_write 0 [1, 2] False) []"
  by (simp add: drop_sender_def demo_defs set_ring_def Let_def)

lemma demo_drain_run:
  "writer_run list_lib demo_config [Ev_wrote 2, Ev_poll, Ev_wrote 1, Ev_poll, Ev_poll, Ev_poll, Ev_poll, Ev_shutdown]
     (demo_dp [1, 2, 3] (True, False) ([], True, False) 3 [1, 2, 3] (W_write 0 [1, 2] False) []) =
   Some (demo_dp [] (True, True) ([], True, True) 3 [1, 2, 3] (W_done (Inr ())) [1, 2, 3])"
  by (simp add: demo_defs recv_poll_def auto_loop_poll_def flush_round_def flush_wrote_def writer_auto_def
      demo_config_def wait_threshold_def drop_cons_at_def writer_exit_def Let_def)

lemma demo_sent: "dp_reach list_lib demo_config
    (Some demo_sender, demo_dp [1, 2, 3] (False, False) ([0], False, False) 1 [1, 2, 3] W_recv [])"
  by (rule reach_step [OF demo_init dp_step.step_call [OF writer_env_id demo_call]])

lemma demo_writing: "dp_reach list_lib demo_config
    (Some demo_sender, demo_dp [1, 2, 3] (False, False) ([], False, False) 1 [1, 2, 3] (W_write 0 [1, 2] False) [])"
  by (rule dp_reach_run [OF demo_sent demo_write_run])

lemma demo_dropped: "dp_reach list_lib demo_config
    (None, demo_dp [1, 2, 3] (True, False) ([], True, False) 3 [1, 2, 3] (W_write 0 [1, 2] False) [])"
  using reach_step [OF demo_writing dp_step.step_drop [OF writer_env_id]] unfolding demo_drop .

lemma demo_done: "dp_reach list_lib demo_config
    (None, demo_dp [] (True, True) ([], True, True) 3 [1, 2, 3] (W_done (Inr ())) [1, 2, 3])"
  by (rule dp_reach_run [OF demo_dropped demo_drain_run])

lemma demo_failed: "dp_reach list_lib demo_config
    (Some demo_sender, demo_dp [1, 2, 3] (False, True) ([], False, True) 1 [1, 2, 3]
       (W_done (Inl \<lparr>err_kind = Other, err_msg = ''reset''\<rparr>)) [])"
  by (rule dp_reach_run [OF demo_writing, of "[Ev_io_error \<lparr>err_kind = Other, err_msg = ''reset''\<rparr>]"])
    (simp add: demo_defs drop_cons_at_def writer_exit_def)

end
