(* ===== verification/Data_Props.thy ===== *)
theory Data_Props
  imports Demo
begin

text \<open>
  The properties of the data path, from the methods of the sender through the chain of rings and the
  writer task to the socket.  They hold for every instance \<open>L\<close> of the libraries that satisfies
  \<open>rb_laws\<close>; the witnesses are runs of the list instance.
\<close>

section \<open>End to end\<close>

lemma sys_invD:
  assumes "rb_laws L V" and "dp_reach L config (s, d)"
  shows "dp_inv V (opens_of s) d" and "s = None \<Longrightarrow> tx_gone V (chan d)"
  using dp_reach_inv [OF assms] by (auto simp: sys_inv_def)

text \<open>C6: the byte stream is neither reordered, duplicated nor corrupted on its way.  In every reachable
  state of a connection, for every interleaving of the writer task with the sender's calls, the bytes the
  socket has accepted are the front of the bytes the sender was handed; and as long as the writer task
  lives, the rest is exactly what lies in the rings, in order.\<close>

theorem data_path_in_order:
  assumes "rb_laws L V" and "dp_reach L config (s, d)"
  shows "(\<exists>rest. sent d = out d @ rest) \<and> (writer_live (w_pc d) \<longrightarrow> sent d = out d @ in_flight V d)"
proof -
  note inv = sys_invD(1) [OF assms]
  have "writer_live (w_pc d) \<longrightarrow> out d @ in_flight V d = sent d"
    using inv by (auto simp: dp_inv_def chain_ok_def)
  with dp_inv_in_order [OF inv] show ?thesis by metis
qed

theorem data_path_in_order_witness:
  "\<exists>s d. dp_reach list_lib demo_config (s, d) \<and> writer_live (w_pc d) \<and> out d = [1, 2] \<and> sent d = [1, 2, 3] \<and>
     sent d = out d @ in_flight list_view d"
proof -
  let ?d = "demo_dp [3] (True, False) ([], True, False) 3 [1, 2, 3] (W_flush 0 False) [1, 2]"
  have "dp_reach list_lib demo_config (None, ?d)"
    by (rule dp_reach_run [OF demo_dropped, of "[Ev_wrote 2]"]) (simp add: demo_defs flush_wrote_def)
  moreover have "writer_live (w_pc ?d)" "out ?d = [1, 2]" "sent ?d = [1, 2, 3]" by (simp_all add: demo_dp_def)
  ultimately show ?thesis using data_path_in_order [OF list_lib_laws, of demo_config None ?d] by blast
qed

text \<open>A writer task that ends with \<open>Ok\<close> has lost nothing: every byte the sender was ever handed has
  been accepted by the socket, and the sender has been dropped, so no further byte can follow.\<close>

lemma writer_ok_complete:
  assumes "rb_laws L V" and "dp_reach L config (s, d)" and "w_pc d = W_done (Inr ())"
  shows "out d = sent d \<and> s = None"
  using sys_invD(1) [OF assms(1,2)] assms(3)
  by (auto simp: dp_inv_def pc_inv_def opens_of_def split: option.splits)

text \<open>C7: nothing gets stuck in the rings after the sender is dropped.  From every reachable state in
  which the sender is gone and the writer task lives, polls of the task with a socket that accepts what
  it is given lead to the end of the task with \<open>Ok\<close> and with every byte written.\<close>

theorem dropped_sender_drains:
  assumes "rb_laws L V" and "dp_reach L config (None, d)" and "writer_live (w_pc d)"
  shows "\<exists>es d'. writer_run L config es d = Some d' \<and> w_pc d' = W_done (Inr ()) \<and> out d' = sent d"
  using sys_invD [OF assms(1,2)] by (intro drain_all [OF assms(1) _ _ assms(3)]) (simp_all add: opens_of_def)

theorem dropped_sender_drains_witness:
  "\<exists>d es d'. dp_reach list_lib demo_config (None, d) \<and> out d = [] \<and>
     writer_run list_lib demo_config es d = Some d' \<and> w_pc d' = W_done (Inr ()) \<and> out d' = [1, 2, 3]"
proof -
  let ?d = "demo_dp [1, 2, 3] (True, False) ([], True, False) 3 [1, 2, 3] (W_write 0 [1, 2] False) []"
  have "writer_live (w_pc ?d)" "out ?d = []" "sent ?d = [1, 2, 3]" by (simp_all add: demo_dp_def)
  with demo_dropped dropped_sender_drains [OF list_lib_laws demo_dropped] show ?thesis by metis
qed

lemma wait_threshold_bound: "wait_threshold t \<le> RING_BUFFER_SIZE" "MIN_MSG_BUFFER_SIZE \<le> RING_BUFFER_SIZE"
  by (cases t) (simp_all add: wait_threshold_def RING_BUFFER_SIZE_def MIN_MSG_BUFFER_SIZE_def)

text \<open>C21: the \<open>unsafe\<close> call of \<open>flush\<close> is sound, and no wait of the writer is too long.  Whenever a write
  completes, the ring the task holds exists and has at least as many occupied slots as the read index is
  advanced by.  While the task lives, every ring of the chain, the one it holds and those queued in the
  channel, exists and is not smaller than any threshold the task waits for, so on a full ring no wait of
  either mode blocks.\<close>

theorem advance_in_range:
  assumes "rb_laws L V" and "dp_reach L config (s, d)"
  shows "(\<forall>i left final count d'. w_pc d = W_write i left final \<and> flush_wrote L i left final count d = Some d' \<longrightarrow>
      i < length (rings d) \<and> count \<le> rb_occupied_len L (rings d ! i) \<and> out d' = out d @ take count left) \<and>
    (writer_live (w_pc d) \<longrightarrow> (\<forall>i \<in> set (held_ring (w_pc d)) \<union> set (queued V (chan d)).
      i < length (rings d) \<and> MIN_MSG_BUFFER_SIZE \<le> cap V (rings d ! i) \<and>
      (\<forall>t. wait_threshold t \<le> cap V (rings d ! i) \<and>
         (length (items V (rings d ! i)) = cap V (rings d ! i) \<longrightarrow> rb_wait_occupied L (rings d ! i) (wait_threshold t)))))"
proof -
  have inv: "dp_inv V (opens_of s) d" by (rule sys_invD(1) [OF assms(1,2)])
  have "i < length (rings d) \<and> count \<le> rb_occupied_len L (rings d ! i) \<and> out d' = out d @ take count left"
    if pc: "w_pc d = W_write i left final" and "flush_wrote L i left final count d = Some d'" for i left final count d'
  proof -
    from inv pc obtain rest where "items V (rings d ! i) = left @ rest" by (auto simp: dp_inv_def pc_inv_def)
    moreover have "i < length (rings d)" using inv pc by (auto simp: dp_inv_def chain_ok_def pend_def)
    ultimately show ?thesis
      using that(2) cons_law(3) [OF assms(1), of "rings d ! i"] by (auto simp: flush_wrote_def split: if_splits)
  qed
  moreover have "i < length (rings d) \<and> MIN_MSG_BUFFER_SIZE \<le> cap V (rings d ! i) \<and>
      (\<forall>t. wait_threshold t \<le> cap V (rings d ! i) \<and>
         (length (items V (rings d ! i)) = cap V (rings d ! i) \<longrightarrow> rb_wait_occupied L (rings d ! i) (wait_threshold t)))"
    if "writer_live (w_pc d)" "i \<in> set (held_ring (w_pc d)) \<union> set (queued V (chan d))" for i
  proof -
    have i: "i < length (rings d)" and "RING_BUFFER_SIZE \<le> cap V (rings d ! i)"
      using inv that by (auto simp: dp_inv_def chain_ok_def rings_ok_def pend_def)
    then have "wait_threshold t \<le> cap V (rings d ! i)" "MIN_MSG_BUFFER_SIZE \<le> cap V (rings d ! i)" for t
      using wait_threshold_bound(1) [of t] wait_threshold_bound(2) by simp_all
    with i show ?thesis by (simp add: cons_law(1) [OF assms(1)])
  qed
  ultimately show ?thesis by blast
qed

theorem advance_in_range_witness:
  "\<exists>d d'. dp_reach list_lib demo_config (Some demo_sender, d) \<and> w_pc d = W_write 0 [1, 2] False \<and>
     flush_wrote list_lib 0 [1, 2] False 1 d = Some d' \<and> 1 \<le> rb_occupied_len list_lib (rings d ! 0) \<and>
     out d' = out d @ [1] \<and> wait_threshold True \<le> cap list_view (rings d ! 0)"
proof -
  let ?d = "demo_dp [1, 2, 3] (False, False) ([], False, False) 1 [1, 2, 3] (W_write 0 [1, 2] False) []"
  obtain d' where d': "flush_wrote list_lib 0 [1, 2] False 1 ?d = Some d'" by (simp add: flush_wrote_def)
  have pc: "w_pc ?d = W_write 0 [1, 2] False" by (simp add: demo_dp_def)
  note all = advance_in_range [OF list_lib_laws demo_writing]
  from all pc d' have "1 \<le> rb_occupied_len list_lib (rings ?d ! 0)" "out d' = out ?d @ [1]" by fastforce+
  moreover from all pc have "wait_threshold True \<le> cap list_view (rings ?d ! 0)" by simp
  ultimately show ?thesis using d' pc demo_writing by blast
qed

lemma loop_reaches_flush:
  assumes "rb_laws L V" and "w_pc d = W_loop i t" and "writer_auto config"
  shows "items V (rings d ! i) = [] \<or>
    (\<exists>es d1 final. writer_run L config es d = Some d1 \<and> d1 = d\<lparr>w_pc := W_flush i final\<rparr> \<and>
       set es \<subseteq> {Ev_poll, Ev_tick})"
proof -
  note law = cons_law(1-3) [OF assms(1)]
  have tick: "\<exists>es d1 final. writer_run L config es d = Some d1 \<and> d1 = d\<lparr>w_pc := W_flush i final\<rparr> \<and>
      set es \<subseteq> {Ev_poll, Ev_tick}" if "w_pc d = W_loop i True" for d
  proof (cases "rb_wait_occupied L (rings d ! i) (wait_threshold True)")
    case True
    then have "writer_run L config [Ev_poll] d = Some (d\<lparr>w_pc := W_flush i (rb_cons_closed L (rings d ! i))\<rparr>)"
      using that assms(3) law by (auto simp: auto_loop_poll_def wait_threshold_def Let_def)
    then show ?thesis by (intro exI [of _ "[Ev_poll]"]) auto
  next
    case False
    then have "writer_run L config [Ev_tick] d = Some (d\<lparr>w_pc := W_flush i False\<rparr>)"
      using that assms(3) by (simp add: auto_loop_tick_def)
    then show ?thesis by (intro exI [of _ "[Ev_tick]"]) auto
  qed
  show ?thesis
  proof (cases "t \<or> items V (rings d ! i) = []")
    case True
    with tick [of d] assms(2) show ?thesis by (cases t) auto
  next
    case False
    then have occ: "rb_wait_occupied L (rings d ! i) (wait_threshold t)"
      using law by (cases "items V (rings d ! i)") (auto simp: wait_threshold_def)
    show ?thesis
    proof (cases "prod_gone V (rings d ! i) \<or> MIN_MSG_BUFFER_SIZE \<le> length (items V (rings d ! i))")
      case True
      then have "\<exists>final. writer_run L config [Ev_poll] d = Some (d\<lparr>w_pc := W_flush i final\<rparr>)"
        using assms(2,3) occ law by (auto simp: auto_loop_poll_def Let_def)
      then show ?thesis by (metis list.set_intros(1) empty_set insert_subset list.simps(15) empty_subsetI)
    next
      case small: False
      let ?d = "d\<lparr>w_pc := W_loop i True\<rparr>"
      have "writer_exec L config Ev_poll d = Some ?d"
        using assms(2,3) occ law small by (auto simp: auto_loop_poll_def Let_def)
      moreover obtain es d1 final where "writer_run L config es ?d = Some d1"
        "d1 = ?d\<lparr>w_pc := W_flush i final\<rparr>" "set es \<subseteq> {Ev_poll, Ev_tick}"
        using tick [of ?d] by auto
      ultimately show ?thesis by (intro disjI2 exI [of _ "Ev_poll # es"]) auto
    qed
  qed
qed

text \<open>C22: with an automatic flush no handed-over byte waits for more data.  From every reachable state
  in which the writer waits on a ring, the flush interval and a socket that accepts what it is given
  bring out everything the ring holds, without any further call of the sender.\<close>

theorem auto_flush_writes_out:
  assumes "rb_laws L V" and "dp_reach L config (s, d)" and "w_pc d = W_loop i t" and "writer_auto config"
  shows "\<exists>es d'. writer_run L config es d = Some d' \<and> out d' = out d @ items V (rings d ! i) \<and>
    (\<forall>e \<in> set es. e = Ev_poll \<or> e = Ev_tick \<or> (\<exists>n. e = Ev_wrote n))"
proof (cases "items V (rings d ! i) = []")
  case True
  then show ?thesis by (intro exI [of _ "[]"]) simp
next
  case False
  then obtain es d1 final where r1: "writer_run L config es d = Some d1" "set es \<subseteq> {Ev_poll, Ev_tick}"
    and d1: "d1 = d\<lparr>w_pc := W_flush i final\<rparr>"
    using loop_reaches_flush [OF assms(1,3,4)] by blast
  have "dp_inv V (opens_of s) d1"
    by (rule writer_run_inv [OF assms(1) sys_invD(1) [OF assms(1,2)] r1(1)])
  then obtain fs d' where r2: "writer_run L config fs d1 = Some d'" "out d' = out d1 @ items V (rings d1 ! i)"
    "\<forall>e \<in> set fs. e = Ev_poll \<or> (\<exists>n. e = Ev_wrote n)"
    using flush_all [OF assms(1), of _ d1 i final config] d1 by fastforce
  with r1 have "writer_run L config (es @ fs) d = Some d'" by (simp add: writer_run_append)
  with r1(2) r2 d1 show ?thesis by (intro exI [of _ "es @ fs"] exI [of _ d']) auto
qed

theorem auto_flush_writes_out_witness:
  "\<exists>d es d'. dp_reach list_lib demo_config (Some demo_sender, d) \<and> out d = [] \<and>
     writer_run list_lib demo_config es d = Some d' \<and> out d' = [1, 2, 3]"
proof -
  let ?d = "demo_dp [1, 2, 3] (False, False) ([], False, False) 1 [1, 2, 3] (W_loop 0 True) []"
  have reach: "dp_reach list_lib demo_config (Some demo_sender, ?d)"
    by (rule dp_reach_run [OF demo_sent, of "[Ev_poll]"]) (simp add: demo_defs recv_poll_def)
  have "w_pc ?d = W_loop 0 True" "out ?d = []" "items list_view (rings ?d ! 0) = [1, 2, 3]"
    by (simp_all add: demo_dp_def demo_ring_def list_view_def)
  moreover have "writer_auto demo_config" by (simp add: writer_auto_def demo_config_def)
  ultimately show ?thesis
    using reach auto_flush_writes_out [OF list_lib_laws reach, of 0 True] by (metis append_Nil)
qed

section \<open>The methods of the sender\<close>

lemma reach_ring_buf:
  assumes "rb_laws L V" and "dp_reach L config (Some s, d)"
  shows "ring_buf s < length (rings d)"
  using sys_invD(1) [OF assms] by (simp add: dp_inv_def opens_of_def)

text \<open>C15: \<open>send_nonblock\<close> never panics and never drops part of a message silently.  On a reachable
  connection, whatever the writer does meanwhile, it either returns \<open>Ok\<close> with the whole message handed
  over, or a \<open>WriteZero\<close> error with a proper prefix of it handed over, the latter only if the writer
  task has ended.\<close>

theorem send_nonblock_all_or_closed:
  assumes "rb_laws L V" and "dp_reach L config (Some s, d)" and "writer_env L config env"
    and "send_nonblock L env bytes s d = (res, s', d')"
  shows "(res = Val (Inr ()) \<and> sent d' = sent d @ bytes) \<or>
    (\<exists>e k. res = Val (io_err WriteZero (''connection closed: '' @ e)) \<and> s' = s \<and> k < length bytes \<and>
       sent d' = sent d @ take k bytes \<and> \<not> writer_live (w_pc d'))"
proof -
  note inv = sys_invD(1) [OF assms(1,2), simplified opens_of_def, simplified]
  have live: "\<not> writer_live (w_pc d')" if "rx_gone V (chan d')"
    using send_nonblock_inv [OF assms(1,3) inv assms(4)] that by (auto simp: dp_inv_def chain_ok_def)
  from send_nonblock_post [OF assms(1) writer_env_frame [OF assms(3)] reach_ring_buf [OF assms(1,2)] assms(4)]
  show ?thesis using live by blast
qed

theorem send_nonblock_all_or_closed_witness:
  "\<exists>d d' s'. dp_reach list_lib demo_config (Some demo_sender, d) \<and> writer_env list_lib demo_config (\<lambda>d. d) \<and>
     send_nonblock list_lib (\<lambda>d. d) [1, 2, 3] demo_sender d = (Val (Inr ()), s', d') \<and>
     sent d' = sent d @ [1, 2, 3]"
proof -
  let ?d = "demo_dp [] (False, False) ([0], False, False) 0 [] W_recv []"
  obtain d' s' where r: "send_nonblock list_lib (\<lambda>d. d) [1, 2, 3] demo_sender ?d = (Val (Inr ()), s', d')"
    using demo_push [of "[1, 2, 3]" "[]"]
    by (simp add: send_nonblock_def RING_BUFFER_SIZE_def demo_sender_def)
  with demo_init send_nonblock_all_or_closed [OF list_lib_laws demo_init writer_env_id r] writer_env_id
  show ?thesis by (fastforce simp: io_err_def)
qed

text \<open>C16: \<open>send_async\<close> loses neither bytes nor wake-ups.  For a non-empty message it returns the positive
  number of bytes it handed over, or the error of a closed ring with nothing handed over, or \<open>Pending\<close>
  with nothing handed over and the ring full.  After \<open>Pending\<close>, whatever the writer does, either the ring is
  still as it was and has the caller's waker, or the waker has been woken since the call began: room for
  more bytes or a closed connection is never missed.\<close>

theorem send_async_no_lost_wakeup:
  assumes "rb_laws L V" and "dp_reach L config (Some s, d)" and "writer_env L config env"
    and "bytes \<noteq> []" and "send_async L env bytes waker s d = (res, d')"
  shows "async_outcome V bytes (ring_buf s) d res d' \<and>
    (res = Val Pending \<longrightarrow> (\<forall>es d''. writer_run L config es d' = Some d'' \<longrightarrow>
      woken_since V waker (rings d ! ring_buf s) (rings d'' ! ring_buf s) \<or>
      prod_waker V (rings d'' ! ring_buf s) = Some waker \<and>
        items V (rings d'' ! ring_buf s) = items V (rings d' ! ring_buf s) \<and>
        cons_gone V (rings d'' ! ring_buf s) = cons_gone V (rings d' ! ring_buf s)))"
proof -
  note i = reach_ring_buf [OF assms(1,2)]
  have inv: "dp_inv V [ring_buf s] d" using sys_invD(1) [OF assms(1,2)] by (simp add: opens_of_def)
  note inv' = send_async_inv [OF assms(1,3) inv assms(5)]
  then have i': "ring_buf s < length (rings d')" by (simp add: dp_inv_def)
  have "async_outcome V bytes (ring_buf s) d res d'"
    by (rule send_async_post [OF assms(1) writer_env_frame [OF assms(3)] assms(4,5) i])
  moreover note waits_rely_cases [OF send_async_waker [OF assms(1,3) inv] writer_run_rely [OF assms(1) inv' _ i']]
  ultimately show ?thesis using assms(5) by blast
qed

text \<open>A ring that is full: the waker is registered, and the writer wakes it with its first write.\<close>

theorem send_async_no_lost_wakeup_witness:
  "\<exists>d d'. dp_reach list_lib demo_config (Some demo_sender, d) \<and>
     send_async list_lib (\<lambda>d. d) [7] demo_waker demo_sender d = (Val Pending, d') \<and>
     prod_waker list_view (rings d' ! 0) = Some demo_waker"
proof -
  let ?full = "replicate RING_BUFFER_SIZE 0 :: byte list"
  let ?d = "demo_dp ?full (False, False) ([0], False, False) 1 ?full W_recv []"
  have ne: "?full \<noteq> []" by (simp add: RING_BUFFER_SIZE_def)
  have "exec_call list_lib (\<lambda>d. d) (Call_send_nonblock ?full) demo_sender
      (demo_dp [] (False, False) ([0], False, False) 0 [] W_recv []) = Some (demo_sender, ?d)"
    using demo_push [OF _ ne, of "[]" False "([0], False, False)" 0 "[]" W_recv "[]"] ne
    by (simp add: send_nonblock_def demo_sender_def del: replicate_empty)
  from reach_step [OF demo_init dp_step.step_call [OF writer_env_id this]]
  have reach: "dp_reach list_lib demo_config (Some demo_sender, ?d)" .
  obtain d' where r: "send_async list_lib (\<lambda>d. d) [7] demo_waker demo_sender ?d = (Val Pending, d')"
    by (simp add: send_async_def send_async_loop.simps burst_write.simps push_ring_def set_ring_def demo_defs Let_def)
  have w: "wakes list_view (rings d' ! 0) = []" "writer_run list_lib demo_config [] d' = Some d'"
    using r by (auto simp: send_async_def send_async_loop.simps burst_write.simps push_ring_def set_ring_def demo_defs
        list_view_def Let_def)
  have "woken_since list_view demo_waker (rings ?d ! ring_buf demo_sender) (rings d' ! ring_buf demo_sender) \<or>
      prod_waker list_view (rings d' ! ring_buf demo_sender) = Some demo_waker"
    using send_async_no_lost_wakeup [OF list_lib_laws reach writer_env_id _ r] w(2) by blast
  with w(1) have "prod_waker list_view (rings d' ! 0) = Some demo_waker" by (auto simp: woken_since_def demo_sender_def)
  with reach r show ?thesis by blast
qed

text \<open>C20: the outcomes of a blocking send.  A call that returns has handed over the whole message with
  \<open>Ok\<close>, or a prefix of it with an error.  On a thread that runs a task of the runtime, as in every callback,
  the call always returns, but a message that does not fit into the ring makes it panic, after a proper
  prefix was handed over; on any other thread it never panics.\<close>

theorem send_block_prefix:
  assumes "rb_laws L V" and "dp_reach L config (Some s, d)" and "writer_env L config env"
  shows "(in_async \<longrightarrow> send_block L env in_async fuel bytes waker s d \<noteq> None) \<and>
    (\<forall>res d'. send_block L env in_async fuel bytes waker s d = Some (res, d') \<longrightarrow>
      res = Val (Inr ()) \<and> sent d' = sent d @ bytes \<or>
      (\<exists>k. sent d' = sent d @ take k bytes \<and>
        (if in_async then k < length bytes \<and> (\<exists>m. res = Panic m) else k \<le> length bytes \<and> (\<exists>e. res = Val (Inl e)))))"
proof (cases "bytes = []")
  case True
  then show ?thesis by (simp add: send_block_def)
next
  case False
  note frame = writer_env_frame [OF assms(3)] and i = reach_ring_buf [OF assms(1,2)]
  obtain r off d1 where bw: "burst_write L env 0 (ring_buf s) bytes d = (r, off, d1)"
    by (cases "burst_write L env 0 (ring_buf s) bytes d") auto
  from burst_write_post [OF assms(1) frame i _ bw] False obtain st where
    st: "r = Val st" "st = Burst_finished \<longleftrightarrow> off = length bytes" "off \<le> length bytes"
      "length (rings d1) = length (rings d)" "sent d1 = sent d @ take off bytes"
    by (auto simp: subslice_def)
  have future: "\<exists>k. sent d' = sent d @ take k bytes \<and> k \<le> length bytes \<and> (fr = Inr () \<longrightarrow> k = length bytes)"
    if fut: "write_all_future L env waker bytes fuel off s d1 = Some (fr, d')" for fr d'
  proof -
    from write_all_future_post [OF assms(1) frame fut] i st obtain k where
      k: "k \<le> length bytes" "off \<le> k" "sent d' = sent d1 @ subslice bytes off k" "fr = Inr () \<longrightarrow> k = length bytes"
      by auto
    moreover have "take off bytes @ subslice bytes off k = take k bytes"
      using k(2) by (simp add: subslice_def) (metis le_add_diff_inverse take_add)
    ultimately show ?thesis using st(5) by (intro exI [where x = k]) simp
  qed
  show ?thesis
  proof (cases st)
    case Burst_finished
    with st bw False show ?thesis by (simp add: send_block_def)
  next
    case Burst_pending
    with st(2,3) have "off < length bytes" by auto
    have "fr = Inr () \<and> sent d' = sent d @ bytes \<or> (\<exists>k \<le> length bytes. sent d' = sent d @ take k bytes \<and> (\<exists>e. fr = Inl e))"
      if "write_all_future L env waker bytes fuel off s d1 = Some (fr, d')" for fr d'
      using future [OF that] by (cases fr) auto
    with Burst_pending st bw False \<open>off < length bytes\<close> show ?thesis by (auto simp: send_block_def)
  qed
qed

theorem send_block_prefix_witness:
  "\<exists>d d'. dp_reach list_lib demo_config (Some demo_sender, d) \<and>
     send_block list_lib (\<lambda>d. d) True 1 [1, 2, 3] demo_waker demo_sender d = Some (Val (Inr ()), d') \<and>
     sent d' = sent d @ [1, 2, 3]"
proof -
  let ?d = "demo_dp [] (False, False) ([0], False, False) 0 [] W_recv []"
  obtain d' where "send_block list_lib (\<lambda>d. d) True 1 [1, 2, 3] demo_waker demo_sender ?d = Some (Val (Inr ()), d')"
    using demo_push [of "[1, 2, 3]" "[]"]
    by (simp add: send_block_def RING_BUFFER_SIZE_def demo_sender_def)
  with demo_init send_block_prefix [OF list_lib_laws demo_init writer_env_id, of True 1 "[1, 2, 3]" demo_waker]
  show ?thesis by fastforce
qed

text \<open>C19: a blocking send completes against a consumer that keeps making room.  If, in the states \<open>P\<close>
  the connection stays in, every poll of the ring takes at least one byte, then \<open>length bytes + 1\<close> polls
  are enough: the call returns \<open>Ok\<close> with the whole message handed over.\<close>

theorem send_block_completes:
  assumes "rb_laws L V" and "sender_frame env" and "P d" and "ring_buf s < length (rings d)"
    and push: "\<And>w bs n w'. P w \<Longrightarrow> push_ring L env (ring_buf s) bs w = (n, w') \<Longrightarrow> P w'"
    and room: "\<And>w bs. P w \<Longrightarrow> bs \<noteq> [] \<Longrightarrow>
      \<exists>n r. rb_poll_write L (rings (env w) ! ring_buf s) waker bs = (Ready (Inr n), r) \<and> 0 < n \<and>
        (\<forall>x. P ((set_ring (ring_buf s) r (env w))\<lparr>sent := x\<rparr>))"
    and "length bytes < fuel"
  shows "\<exists>d'. send_block L env False fuel bytes waker s d = Some (Val (Inr ()), d') \<and> sent d' = sent d @ bytes"
proof (cases "bytes = []")
  case True
  then show ?thesis by (simp add: send_block_def)
next
  case False
  obtain r off d1 where bw: "burst_write L env 0 (ring_buf s) bytes d = (r, off, d1)"
    by (cases "burst_write L env 0 (ring_buf s) bytes d") auto
  from burst_write_post [OF assms(1,2,4) _ bw] False obtain st where
    st: "r = Val st" "st = Burst_finished \<longleftrightarrow> off = length bytes" "off \<le> length bytes"
      "length (rings d1) = length (rings d)" "sent d1 = sent d @ take off bytes"
    by (auto simp: subslice_def)
  have "P d1" by (rule burst_write_rule [where P = P, OF _ bw assms(3)]) (rule push)
  then obtain d' where fut: "write_all_future L env waker bytes fuel off s d1 = Some (Inr (), d')"
    using write_all_future_returns [where P = P, OF room _ \<open>P d1\<close>] assms(7) by fastforce
  from write_all_future_post [OF assms(1,2) fut] assms(4) st
  have "sent d' = sent d1 @ subslice bytes off (length bytes)" by auto
  then have "sent d' = sent d @ bytes" using st(5) by (simp add: subslice_def)
  with fut st bw False show ?thesis by (cases st) (auto simp: send_block_def)
qed

text \<open>A consumer that empties the ring whenever it may act.\<close>

definition demo_drain :: "(list_ring, list_chan) dp \<Rightarrow> (list_ring, list_chan) dp" where
  "demo_drain d = d\<lparr>rings := map (\<lambda>r. r\<lparr>lr_items := []\<rparr>) (rings d)\<rparr>"

definition demo_open :: "(list_ring, list_chan) dp \<Rightarrow> bool" where
  "demo_open d \<longleftrightarrow> (\<exists>r. rings d = [r] \<and> lr_cap r = RING_BUFFER_SIZE \<and> \<not> lr_cons_gone r)"

theorem send_block_completes_witness:
  "\<exists>d'. send_block list_lib demo_drain False (RING_BUFFER_SIZE + 2) (replicate (RING_BUFFER_SIZE + 1) 7) demo_waker demo_sender
     (demo_dp [] (False, False) ([0], False, False) 0 [] W_recv []) = Some (Val (Inr ()), d') \<and>
     sent d' = replicate (RING_BUFFER_SIZE + 1) 7"
proof -
  let ?d = "demo_dp [] (False, False) ([0], False, False) 0 [] W_recv []"
  have "\<exists>d'. send_block list_lib demo_drain False (RING_BUFFER_SIZE + 2) (replicate (RING_BUFFER_SIZE + 1) 7) demo_waker demo_sender ?d =
      Some (Val (Inr ()), d') \<and> sent d' = sent ?d @ replicate (RING_BUFFER_SIZE + 1) 7"
  proof (rule send_block_completes [where P = demo_open, OF list_lib_laws])
    show "sender_frame demo_drain" by (simp add: sender_frame_def demo_drain_def)
    show "demo_open ?d" by (simp add: demo_open_def demo_dp_def demo_ring_def)
    show "ring_buf demo_sender < length (rings ?d)" by (simp add: demo_dp_def demo_sender_def)
    show "demo_open w'" if "demo_open w" "push_ring list_lib demo_drain (ring_buf demo_sender) bs w = (n, w')"
      for w w' bs n
      using that by (auto simp: demo_open_def push_ring_def demo_drain_def demo_defs set_ring_def Let_def)
    show "\<exists>n r. rb_poll_write list_lib (rings (demo_drain w) ! ring_buf demo_sender) demo_waker bs = (Ready (Inr n), r) \<and>
        0 < n \<and> (\<forall>x. demo_open ((set_ring (ring_buf demo_sender) r (demo_drain w))\<lparr>sent := x\<rparr>))"
      if "demo_open w" "bs \<noteq> []" for w and bs :: "byte list"
      using that
      by (auto simp: demo_open_def demo_drain_def demo_defs set_ring_def Let_def RING_BUFFER_SIZE_def)
  qed simp
  then show ?thesis by (simp add: demo_dp_def)
qed

section \<open>Sending on a closed connection\<close>

text \<open>The writer task that has ended does nothing any more.\<close>

lemma dead_exec: "\<not> writer_live (w_pc d) \<Longrightarrow> writer_exec L config e d = None"
  by (cases e) (auto split: w_pc.splits)

lemma dead_env:
  assumes "writer_env L config env" and "\<not> writer_live (w_pc d)"
  shows "env d = d"
proof -
  from assms(1) obtain es where "writer_run L config es d = Some (env d)" by (auto simp: writer_env_def)
  with dead_exec [OF assms(2)] show ?thesis by (cases es) auto
qed

text \<open>The state while the sender pushes into a ring nobody drains: the ring's contents grow by what is
  handed over, up to its capacity.\<close>

definition dead_ring ::
  "('r, 'c) rb_view \<Rightarrow> nat \<Rightarrow> ('r, 'c) dp \<Rightarrow> ('r, 'c) dp \<Rightarrow> bool" where
  "dead_ring V i d d' \<longleftrightarrow> \<not> writer_live (w_pc d') \<and> i < length (rings d') \<and> out d' = out d \<and>
     cap V (rings d' ! i) = cap V (rings d ! i) \<and> cons_gone V (rings d' ! i) = cons_gone V (rings d ! i) \<and>
     length (items V (rings d' ! i)) \<le> cap V (rings d ! i) \<and>
     length (items V (rings d' ! i)) + length (sent d) = length (items V (rings d ! i)) + length (sent d')"

lemma dead_ring_push:
  assumes "rb_laws L V" and "writer_env L config env" and "dead_ring V i d w"
    and "push_ring L env i bs w = (n, w')"
  shows "dead_ring V i d w'"
    and "n = min (length bs) (cap V (rings d ! i) - length (items V (rings w ! i)))"
proof -
  have env: "env w = w" by (rule dead_env [OF assms(2)]) (use assms(3) in \<open>simp add: dead_ring_def\<close>)
  obtain r where ps: "rb_push_slice L (rings w ! i) bs = (n, r)"
    and w': "w' = (set_ring i r w)\<lparr>sent := sent w @ take n bs\<rparr>"
    using assms(4) by (auto simp: push_ring_def env Let_def split: prod.splits)
  note law = push_slice_law [OF assms(1) ps]
  with assms(3) show "dead_ring V i d w'" by (auto simp: dead_ring_def w' set_ring_def min_def)
  from law assms(3) show "n = min (length bs) (cap V (rings d ! i) - length (items V (rings w ! i)))"
    by (simp add: dead_ring_def)
qed

text \<open>C39: \<open>send_nonblock\<close> does not notice that the connection is closed as long as the message fits the
  ring: after the writer task has ended it returns \<open>Ok\<close>, the message is in a ring that nobody reads, and
  nothing reaches the socket.\<close>

theorem send_nonblock_ok_after_close:
  assumes "rb_laws L V" and "dp_reach L config (Some s, d)" and "writer_env L config env"
    and "\<not> writer_live (w_pc d)"
    and "length bytes \<le> cap V (rings d ! ring_buf s) - length (items V (rings d ! ring_buf s))"
  shows "\<exists>d'. send_nonblock L env bytes s d = (Val (Inr ()), s, d') \<and> sent d' = sent d @ bytes \<and> out d' = out d \<and>
    \<not> writer_live (w_pc d')"
proof (cases "bytes = []")
  case True
  with assms(4) show ?thesis by (simp add: send_nonblock_def)
next
  case False
  let ?i = "ring_buf s"
  note i = reach_ring_buf [OF assms(1,2)]
  have d: "dead_ring V ?i d d"
    using sys_invD(1) [OF assms(1,2)] i assms(4) by (simp add: dead_ring_def dp_inv_def rings_ok_def)
  obtain n d1 where push: "push_ring L env ?i bytes d = (n, d1)" by fastforce
  note post = push_ring_post [OF assms(1) writer_env_frame [OF assms(3)] i push]
  from dead_ring_push [OF assms(1,3) d push] assms(5) have n: "n = length bytes" and d1: "dead_ring V ?i d d1"
    by simp_all
  then have "burst_write L env 0 ?i bytes d = (Val Burst_finished, length bytes, d1)"
    using push False by (simp add: burst_write.simps)
  with False n d1 post(1) show ?thesis by (simp add: send_nonblock_def dead_ring_def)
qed

theorem send_nonblock_ok_after_close_witness:
  "\<exists>d d'. dp_reach list_lib demo_config (Some demo_sender, d) \<and> \<not> writer_live (w_pc d) \<and>
     send_nonblock list_lib (\<lambda>d. d) [4] demo_sender d = (Val (Inr ()), demo_sender, d') \<and> out d' = []"
proof -
  let ?d = "demo_dp [1, 2, 3] (False, True) ([], False, True) 1 [1, 2, 3]
       (W_done (Inl \<lparr>err_kind = Other, err_msg = ''reset''\<rparr>)) []"
  have "\<not> writer_live (w_pc ?d)" "out ?d = []" by (simp_all add: demo_dp_def)
  moreover have "length [4 :: byte] \<le> cap list_view (rings ?d ! ring_buf demo_sender) -
      length (items list_view (rings ?d ! ring_buf demo_sender))"
    by (simp add: list_view_def demo_defs RING_BUFFER_SIZE_def)
  ultimately show ?thesis
    using demo_failed send_nonblock_ok_after_close [OF list_lib_laws demo_failed writer_env_id] by metis
qed

text \<open>C40: a blocking send on a closed connection never returns once the ring is full, if the ring
  answers \<open>Ok(0)\<close> when its consumer is gone: the loop has no branch for a count of zero, so no number of
  polls is enough.\<close>

theorem send_block_spins_after_close:
  assumes "rb_laws L V" and "dp_reach L config (Some s, d)" and "writer_env L config env"
    and "\<not> writer_live (w_pc d)" and "cons_gone V (rings d ! ring_buf s)"
    and closed: "\<And>r k bs. cons_gone V r \<Longrightarrow> \<exists>r'. rb_poll_write L r k bs = (Ready (Inr 0), r')"
    and long: "cap V (rings d ! ring_buf s) - length (items V (rings d ! ring_buf s)) < length bytes"
  shows "send_block L env False fuel bytes waker s d = None"
proof -
  let ?i = "ring_buf s"
  note i = reach_ring_buf [OF assms(1,2)] and frame = writer_env_frame [OF assms(3)]
  have d: "dead_ring V ?i d d"
    using sys_invD(1) [OF assms(1,2)] i assms(4) by (simp add: dead_ring_def dp_inv_def rings_ok_def)
  obtain r off d1 where bw: "burst_write L env 0 ?i bytes d = (r, off, d1)"
    by (cases "burst_write L env 0 ?i bytes d") auto
  have d1: "dead_ring V ?i d d1"
    by (rule burst_write_rule [where P = "dead_ring V ?i d", OF _ bw d]) (rule dead_ring_push(1) [OF assms(1,3)])
  from long have "0 < length bytes" by linarith
  from burst_write_post [OF assms(1) frame i this bw] obtain st where
    st: "r = Val st" "st = Burst_finished \<longleftrightarrow> off = length bytes" "off \<le> length bytes"
      "sent d1 = sent d @ take off bytes"
    by (auto simp: subslice_def)
  with d1 long have off: "off < length bytes" by (cases "off = length bytes") (auto simp: dead_ring_def)
  let ?P = "\<lambda>w. \<not> writer_live (w_pc w) \<and> ?i < length (rings w) \<and> cons_gone V (rings w ! ?i)"
  have "write_all_future L env waker bytes fuel off s d1 = None"
  proof (rule write_all_future_spins [where P = ?P])
    show "?P d1" using d1 assms(5) by (simp add: dead_ring_def)
    show "\<exists>r. rb_poll_write L (rings (env w) ! ?i) waker bs = (Ready (Inr 0), r) \<and>
        (\<forall>x. ?P ((set_ring ?i r (env w))\<lparr>sent := x\<rparr>))" if P: "?P w" for w bs
    proof -
      have env: "env w = w" using dead_env [OF assms(3)] P by blast
      obtain r where pw: "rb_poll_write L (rings w ! ?i) waker bs = (Ready (Inr 0), r)"
        using closed P by blast
      have "w_pc (set_ring ?i r w) = w_pc w" by (simp add: set_ring_def)
      with P pw poll_write_law(3) [OF assms(1) pw] show ?thesis by (simp add: env set_ring_def)
    qed
  qed (rule off)
  with bw st off long show ?thesis by (cases st) (auto simp: send_block_def)
qed

theorem send_block_spins_after_close_witness:
  "\<exists>d. dp_reach list_lib demo_config (Some demo_sender, d) \<and>
     (\<forall>fuel. send_block list_lib (\<lambda>d. d) False fuel (replicate (RING_BUFFER_SIZE + 1) 0) demo_waker demo_sender d = None)"
proof -
  let ?d = "demo_dp [1, 2, 3] (False, True) ([], False, True) 1 [1, 2, 3]
       (W_done (Inl \<lparr>err_kind = Other, err_msg = ''reset''\<rparr>)) []"
  have "send_block list_lib (\<lambda>d. d) False fuel (replicate (RING_BUFFER_SIZE + 1) 0) demo_waker demo_sender ?d = None" for fuel
  proof (rule send_block_spins_after_close [OF list_lib_laws demo_failed writer_env_id])
    show "\<exists>r'. rb_poll_write list_lib r k bs = (Ready (Inr 0), r')" if "cons_gone list_view r" for r k bs
      using that by (simp add: list_lib_def list_view_def)
  qed (simp_all add: list_view_def demo_defs)
  with demo_failed show ?thesis by blast
qed

end
