(* ===== verification/Byte_Stream.thy ===== *)
theory Byte_Stream
  imports Data_Props
begin

text \<open>
  What the data path promises: a byte stream.  The specification knows nothing of rings, channels and
  tasks.  It has the bytes the user has sent, the bytes that have left, whether the user has closed the
  stream, and whether its end has been announced to the peer (the shutdown of the socket).  Bytes are
  appended while it is open, they leave in order, and the end is announced only after it was closed and
  every byte has left.  The sender and the writer, with every interleaving of the two, implement it.
\<close>

section \<open>Specification\<close>

record byte_stream =
  bs_sent :: "byte list"
  bs_left :: "byte list"
  bs_closed :: bool
  bs_fin :: bool

definition stream_new :: byte_stream where
  "stream_new = \<lparr>bs_sent = [], bs_left = [], bs_closed = False, bs_fin = False\<rparr>"

inductive stream_step :: "byte_stream \<Rightarrow> byte_stream \<Rightarrow> bool" where
  stream_send: "\<not> bs_closed s \<Longrightarrow> stream_step s (s\<lparr>bs_sent := bs_sent s @ xs\<rparr>)"
| stream_leave: "\<not> bs_fin s \<Longrightarrow> bs_sent s = bs_left s @ xs @ rest \<Longrightarrow> stream_step s (s\<lparr>bs_left := bs_left s @ xs\<rparr>)"
| stream_close: "\<not> bs_closed s \<Longrightarrow> stream_step s (s\<lparr>bs_closed := True\<rparr>)"
| stream_fin: "bs_closed s \<Longrightarrow> bs_left s = bs_sent s \<Longrightarrow> stream_step s (s\<lparr>bs_fin := True\<rparr>)"

abbreviation stream_reach :: "byte_stream \<Rightarrow> bool" where
  "stream_reach \<equiv> reach (\<lambda>s. s = stream_new) stream_step"

text \<open>Everything the specification can do: the bytes that left are the front of those sent, and after the
  announced end they are all of them.\<close>

definition stream_ok :: "byte_stream \<Rightarrow> bool" where
  "stream_ok s \<longleftrightarrow> (\<exists>rest. bs_sent s = bs_left s @ rest) \<and> (bs_fin s \<longrightarrow> bs_closed s \<and> bs_left s = bs_sent s)"

interpretation stream_system: invariant_system "\<lambda>s. s = stream_new" stream_step stream_ok
proof unfold_locales
  fix s t
  assume "stream_ok s" and "stream_step s t"
  from this(2,1) show "stream_ok t"
  proof cases
    case (stream_leave xs rest)
    then show ?thesis using \<open>stream_ok s\<close> by (auto simp: stream_ok_def)
  qed (auto simp: stream_ok_def)
qed (simp add: stream_new_def stream_ok_def)

section \<open>What a sender method does to the other side\<close>

text \<open>A relation between the states before and after a call, which the writer's steps satisfy and which
  allows the sender to hand over bytes but not to touch what belongs to the writer.\<close>

locale call_relation =
  fixes env :: "('r, 'c) dp \<Rightarrow> ('r, 'c) dp" and R :: "('r, 'c) dp \<Rightarrow> ('r, 'c) dp \<Rightarrow> bool"
  assumes own: "w_pc d' = w_pc d \<Longrightarrow> out d' = out d \<Longrightarrow> sent d' = sent d @ xs \<Longrightarrow> R d d'"
    and trans: "R a b \<Longrightarrow> R b c \<Longrightarrow> R a c"
    and env: "R d (env d)"
begin

lemma same: "w_pc d' = w_pc d \<Longrightarrow> out d' = out d \<Longrightarrow> sent d' = sent d \<Longrightarrow> R d d'"
  using own [of d' d "[]"] by simp

lemma env_own: "w_pc d' = w_pc (env d) \<Longrightarrow> out d' = out (env d) \<Longrightarrow> sent d' = sent (env d) @ xs \<Longrightarrow> R d d'"
  using trans [OF env own] .

lemma push_ring_rel: "push_ring L env i bs d = (n, d') \<Longrightarrow> R d d'"
  by (auto simp: push_ring_def set_ring_def Let_def split: prod.splits intro!: env_own)

lemma burst_write_rel: "burst_write L env offset i bs d = (r, off, d') \<Longrightarrow> R d d'"
proof (induction "Suc (length bs) - offset" arbitrary: offset d rule: less_induct)
  case less
  obtain n d1 where pr: "push_ring L env i (drop offset bs) d = (n, d1)" by fastforce
  have d1: "R d d1" by (rule push_ring_rel [OF pr])
  show ?case
    using less.prems pr d1 less.hyps [of "offset + n" d1] trans [OF d1] same [of d d]
    by (subst (asm) (1) burst_write.simps) (auto split: if_splits)
qed

lemma send_ring_rel: "send_ring L env ring bs s d = (r, s', d') \<Longrightarrow> R d d'"
proof (cases "ch_send L (chan (env d)) (length (rings (env d)))")
  case (Inl e)
  moreover assume "send_ring L env ring bs s d = (r, s', d')"
  ultimately show ?thesis by (auto simp: send_ring_def Let_def intro!: env_own)
next
  case (Inr c)
  let ?d1 = "(env d)\<lparr>rings := rings (env d) @ [ring], chan := c, clock := Suc (clock (env d)),
    sent := sent (env d) @ bs\<rparr>"
  assume "send_ring L env ring bs s d = (r, s', d')"
  with Inr have "w_pc d' = w_pc (env ?d1)" "out d' = out (env ?d1)" "sent d' = sent (env ?d1)"
    by (auto simp: send_ring_def set_ring_def Let_def)
  then have "R ?d1 d'" by (intro env_own [of _ _ "[]"]) simp_all
  moreover have "R d ?d1" by (rule env_own) simp_all
  ultimately show ?thesis by (rule trans [rotated])
qed

lemma send_nonblock_rel: "send_nonblock L env bytes s d = (r, s', d') \<Longrightarrow> R d d'"
  by (auto simp: send_nonblock_def Let_def intro: same dest: burst_write_rel send_ring_rel trans
      split: if_splits prod.splits outcome.splits burst_write_state.splits)

lemma send_async_loop_rel: "send_async_loop L env waker bytes reg offset s d = (r, d') \<Longrightarrow> R d d'"
proof (induction "if reg then 0 else 1 :: nat" arbitrary: reg offset d rule: less_induct)
  case less
  let ?i = "ring_buf s"
  obtain b off d1 where bw: "burst_write L env offset ?i bytes (env d) = (b, off, d1)"
    by (cases "burst_write L env offset ?i bytes (env d)") auto
  have d1: "R d d1" by (rule trans [OF env burst_write_rel [OF bw]])
  let ?d3 = "set_ring ?i (rb_register_waker L (rings (env d1) ! ?i) waker) (env d1)"
  have d3: "R d ?d3" by (rule trans [OF d1 env_own]) (simp_all add: set_ring_def)
  show ?case
    using less.prems bw d1 trans [OF d3] less.hyps [of True off ?d3] env [of d]
    by (subst (asm) (1) send_async_loop.simps) (auto simp: Let_def split: if_splits outcome.splits)
qed

lemma write_all_future_rel: "write_all_future L env waker bytes fuel offset s d = Some (r, d') \<Longrightarrow> R d d'"
proof (induction fuel arbitrary: offset d)
  case (Suc fuel)
  let ?i = "ring_buf s" and ?d0 = "env d"
  obtain res x where pw: "rb_poll_write L (rings ?d0 ! ?i) waker (drop offset bytes) = (res, x)" by fastforce
  have "R d (set_ring ?i x ?d0)" "R d ((set_ring ?i x ?d0)\<lparr>sent := sent ?d0 @ xs\<rparr>)" for xs
    by (auto intro: env_own [of _ _ "[]"] env_own simp: set_ring_def)
  with Suc pw show ?case
    by (auto simp: Let_def intro: same trans split: if_splits poll.splits sum.splits)
qed simp

lemma send_block_rel: "send_block L env in_async fuel bytes waker s d = Some (r, d') \<Longrightarrow> R d d'"
  by (auto simp: send_block_def intro: same dest: burst_write_rel write_all_future_rel trans
      split: if_splits prod.splits outcome.splits burst_write_state.splits)

lemma exec_call_rel:
  assumes "exec_call L env c s d = Some (s', d')"
  shows "R d d'"
proof (cases c)
  case (Call_send_block in_async fuel bytes waker)
  with assms send_block_rel show ?thesis by fastforce
next
  case (Call_send_nonblock bytes)
  obtain r s2 d2 where sn: "send_nonblock L env bytes s d = (r, s2, d2)"
    by (cases "send_nonblock L env bytes s d") auto
  with send_nonblock_rel [OF sn] assms Call_send_nonblock show ?thesis by simp
next
  case (Call_send_async bytes waker)
  obtain r d2 where sa: "send_async L env bytes waker s d = (r, d2)" by fastforce
  then have "R d d2" by (auto simp: send_async_def intro: same send_async_loop_rel split: if_splits)
  with sa assms Call_send_async show ?thesis by simp
next
  case Call_flush
  obtain r s2 d2 where sf: "sender_flush L env s d = (r, s2, d2)" by (cases "sender_flush L env s d") auto
  then have "R d d2" unfolding sender_flush_def by (rule send_ring_rel)
  with sf assms Call_flush show ?thesis by simp
qed

lemma drop_sender_rel: "R d (drop_sender L env s d)"
proof -
  let ?d0 = "set_ring (ring_buf s) (rb_drop_prod L (rings (env d) ! ring_buf s)) (env d)"
  have "R d ?d0" by (rule env_own [of _ _ "[]"]) (simp_all add: set_ring_def)
  moreover have "R ?d0 (drop_sender L env s d)"
    by (rule env_own [of _ _ "[]"]) (simp_all add: drop_sender_def Let_def)
  ultimately show ?thesis by (rule trans)
qed

end

text \<open>Both logs only grow, also during a call.\<close>

definition logs_grow :: "('r, 'c) dp \<Rightarrow> ('r, 'c) dp \<Rightarrow> bool" where
  "logs_grow d d' \<longleftrightarrow> (\<exists>xs. sent d' = sent d @ xs) \<and> (\<exists>ys. out d' = out d @ ys)"

lemma logs_grow_trans: "logs_grow a b \<Longrightarrow> logs_grow b c \<Longrightarrow> logs_grow a c"
  by (auto simp: logs_grow_def)

lemma writer_exec_grows: "writer_exec L config e d = Some d' \<Longrightarrow> sent d' = sent d \<and> (\<exists>ys. out d' = out d @ ys)"
  by (cases e)
    (auto simp: recv_poll_def auto_loop_poll_def auto_loop_tick_def no_auto_loop_poll_def flush_round_def
      flush_wrote_def writer_exit_def Let_def split: w_pc.splits if_splits prod.splits poll.splits option.splits)

lemma writer_run_grows: "writer_run L config es d = Some d' \<Longrightarrow> logs_grow d d'"
proof (induction es arbitrary: d)
  case (Cons e es)
  then obtain d1 where "writer_exec L config e d = Some d1" "logs_grow d1 d'" by (auto split: option.splits)
  with writer_exec_grows [of L config e d d1] show ?case by (auto simp: logs_grow_def)
qed (simp add: logs_grow_def)

text \<open>A writer that makes one step of its own wherever the sender lets it, if it can.\<close>

definition writer_try :: "('r, 'c) rb_lib \<Rightarrow> conn_config \<Rightarrow> w_event \<Rightarrow> ('r, 'c) dp \<Rightarrow> ('r, 'c) dp" where
  "writer_try L config e d = (case writer_exec L config e d of None \<Rightarrow> d | Some d' \<Rightarrow> d')"

lemma writer_try_env: "writer_env L config (writer_try L config e)"
  unfolding writer_env_def
proof
  fix d
  show "\<exists>es. writer_run L config es d = Some (writer_try L config e d)"
    by (cases "writer_exec L config e d")
      (auto simp: writer_try_def intro: exI [of _ "[]"] exI [of _ "[e]"])
qed

lemma call_grows: "writer_env L config env \<Longrightarrow> call_relation env logs_grow"
proof unfold_locales
  fix d
  assume "writer_env L config env"
  then show "logs_grow d (env d)" unfolding writer_env_def by (metis writer_run_grows)
qed (auto simp: logs_grow_def)

interpretation one_step: call_relation "writer_try L config e" logs_grow for L config e
  by (rule call_grows [OF writer_try_env])

text \<open>A writer that has ended stays as it is.\<close>

lemma call_quiet:
  "writer_env L config env \<Longrightarrow> \<not> writer_live p \<Longrightarrow> call_relation env (\<lambda>d d'. w_pc d = p \<longrightarrow> w_pc d' = p)"
  by unfold_locales (auto simp: dead_env)

section \<open>Refinement\<close>

definition stream_of :: "msg_sender option \<times> ('r, 'c) dp \<Rightarrow> byte_stream" where
  "stream_of st = \<lparr>bs_sent = sent (snd st), bs_left = out (snd st), bs_closed = (fst st = None),
     bs_fin = (w_pc (snd st) = W_done (Inr ()))\<rparr>"

lemma stream_sim:
  assumes "bs_sent t = bs_sent s @ xs" and "bs_left t = bs_left s @ ys" and "bs_sent t = bs_left t @ rest"
    and "bs_closed s \<longrightarrow> xs = [] \<and> bs_closed t" and "\<not> bs_fin s"
    and "bs_fin t \<longrightarrow> bs_closed t \<and> bs_left t = bs_sent t"
  shows "stream_step\<^sup>*\<^sup>* s t"
proof -
  let ?a = "s\<lparr>bs_sent := bs_sent t\<rparr>"
  let ?b = "?a\<lparr>bs_left := bs_left t\<rparr>"
  let ?c = "?b\<lparr>bs_closed := bs_closed t\<rparr>"
  have "stream_step\<^sup>*\<^sup>* s ?a"
    using assms(1,4) stream_send [of s xs] by (cases "bs_closed s") auto
  also have "stream_step ?a ?b" using stream_leave [of ?a ys rest] assms(2,3,5) by simp
  also have "stream_step\<^sup>*\<^sup>* ?b ?c"
    using assms(4) stream_close [of ?b] by (cases "bs_closed s"; cases "bs_closed t"; cases s) auto
  also have "stream_step\<^sup>*\<^sup>* ?c t"
    using assms(5,6) stream_fin [of ?c] by (cases "bs_fin t"; cases t; cases s) auto
  finally show ?thesis .
qed

lemma fin_is_final: "dp_step L config (s, d) st' \<Longrightarrow> w_pc d = W_done (Inr ()) \<Longrightarrow> s = None \<Longrightarrow> False"
  by (erule dp_step.cases) (auto simp: dead_exec)

lemma dp_step_grows:
  assumes "dp_step L config (s, d) (s', d')"
  shows "logs_grow d d'" and "s = None \<Longrightarrow> s' = None \<and> sent d' = sent d"
proof -
  show "logs_grow d d'"
    using assms
  proof (cases rule: dp_step.cases)
    case (step_writer e)
    from writer_exec_grows [OF step_writer(2)] show ?thesis by (auto simp: logs_grow_def)
  next
    case (step_call env c x x')
    then show ?thesis by (intro call_relation.exec_call_rel [OF call_grows])
  next
    case (step_drop env x)
    then show ?thesis by (simp add: call_relation.drop_sender_rel [OF call_grows])
  qed
  show "s = None \<Longrightarrow> s' = None \<and> sent d' = sent d"
    using assms by (cases rule: dp_step.cases) (auto dest: writer_exec_grows)
qed

lemma dp_step_simulated:
  assumes "rb_laws L V" and "dp_reach L config (s, d)" and "dp_step L config (s, d) (s', d')"
  shows "stream_step\<^sup>*\<^sup>* (stream_of (s, d)) (stream_of (s', d'))"
proof -
  from dp_step_grows(1) [OF assms(3)] obtain xs ys where
    g: "sent d' = sent d @ xs" "out d' = out d @ ys" by (auto simp: logs_grow_def)
  note reach' = reach_step [OF assms(2,3)]
  from dp_inv_in_order [OF sys_invD(1) [OF assms(1) reach']] obtain rest where rest: "sent d' = out d' @ rest" by blast
  have "w_pc d \<noteq> W_done (Inr ())"
    using fin_is_final [OF assms(3)] writer_ok_complete [OF assms(1,2)] by blast
  moreover have "w_pc d' = W_done (Inr ()) \<longrightarrow> s' = None \<and> out d' = sent d'"
    using writer_ok_complete [OF assms(1) reach'] by blast
  moreover have "s = None \<longrightarrow> xs = [] \<and> s' = None" using dp_step_grows(2) [OF assms(3)] g(1) by auto
  ultimately show ?thesis
    by (intro stream_sim [of _ _ xs ys rest]) (simp_all add: stream_of_def g(1) g(2) rest [unfolded g])
qed

lemma dp_init_stream: "dp_init L st \<Longrightarrow> stream_of st = stream_new"
  by (auto simp: dp_init_def stream_of_def stream_new_def make_sender_def world.defs split: sum.splits)

interpretation stream_refinement:
  simulation "\<lambda>st. rb_laws L V \<and> dp_init L st" "dp_step L config" "\<lambda>st. rb_laws L V \<and> dp_reach L config st"
    "\<lambda>s. s = stream_new" stream_step stream_of
  for L :: "('r, 'c) rb_lib" and V config
proof unfold_locales
  fix st st' :: "msg_sender option \<times> ('r, 'c) dp"
  assume "rb_laws L V \<and> dp_reach L config st" and "dp_step L config st st'"
  then show "stream_step\<^sup>*\<^sup>* (stream_of st) (stream_of st')" by (cases st; cases st') (auto intro: dp_step_simulated)
qed (auto intro: reach.intros dp_init_stream)

text \<open>What the specification keeps along any sequence of its steps.\<close>

lemma stream_steps_keep:
  assumes "stream_step\<^sup>*\<^sup>* s t"
  shows "(\<exists>xs. bs_sent t = bs_sent s @ xs) \<and> (\<exists>ys. bs_left t = bs_left s @ ys) \<and>
    (bs_closed s \<longrightarrow> bs_closed t \<and> bs_sent t = bs_sent s) \<and> (bs_fin s \<and> bs_closed s \<longrightarrow> bs_fin t \<and> bs_left t = bs_left s)"
  using assms
proof (induction rule: rtranclp_induct)
  case (step t u)
  from step(2) step.IH show ?case by cases auto
qed auto

text \<open>C5: the data path implements a byte stream, step by step.  From every reachable state of sender and
  writer, whatever the two do next, in any interleaving, is a sequence of steps of the specification: bytes
  are appended to what was sent and leave in that order; once the sender is dropped nothing is handed over
  any more; and when the socket has been shut down with \<open>Ok\<close>, the sender was dropped before, every byte has
  left, and nothing leaves afterwards.\<close>

theorem data_path_refines_stream:
  assumes "rb_laws L V" and "dp_reach L config st" and "(dp_step L config)\<^sup>*\<^sup>* st st'"
  shows "stream_reach (stream_of st) \<and> stream_step\<^sup>*\<^sup>* (stream_of st) (stream_of st') \<and>
    (\<exists>xs ys rest. sent (snd st') = sent (snd st) @ xs \<and> out (snd st') = out (snd st) @ ys \<and>
       sent (snd st') = out (snd st') @ rest) \<and>
    (fst st = None \<longrightarrow> fst st' = None \<and> sent (snd st') = sent (snd st)) \<and>
    (w_pc (snd st) = W_done (Inr ()) \<longrightarrow> fst st = None \<and> out (snd st) = sent (snd st) \<and> out (snd st') = out (snd st))"
proof -
  have "(\<lambda>st. rb_laws L V \<and> dp_init L st) = dp_init L" using assms(1) by simp
  with assms(2) have reach: "stream_reach (stream_of st)" using stream_refinement.reach_abs [of L V config st] by simp
  have steps: "stream_step\<^sup>*\<^sup>* (stream_of st) (stream_of st')"
    using stream_refinement.steps_abs [OF assms(3)] assms(1,2) by blast
  have ok: "stream_ok (stream_of st)" "stream_ok (stream_of st')"
    using stream_system.reach_inv [OF reach] stream_system.reach_inv [OF reach_steps [OF steps reach]] by simp_all
  from stream_steps_keep [OF steps] ok reach steps show ?thesis by (auto simp: stream_of_def stream_ok_def)
qed

theorem data_path_refines_stream_witness:
  "\<exists>st st'. dp_reach list_lib demo_config st \<and> (dp_step list_lib demo_config)\<^sup>*\<^sup>* st st' \<and>
     stream_step\<^sup>*\<^sup>* (stream_of st) (stream_of st') \<and>
     stream_of st = \<lparr>bs_sent = [1, 2, 3], bs_left = [], bs_closed = True, bs_fin = False\<rparr> \<and>
     stream_of st' = \<lparr>bs_sent = [1, 2, 3], bs_left = [1, 2, 3], bs_closed = True, bs_fin = True\<rparr>"
proof -
  let ?d = "demo_dp [1, 2, 3] (True, False) ([], True, False) 3 [1, 2, 3] (W_write 0 [1, 2] False) []"
  let ?d' = "demo_dp [] (True, True) ([], True, True) 3 [1, 2, 3] (W_done (Inr ())) [1, 2, 3]"
  let ?st = "(None :: msg_sender option, ?d)" and ?st' = "(None :: msg_sender option, ?d')"
  have run: "(dp_step list_lib demo_config)\<^sup>*\<^sup>* ?st ?st'" by (rule writer_run_steps [OF demo_drain_run])
  have "stream_of ?st = \<lparr>bs_sent = [1, 2, 3], bs_left = [], bs_closed = True, bs_fin = False\<rparr>"
    "stream_of ?st' = \<lparr>bs_sent = [1, 2, 3], bs_left = [1, 2, 3], bs_closed = True, bs_fin = True\<rparr>"
    by (simp_all add: stream_of_def demo_dp_def)
  with data_path_refines_stream [OF list_lib_laws demo_dropped run] demo_dropped run show ?thesis by blast
qed

end
