(* ===== verification/Conn_Handle.thy ===== *)
theory Conn_Handle
  imports Conn Msg_Sender
begin

text \<open>
  The model of \<open>src/conn_handle.rs\<close>: the task that carries a connection from the \<open>OnConnect\<close> callback
  through the join of its reader and writer to the \<open>OnConnectionClose\<close> callback.

  The task is a state machine over its await points.  One step takes an event, what the runtime and the
  other threads did: the callback returned, the configuration channel has an answer, a branch of the
  \<open>select!\<close> was taken, a child task ended, the user called a method of the connection handle.  An event
  that is impossible gives \<open>None\<close>; \<open>tokio::select!\<close> without \<open>biased\<close> takes any ready branch, so the
  branches are separate events.  The map of live connections is shared with the other tasks and is
  passed in and out.  \<open>calls\<close> records the callbacks the task has made, in order; the code has no such
  field.
\<close>

section \<open>Callbacks\<close>

datatype 'a conn_state =
    OnConnect msg_sender "'a conn"
  | OnRemoteClose 'a 'a
  | OnConnectionClose 'a 'a
  | OnListenError 'a io_error
  | OnConnectError 'a io_error

section \<open>Child tasks\<close>

text \<open>How a child ended: with its value, or cancelled or panicked (a \<open>JoinError\<close>).\<close>

datatype join_result = Join_ok "unit io_result" | Join_error

text \<open>A child and its join handle; \<open>Running\<close> has whether \<open>abort\<close> was called.\<close>

datatype child = Not_spawned | Running bool | Finished join_result | Joined join_result

fun child_abort :: "child \<Rightarrow> child" where
  "child_abort (Running _) = Running True"
| "child_abort c = c"

text \<open>Polling the join handle; polling it again after it was ready panics.\<close>

fun join_poll :: "child \<Rightarrow> join_result poll outcome \<times> child" where
  "join_poll (Finished r) = (Val (Ready r), Joined r)"
| "join_poll (Joined r) = (Panic ''JoinHandle polled after completion'', Joined r)"
| "join_poll c = (Val Pending, c)"

section \<open>The connection task\<close>

text \<open>\<open>CT_join\<close> has \<open>writer_stopped\<close> and \<open>reader_stopped\<close>.\<close>

datatype ct_pc =
    CT_spawned | CT_call | CT_wait | CT_join bool bool | CT_done | CT_panicked string | CT_cancelled

text \<open>The configuration channel: nothing sent yet, a value sent, or the sender dropped.\<close>

datatype 'm cfg_chan = Cfg_empty | Cfg_value 'm conn_config | Cfg_closed

record ('a, 'm) conn_task =
  ct_pc :: ct_pc
  ct_id :: nat
  ct_local :: 'a
  ct_peer :: 'a
  ct_conn :: "'a conn option"
  cfg :: "'m cfg_chan"
  w_child :: child
  r_child :: child
  started :: "('m \<times> conn_config) option"
  calls :: "'a conn_state list"

text \<open>\<open>k\<close> names the channels of this connection; the sender is on the first ring of its own chain.\<close>

definition handle_connection :: "nat \<Rightarrow> 'a \<Rightarrow> 'a \<Rightarrow> ('a, 'm) conn_task" where
  "handle_connection k la pa =
     \<lparr>ct_pc = CT_spawned, ct_id = k, ct_local = la, ct_peer = pa, ct_conn = Some (conn_new k la pa),
      cfg = Cfg_empty, w_child = Not_spawned, r_child = Not_spawned, started = None, calls = []\<rparr>"

text \<open>The receiver of the configuration lives in \<open>wait_for_start\<close>.\<close>

definition cfg_rx_alive :: "('a, 'm) conn_task \<Rightarrow> bool" where
  "cfg_rx_alive t \<longleftrightarrow> ct_pc t = CT_spawned \<or> ct_pc t = CT_call \<or> ct_pc t = CT_wait"

text \<open>The end of the task, after \<open>wait_for_start\<close> or the join; \<open>res\<close> is what the callback does.\<close>

definition connection_close ::
  "(string + unit) outcome \<Rightarrow> ('a, 'm) conn_task \<Rightarrow> ('a, 'm) conn_task" where
  "connection_close res t =
     t\<lparr>calls := calls t @ [OnConnectionClose (ct_local t) (ct_peer t)],
       ct_pc := (case res of Val _ \<Rightarrow> CT_done | Panic m \<Rightarrow> CT_panicked m)\<rparr>"

text \<open>The first poll calls \<open>on_conn\<close> with \<open>OnConnect\<close>, which hands out the sender and the handle; when the
  callback returns, its error ends the connection.\<close>

definition wait_for_start_call :: "('a, 'm) conn_task \<Rightarrow> ('a, 'm) conn_task" where
  "wait_for_start_call t =
     t\<lparr>calls := calls t @ [OnConnect \<lparr>ring_buf = 0\<rparr> (conn_new (ct_id t) (ct_local t) (ct_peer t))],
       ct_pc := CT_call\<rparr>"

definition wait_for_start_return ::
  "(string + unit) outcome \<Rightarrow> (string + unit) outcome \<Rightarrow> ('a, 'm) conn_task \<Rightarrow> ('a, 'm) conn_task" where
  "wait_for_start_return res res_close t =
     (case res of
        Panic m \<Rightarrow> t\<lparr>ct_pc := CT_panicked m\<rparr>
      | Val (Inl _) \<Rightarrow> connection_close res_close t
      | Val (Inr _) \<Rightarrow> t\<lparr>ct_pc := CT_wait\<rparr>)"

text \<open>A poll of the configuration: pending, dropped, or received; then the children are spawned and
  the stop channel is registered.\<close>

definition wait_for_start_config ::
  "(string + unit) outcome \<Rightarrow> ('a, 'm) conn_task \<times> 'a connections \<Rightarrow> ('a, 'm) conn_task \<times> 'a connections" where
  "wait_for_start_config res_close tc =
     (case tc of (t, conns) \<Rightarrow>
       case cfg t of
         Cfg_empty \<Rightarrow> (t, conns)
       | Cfg_closed \<Rightarrow> (connection_close res_close t, conns)
       | Cfg_value on_msg config \<Rightarrow>
           (t\<lparr>w_child := Running False, r_child := Running False, started := Some (on_msg, config),
              ct_pc := CT_join False False\<rparr>,
            conns((ct_local t, ct_peer t) \<mapsto> ct_id t)))"

text \<open>Leaving the join: the registration is removed and the connection is closed.\<close>

definition join_break ::
  "(string + unit) outcome \<Rightarrow> ('a, 'm) conn_task \<times> 'a connections \<Rightarrow> ('a, 'm) conn_task \<times> 'a connections" where
  "join_break res_close tc =
     (case tc of (t, conns) \<Rightarrow> (connection_close res_close t, conns((ct_local t, ct_peer t) := None)))"

text \<open>\<open>stop.closed()\<close>: the map no longer holds the receiver.\<close>

definition stop_closed :: "('a, 'm) conn_task \<Rightarrow> 'a connections \<Rightarrow> bool" where
  "stop_closed t conns \<longleftrightarrow> conns (ct_local t, ct_peer t) \<noteq> Some (ct_id t)"

definition join_stop ::
  "(string + unit) outcome \<Rightarrow> ('a, 'm) conn_task \<times> 'a connections \<Rightarrow>
     (('a, 'm) conn_task \<times> 'a connections) option" where
  "join_stop res_close tc =
     (case tc of (t, conns) \<Rightarrow>
       if stop_closed t conns
       then Some (join_break res_close
         (t\<lparr>w_child := child_abort (w_child t), r_child := child_abort (r_child t)\<rparr>, conns))
       else None)"

text \<open>The two branches on the join handles; a branch whose condition is false is not polled.\<close>

definition join_writer ::
  "bool \<Rightarrow> bool \<Rightarrow> (string + unit) outcome \<Rightarrow> ('a, 'm) conn_task \<times> 'a connections \<Rightarrow>
     (('a, 'm) conn_task \<times> 'a connections) option" where
  "join_writer writer_stopped reader_stopped res_close tc =
     (case tc of (t, conns) \<Rightarrow>
       if writer_stopped then None
       else case join_poll (w_child t) of
         (Val Pending, _) \<Rightarrow> None
       | (Panic m, c) \<Rightarrow> Some (t\<lparr>w_child := c, ct_pc := CT_panicked m\<rparr>, conns)
       | (Val (Ready (Join_ok (Inr _))), c) \<Rightarrow>
           let t1 = t\<lparr>w_child := c\<rparr> in
           Some (if reader_stopped then join_break res_close (t1, conns)
                 else (t1\<lparr>ct_pc := CT_join True reader_stopped\<rparr>, conns))
       | (Val (Ready _), c) \<Rightarrow>
           Some (join_break res_close (t\<lparr>w_child := c, r_child := child_abort (r_child t)\<rparr>, conns)))"

text \<open>\<open>res_remote\<close> is what the \<open>OnRemoteClose\<close> callback does; its error is ignored.\<close>

definition join_reader ::
  "bool \<Rightarrow> bool \<Rightarrow> (string + unit) outcome \<Rightarrow> (string + unit) outcome \<Rightarrow>
     ('a, 'm) conn_task \<times> 'a connections \<Rightarrow> (('a, 'm) conn_task \<times> 'a connections) option" where
  "join_reader writer_stopped reader_stopped res_remote res_close tc =
     (case tc of (t, conns) \<Rightarrow>
       if reader_stopped then None
       else case join_poll (r_child t) of
         (Val Pending, _) \<Rightarrow> None
       | (Panic m, c) \<Rightarrow> Some (t\<lparr>r_child := c, ct_pc := CT_panicked m\<rparr>, conns)
       | (Val (Ready (Join_ok (Inr _))), c) \<Rightarrow>
           let t1 = t\<lparr>r_child := c, calls := calls t @ [OnRemoteClose (ct_local t) (ct_peer t)]\<rparr> in
           Some (case res_remote of
             Panic m \<Rightarrow> (t1\<lparr>ct_pc := CT_panicked m\<rparr>, conns)
           | Val _ \<Rightarrow>
               if writer_stopped then join_break res_close (t1, conns)
               else (t1\<lparr>ct_pc := CT_join writer_stopped True\<rparr>, conns))
       | (Val (Ready _), c) \<Rightarrow>
           Some (join_break res_close (t\<lparr>r_child := c, w_child := child_abort (w_child t)\<rparr>, conns)))"

section \<open>Events\<close>

datatype 'm ct_event =
    Ct_first_poll
  | Ct_returned "(string + unit) outcome" "(string + unit) outcome"
  | Ct_config "(string + unit) outcome"
  | Ct_stop "(string + unit) outcome"
  | Ct_writer "(string + unit) outcome"
  | Ct_reader "(string + unit) outcome" "(string + unit) outcome"
  | Ct_cancel
  | Child_writer_ends join_result
  | Child_reader_ends join_result
  | User_start 'm conn_config
  | User_close
  | User_drop

text \<open>A child ends with the value of its function, or with a \<open>JoinError\<close> where it was aborted or has panicked.  The
  task cannot tell when; here any result is possible, and \<open>Connection\<close> and \<open>Program\<close> tie it to the child.\<close>

definition child_ends :: "join_result \<Rightarrow> child \<Rightarrow> child option" where
  "child_ends r c = (case c of Running _ \<Rightarrow> Some (Finished r) | _ \<Rightarrow> None)"

text \<open>The task can be dropped by the runtime only where it awaits.\<close>

definition ct_awaits :: "('a, 'm) conn_task \<Rightarrow> bool" where
  "ct_awaits t \<longleftrightarrow> (case ct_pc t of CT_spawned \<Rightarrow> True | CT_wait \<Rightarrow> True | CT_join _ _ \<Rightarrow> True | _ \<Rightarrow> False)"

text \<open>The user's calls on the handle, with their effect on the configuration channel; the handle is
  given out by the first poll and exists until it is dropped.\<close>

definition user_start ::
  "'m \<Rightarrow> conn_config \<Rightarrow> 'a conn \<Rightarrow> ('a, 'm) conn_task \<Rightarrow> ('a, 'm) conn_task" where
  "user_start on_msg config c t =
     (case start_connection (cfg_rx_alive t) on_msg config c of
        (_, c', Some (_, m, k)) \<Rightarrow> t\<lparr>ct_conn := Some c', cfg := Cfg_value m k\<rparr>
      | (_, c', None) \<Rightarrow> t\<lparr>ct_conn := Some c'\<rparr>)"

definition user_close ::
  "'a conn \<Rightarrow> ('a, 'm) conn_task \<times> 'a connections \<Rightarrow> ('a, 'm) conn_task \<times> 'a connections" where
  "user_close c tc =
     (case tc of (t, conns) \<Rightarrow>
       case conn_close c conns of
         (_, c', Some _, conns') \<Rightarrow> (t\<lparr>ct_conn := Some c', cfg := Cfg_closed\<rparr>, conns')
       | (_, c', None, conns') \<Rightarrow> (t\<lparr>ct_conn := Some c'\<rparr>, conns'))"

text \<open>Dropping the handle.\<close>

definition user_drop :: "'a conn \<Rightarrow> ('a, 'm) conn_task \<Rightarrow> ('a, 'm) conn_task" where
  "user_drop c t =
     (case conn_drop c of
        Some _ \<Rightarrow> t\<lparr>ct_conn := None, cfg := Cfg_closed\<rparr>
      | None \<Rightarrow> t\<lparr>ct_conn := None\<rparr>)"

definition user_handle :: "('a, 'm) conn_task \<Rightarrow> 'a conn option" where
  "user_handle t = (if calls t = [] then None else ct_conn t)"

fun ct_exec ::
  "'m ct_event \<Rightarrow> ('a, 'm) conn_task \<times> 'a connections \<Rightarrow>
     (('a, 'm) conn_task \<times> 'a connections) option" where
  "ct_exec Ct_first_poll (t, conns) =
     (if ct_pc t = CT_spawned then Some (wait_for_start_call t, conns) else None)"
| "ct_exec (Ct_returned res res_close) (t, conns) =
     (if ct_pc t = CT_call then Some (wait_for_start_return res res_close t, conns) else None)"
| "ct_exec (Ct_config res_close) (t, conns) =
     (if ct_pc t = CT_wait then Some (wait_for_start_config res_close (t, conns)) else None)"
| "ct_exec (Ct_stop res_close) (t, conns) =
     (case ct_pc t of CT_join _ _ \<Rightarrow> join_stop res_close (t, conns) | _ \<Rightarrow> None)"
| "ct_exec (Ct_writer res_close) (t, conns) =
     (case ct_pc t of CT_join ws rs \<Rightarrow> join_writer ws rs res_close (t, conns) | _ \<Rightarrow> None)"
| "ct_exec (Ct_reader res_remote res_close) (t, conns) =
     (case ct_pc t of CT_join ws rs \<Rightarrow> join_reader ws rs res_remote res_close (t, conns) | _ \<Rightarrow> None)"
| "ct_exec Ct_cancel (t, conns) =
     (if ct_awaits t then Some (t\<lparr>ct_pc := CT_cancelled\<rparr>, conns) else None)"
| "ct_exec (Child_writer_ends r) (t, conns) =
     map_option (\<lambda>c. (t\<lparr>w_child := c\<rparr>, conns)) (child_ends r (w_child t))"
| "ct_exec (Child_reader_ends r) (t, conns) =
     map_option (\<lambda>c. (t\<lparr>r_child := c\<rparr>, conns)) (child_ends r (r_child t))"
| "ct_exec (User_start m k) (t, conns) = map_option (\<lambda>c. (user_start m k c t, conns)) (user_handle t)"
| "ct_exec User_close (t, conns) = map_option (\<lambda>c. user_close c (t, conns)) (user_handle t)"
| "ct_exec User_drop (t, conns) = map_option (\<lambda>c. (user_drop c t, conns)) (user_handle t)"

text \<open>A run over a list of events.\<close>

fun ct_run ::
  "'m ct_event list \<Rightarrow> ('a, 'm) conn_task \<times> 'a connections \<Rightarrow>
     (('a, 'm) conn_task \<times> 'a connections) option" where
  "ct_run [] tc = Some tc"
| "ct_run (e # es) tc = (case ct_exec e tc of None \<Rightarrow> None | Some tc' \<Rightarrow> ct_run es tc')"

text \<open>The rest of the program may change the map of connections, but no other code has a receiver of
  this connection's stop channel to put into it.\<close>

inductive conn_step ::
  "('a, 'm) conn_task \<times> 'a connections \<Rightarrow> ('a, 'm) conn_task \<times> 'a connections \<Rightarrow> bool" where
  step_task: "ct_exec e tc = Some tc' \<Longrightarrow> conn_step tc tc'"
| step_others: "(\<And>key. conns' key = Some (ct_id t) \<Longrightarrow> conns key = Some (ct_id t)) \<Longrightarrow>
    conn_step (t, conns) (t, conns')"

definition conn_init :: "nat \<Rightarrow> 'a \<Rightarrow> 'a \<Rightarrow> ('a, 'm) conn_task \<times> 'a connections \<Rightarrow> bool" where
  "conn_init k la pa tc \<longleftrightarrow> fst tc = handle_connection k la pa \<and> (\<forall>key. snd tc key \<noteq> Some k)"

abbreviation conn_reach :: "nat \<Rightarrow> 'a \<Rightarrow> 'a \<Rightarrow> ('a, 'm) conn_task \<times> 'a connections \<Rightarrow> bool" where
  "conn_reach k la pa \<equiv> reach (conn_init k la pa) conn_step"

section \<open>Invariant\<close>

abbreviation (input) on_connect :: "nat \<Rightarrow> 'a \<Rightarrow> 'a \<Rightarrow> 'a conn_state" where
  "on_connect k la pa \<equiv> OnConnect \<lparr>ring_buf = 0\<rparr> (conn_new k la pa)"

abbreviation (input) joined_ok :: child where
  "joined_ok \<equiv> Joined (Join_ok (Inr ()))"

text \<open>A child that is still to be joined, and one that can do no more harm.\<close>

fun child_open :: "child \<Rightarrow> bool" where
  "child_open (Running _) = True"
| "child_open (Finished _) = True"
| "child_open _ = False"

definition child_quiet :: "child \<Rightarrow> bool" where
  "child_quiet c \<longleftrightarrow> c \<noteq> Running False"

definition remote_calls :: "('a, 'm) conn_task \<Rightarrow> 'a conn_state list" where
  "remote_calls t = (if r_child t = joined_ok then [OnRemoteClose (ct_local t) (ct_peer t)] else [])"

text \<open>The callbacks so far, the children and the configuration, at each await point.\<close>

definition ct_pc_inv :: "('a, 'm) conn_task \<Rightarrow> bool" where
  "ct_pc_inv t \<longleftrightarrow>
     (let oc = on_connect (ct_id t) (ct_local t) (ct_peer t);
          cc = OnConnectionClose (ct_local t) (ct_peer t);
          unborn = w_child t = Not_spawned \<and> r_child t = Not_spawned \<and> started t = None
      in case ct_pc t of
        CT_spawned \<Rightarrow> calls t = [] \<and> unborn
      | CT_call \<Rightarrow> calls t = [oc] \<and> unborn
      | CT_wait \<Rightarrow> calls t = [oc] \<and> unborn
      | CT_join ws rs \<Rightarrow> calls t = oc # remote_calls t \<and> started t \<noteq> None \<and> \<not> (ws \<and> rs) \<and>
          (if ws then w_child t = joined_ok else child_open (w_child t)) \<and>
          (if rs then r_child t = joined_ok else child_open (r_child t))
      | CT_done \<Rightarrow> calls t = oc # remote_calls t @ [cc] \<and> child_quiet (w_child t) \<and> child_quiet (r_child t) \<and>
          (started t = None \<longrightarrow> unborn)
      | CT_panicked _ \<Rightarrow> calls t = oc # remote_calls t \<or> calls t = oc # remote_calls t @ [cc]
      | CT_cancelled \<Rightarrow> calls t = [] \<or> calls t = oc # remote_calls t)"

definition ct_handle_inv :: "('a, 'm) conn_task \<Rightarrow> bool" where
  "ct_handle_inv t \<longleftrightarrow>
     (\<forall>c. ct_conn t = Some c \<longrightarrow> conn_inv c \<and> local_addr c = ct_local t \<and> peer_addr c = ct_peer t) \<and>
     (cfg t \<noteq> Cfg_empty \<longrightarrow> (\<forall>c. ct_conn t = Some c \<longrightarrow> consumed c)) \<and>
     (cfg_rx_alive t \<longrightarrow> cfg t = Cfg_empty \<longrightarrow> (\<exists>c. ct_conn t = Some c \<and> \<not> consumed c)) \<and>
     (\<forall>m k. started t = Some (m, k) \<longrightarrow> cfg t = Cfg_value m k)"

definition ct_inv ::
  "nat \<Rightarrow> 'a \<Rightarrow> 'a \<Rightarrow> ('a, 'm) conn_task \<times> 'a connections \<Rightarrow> bool" where
  "ct_inv k la pa tc \<longleftrightarrow>
     (case tc of (t, conns) \<Rightarrow>
       ct_id t = k \<and> ct_local t = la \<and> ct_peer t = pa \<and> ct_pc_inv t \<and> ct_handle_inv t \<and>
       (\<forall>key. conns key = Some k \<longrightarrow> key = (la, pa) \<and> started t \<noteq> None \<and> ct_pc t \<noteq> CT_done))"

lemmas ct_inv_defs = ct_inv_def ct_pc_inv_def ct_handle_inv_def remote_calls_def child_quiet_def

lemma child_quiet_simps [simp]:
  "child_quiet (Joined r)" "child_quiet (Finished r)" "child_quiet Not_spawned"
  by (simp_all add: child_quiet_def)

lemma child_abort_simps [simp]:
  "child_quiet (child_abort c)" "child_abort c = joined_ok \<longleftrightarrow> c = joined_ok"
  "child_abort c = Not_spawned \<longleftrightarrow> c = Not_spawned"
  by (cases c; simp add: child_quiet_def)+

lemma connection_close_simps [simp]:
  "ct_id (connection_close r t) = ct_id t" "ct_local (connection_close r t) = ct_local t"
  "ct_peer (connection_close r t) = ct_peer t" "ct_conn (connection_close r t) = ct_conn t"
  "cfg (connection_close r t) = cfg t" "started (connection_close r t) = started t"
  "w_child (connection_close r t) = w_child t" "r_child (connection_close r t) = r_child t"
  "calls (connection_close r t) = calls t @ [OnConnectionClose (ct_local t) (ct_peer t)]"
  "\<not> cfg_rx_alive (connection_close r t)" "ct_pc (connection_close (Val v) t) = CT_done"
  by (simp_all add: connection_close_def cfg_rx_alive_def split: outcome.splits)

text \<open>Closing keeps the invariant wherever the callbacks so far and the children allow it.\<close>

lemma connection_close_inv:
  assumes "calls t = on_connect (ct_id t) (ct_local t) (ct_peer t) # remote_calls t"
    and "child_quiet (w_child t)" and "child_quiet (r_child t)"
    and "started t = None \<longrightarrow> w_child t = Not_spawned \<and> r_child t = Not_spawned"
  shows "ct_pc_inv (connection_close res t)"
  using assms by (cases res) (auto simp: ct_pc_inv_def connection_close_def remote_calls_def)

lemma connection_close_handle_inv: "ct_handle_inv t \<Longrightarrow> ct_handle_inv (connection_close res t)"
  by (simp add: ct_handle_inv_def)

lemma first_poll_inv:
  assumes "ct_inv k la pa (t, conns)" and "ct_pc t = CT_spawned"
  shows "ct_inv k la pa (wait_for_start_call t, conns)"
  using assms by (auto simp: ct_inv_defs wait_for_start_call_def cfg_rx_alive_def)

lemma close_unstarted_inv:
  assumes "ct_inv k la pa (t, conns)" and "ct_pc t = CT_call \<or> ct_pc t = CT_wait"
  shows "ct_inv k la pa (connection_close res t, conns)"
proof -
  have "ct_pc_inv (connection_close res t)"
    using assms by (intro connection_close_inv) (auto simp: ct_inv_defs)
  moreover have "conns key \<noteq> Some k" for key
    using assms by (cases key) (auto simp: ct_inv_def ct_pc_inv_def)
  ultimately show ?thesis using assms(1) connection_close_handle_inv [of t res] by (simp add: ct_inv_def)
qed

lemma returned_inv:
  assumes "ct_inv k la pa (t, conns)" and "ct_pc t = CT_call"
  shows "ct_inv k la pa (wait_for_start_return res res_close t, conns)"
proof -
  have "ct_inv k la pa (t\<lparr>ct_pc := CT_wait\<rparr>, conns)" "ct_inv k la pa (t\<lparr>ct_pc := CT_panicked m\<rparr>, conns)" for m
    using assms by (auto simp: ct_inv_defs cfg_rx_alive_def)
  with close_unstarted_inv [OF assms(1), of res_close] assms(2) show ?thesis
    by (auto simp: wait_for_start_return_def split: outcome.splits sum.splits)
qed

lemma config_inv:
  assumes "ct_inv k la pa (t, conns)" and "ct_pc t = CT_wait"
  shows "ct_inv k la pa (wait_for_start_config res_close (t, conns))"
proof (cases "cfg t")
  case Cfg_closed
  with close_unstarted_inv [OF assms(1), of res_close] assms(2) show ?thesis
    by (simp add: wait_for_start_config_def)
next
  case (Cfg_value m c)
  with assms show ?thesis
    by (auto simp: ct_inv_defs wait_for_start_config_def cfg_rx_alive_def)
qed (use assms in \<open>simp add: wait_for_start_config_def\<close>)

lemma join_break_inv:
  assumes "ct_inv k la pa (t, conns)" and "ct_pc t = CT_join ws rs"
    and "ct_id t' = k" "ct_local t' = la" "ct_peer t' = pa" "ct_handle_inv t'"
    and "calls t' = on_connect k la pa # remote_calls t'" "started t' = started t"
    and "child_quiet (w_child t')" "child_quiet (r_child t')"
  shows "ct_inv k la pa (join_break res (t', conns))"
proof -
  have "started t' \<noteq> None" using assms(1,2,8) by (simp add: ct_inv_def ct_pc_inv_def)
  then have "ct_pc_inv (connection_close res t')" using assms by (intro connection_close_inv) auto
  with assms connection_close_handle_inv [of t' res] show ?thesis
    by (auto simp: ct_inv_def join_break_def)
qed

lemma ct_handle_inv_children [simp]:
  "ct_handle_inv (t\<lparr>w_child := c\<rparr>) = ct_handle_inv t" "ct_handle_inv (t\<lparr>r_child := c\<rparr>) = ct_handle_inv t"
  "ct_handle_inv (t\<lparr>calls := cs\<rparr>) = ct_handle_inv t"
  by (simp_all add: ct_handle_inv_def cfg_rx_alive_def)

lemma join_facts:
  assumes "ct_inv k la pa (t, conns)" and "ct_pc t = CT_join ws rs"
  shows "ct_id t = k" "ct_local t = la" "ct_peer t = pa" "ct_handle_inv t"
    and "calls t = on_connect k la pa # remote_calls t" "started t \<noteq> None" "\<not> (ws \<and> rs)"
    and "if ws then w_child t = joined_ok else child_open (w_child t)"
    and "if rs then r_child t = joined_ok else child_open (r_child t)"
  using assms by (auto simp: ct_inv_def ct_pc_inv_def)

lemma join_stop_inv:
  assumes "ct_inv k la pa (t, conns)" and "ct_pc t = CT_join ws rs"
    and "join_stop res (t, conns) = Some tc'"
  shows "ct_inv k la pa tc'"
proof -
  note f = join_facts [OF assms(1,2)]
  let ?t = "t\<lparr>w_child := child_abort (w_child t), r_child := child_abort (r_child t)\<rparr>"
  have "ct_inv k la pa (join_break res (?t, conns))"
    using f by (intro join_break_inv [OF assms(1,2)]) (simp_all add: remote_calls_def)
  with assms(3) show ?thesis by (auto simp: join_stop_def split: if_splits)
qed

lemma join_step_inv:
  assumes "ct_inv k la pa (t, conns)" and "ct_pc t = CT_join ws rs"
    and "ct_id t' = k" "ct_local t' = la" "ct_peer t' = pa" "ct_conn t' = ct_conn t" "cfg t' = cfg t"
    and "started t' = started t" "calls t' = on_connect k la pa # remote_calls t'" "ct_pc t' = CT_join ws' rs'"
    and "\<not> (ws' \<and> rs')" "if ws' then w_child t' = joined_ok else child_open (w_child t')"
    and "if rs' then r_child t' = joined_ok else child_open (r_child t')"
  shows "ct_inv k la pa (t', conns)"
  using assms by (auto simp: ct_inv_def ct_pc_inv_def ct_handle_inv_def cfg_rx_alive_def)

lemma join_writer_inv:
  assumes "ct_inv k la pa (t, conns)" and "ct_pc t = CT_join ws rs"
    and "join_writer ws rs res (t, conns) = Some tc'"
  shows "ct_inv k la pa tc'"
proof -
  note f = join_facts [OF assms(1,2)]
  from assms(3) f(8) obtain r where ws: "\<not> ws" and w: "w_child t = Finished r"
    by (cases "w_child t") (auto simp: join_writer_def split: if_splits)
  show ?thesis
  proof (cases "r = Join_ok (Inr ())")
    case True
    let ?t = "t\<lparr>w_child := joined_ok\<rparr>"
    have "ct_inv k la pa (join_break res (?t, conns))" if rs
      using f that by (intro join_break_inv [OF assms(1,2)]) (simp_all add: remote_calls_def)
    moreover have "ct_inv k la pa (?t\<lparr>ct_pc := CT_join True rs\<rparr>, conns)" if "\<not> rs"
      using f that by (intro join_step_inv [OF assms(1,2)]) (auto simp: remote_calls_def)
    ultimately show ?thesis using assms(3) ws w True by (auto simp: join_writer_def Let_def split: if_splits)
  next
    case False
    let ?t = "t\<lparr>w_child := Joined r, r_child := child_abort (r_child t)\<rparr>"
    have "ct_inv k la pa (join_break res (?t, conns))"
      using f by (intro join_break_inv [OF assms(1,2)]) (simp_all add: remote_calls_def)
    with assms(3) ws w False show ?thesis
      by (auto simp: join_writer_def split: join_result.splits sum.splits)
  qed
qed

lemma join_reader_inv:
  assumes "ct_inv k la pa (t, conns)" and "ct_pc t = CT_join ws rs"
    and "join_reader ws rs res_remote res (t, conns) = Some tc'"
  shows "ct_inv k la pa tc'"
proof -
  note f = join_facts [OF assms(1,2)]
  from assms(3) f(9) obtain r where rs: "\<not> rs" and r: "r_child t = Finished r"
    by (cases "r_child t") (auto simp: join_reader_def split: if_splits)
  show ?thesis
  proof (cases "r = Join_ok (Inr ())")
    case True
    let ?t = "t\<lparr>r_child := joined_ok, calls := calls t @ [OnRemoteClose (ct_local t) (ct_peer t)]\<rparr>"
    have calls: "calls ?t = on_connect k la pa # remote_calls ?t"
      using f(5) r by (simp add: remote_calls_def)
    have "ct_inv k la pa (join_break res (?t, conns))" if ws
      using f that calls by (intro join_break_inv [OF assms(1,2)]) simp_all
    moreover have "ct_inv k la pa (?t\<lparr>ct_pc := CT_join ws True\<rparr>, conns)" if "\<not> ws"
      using f that calls by (intro join_step_inv [OF assms(1,2)]) (auto simp: remote_calls_def)
    moreover have "ct_inv k la pa (?t\<lparr>ct_pc := CT_panicked m\<rparr>, conns)" for m
      using assms(1,2) calls f by (auto simp: ct_inv_defs cfg_rx_alive_def)
    ultimately show ?thesis using assms(3) rs r True
      by (auto simp: join_reader_def Let_def split: if_splits outcome.splits)
  next
    case False
    let ?t = "t\<lparr>r_child := Joined r, w_child := child_abort (w_child t)\<rparr>"
    have "ct_inv k la pa (join_break res (?t, conns))"
      using f False r by (intro join_break_inv [OF assms(1,2)]) (simp_all add: remote_calls_def)
    with assms(3) rs r False show ?thesis
      by (auto simp: join_reader_def split: join_result.splits sum.splits)
  qed
qed

lemma cancel_inv:
  assumes "ct_inv k la pa (t, conns)" and "ct_awaits t"
  shows "ct_inv k la pa (t\<lparr>ct_pc := CT_cancelled\<rparr>, conns)"
  using assms by (auto simp: ct_inv_defs ct_awaits_def cfg_rx_alive_def split: ct_pc.splits)

lemma child_ends_pc_inv:
  assumes "ct_pc_inv t"
  shows "w_child t = Running b \<Longrightarrow> ct_pc_inv (t\<lparr>w_child := Finished r\<rparr>)"
    and "r_child t = Running b \<Longrightarrow> ct_pc_inv (t\<lparr>r_child := Finished r\<rparr>)"
  using assms
  by (cases "ct_pc t"; auto simp: ct_pc_inv_def remote_calls_def child_quiet_def split: if_splits)+

lemma child_ends_inv:
  assumes "ct_inv k la pa (t, conns)"
  shows "child_ends r (w_child t) = Some c \<Longrightarrow> ct_inv k la pa (t\<lparr>w_child := c\<rparr>, conns)"
    and "child_ends r (r_child t) = Some c \<Longrightarrow> ct_inv k la pa (t\<lparr>r_child := c\<rparr>, conns)"
  using assms child_ends_pc_inv
  by (auto simp: ct_inv_def child_ends_def split: child.splits)

lemma ct_pc_inv_handle [simp]:
  "ct_pc_inv (t\<lparr>ct_conn := x\<rparr>) = ct_pc_inv t" "ct_pc_inv (t\<lparr>cfg := y\<rparr>) = ct_pc_inv t"
proof -
  have "remote_calls (t\<lparr>ct_conn := x\<rparr>) = remote_calls t" "remote_calls (t\<lparr>cfg := y\<rparr>) = remote_calls t"
    by (simp_all add: remote_calls_def)
  then show "ct_pc_inv (t\<lparr>ct_conn := x\<rparr>) = ct_pc_inv t" "ct_pc_inv (t\<lparr>cfg := y\<rparr>) = ct_pc_inv t"
    by (cases "ct_pc t"; simp add: ct_pc_inv_def)+
qed

text \<open>A step of the user changes the handle, the configuration channel and the map only.\<close>

lemma user_step_inv:
  assumes "ct_inv k la pa (t, conns)" and "ct_handle_inv (t\<lparr>ct_conn := x, cfg := y\<rparr>)"
    and "\<And>key. conns' key = Some k \<Longrightarrow> conns key = Some k"
  shows "ct_inv k la pa (t\<lparr>ct_conn := x, cfg := y\<rparr>, conns')"
  using assms(1,2) assms(3) unfolding ct_inv_def prod.case by simp blast

lemma user_inv:
  assumes "ct_inv k la pa (t, conns)" and "user_handle t = Some c"
  shows "ct_inv k la pa (user_start m g c t, conns)" and "ct_inv k la pa (user_close c (t, conns))"
    and "ct_inv k la pa (user_drop c t, conns)"
proof -
  let ?used = "c\<lparr>consumed := True, inner := None\<rparr>"
  from assms have c: "ct_conn t = Some c" "conn_inv c" "local_addr c = la" "peer_addr c = pa"
    and h: "ct_handle_inv t" and ids: "ct_id t = k" "ct_local t = la" "ct_peer t = pa"
    by (auto simp: ct_inv_def ct_handle_inv_def user_handle_def split: if_splits)
  have unstarted: "started t = None" if "\<not> consumed c"
    using h c(1) that by (cases "started t") (auto simp: ct_handle_inv_def)
  have inner: "inner c = None \<longleftrightarrow> consumed c" using c(2) by (auto simp: conn_inv_def)
  note step = user_step_inv [OF assms(1)]
  have used: "ct_handle_inv (t\<lparr>ct_conn := x, cfg := y\<rparr>)"
    if "\<not> consumed c" "x = Some ?used \<or> x = None" "y \<noteq> Cfg_empty \<or> \<not> cfg_rx_alive t" for x y
    using unstarted [OF that(1)] that c ids
    by (auto simp: ct_handle_inv_def cfg_rx_alive_def conn_inv_def)
  have again: "ct_handle_inv (t\<lparr>ct_conn := x, cfg := cfg t\<rparr>)" if "consumed c" "x = Some c \<or> x = None" for x
    using that h c ids by (auto simp: ct_handle_inv_def cfg_rx_alive_def)
  have same: "c\<lparr>consumed := True, inner := None\<rparr> = c" if "consumed c" using that inner by (cases c) simp
  have "ct_inv k la pa (t\<lparr>ct_conn := Some ?used, cfg := Cfg_value m g\<rparr>, conns)" if "\<not> consumed c"
    by (rule step [OF used [OF that]]) auto
  moreover have "ct_inv k la pa (t\<lparr>ct_conn := Some ?used, cfg := cfg t\<rparr>, conns)"
    if "\<not> consumed c" "\<not> cfg_rx_alive t"
    by (rule step [OF used]) (use that in auto)
  moreover have "ct_inv k la pa (t\<lparr>ct_conn := Some c, cfg := cfg t\<rparr>, conns)" if "consumed c"
    by (rule step [OF again]) (use that in auto)
  ultimately show "ct_inv k la pa (user_start m g c t, conns)"
    unfolding user_start_def start_connection_cases [OF c(2)] by simp
  let ?conns = "conns((local_addr c, peer_addr c) := None)"
  have "ct_inv k la pa (t\<lparr>ct_conn := Some ?used, cfg := Cfg_closed\<rparr>, ?conns)" if "\<not> consumed c"
    by (rule step [OF used [OF that]]) (auto split: if_splits)
  moreover have "ct_inv k la pa (t\<lparr>ct_conn := Some c, cfg := cfg t\<rparr>, ?conns)" if "consumed c"
    by (rule step [OF again]) (use that in \<open>auto split: if_splits\<close>)
  ultimately show "ct_inv k la pa (user_close c (t, conns))"
    unfolding user_close_def prod.case conn_close_cases [OF c(2)] using same by simp
  have "ct_inv k la pa (t\<lparr>ct_conn := None, cfg := Cfg_closed\<rparr>, conns)" if "\<not> consumed c"
    by (rule step [OF used [OF that]]) auto
  moreover have "ct_inv k la pa (t\<lparr>ct_conn := None, cfg := cfg t\<rparr>, conns)" if "consumed c"
    by (rule step [OF again]) (use that in auto)
  ultimately show "ct_inv k la pa (user_drop c t, conns)"
    using inner by (auto simp: user_drop_def conn_drop_def split: option.splits)
qed

lemma ct_exec_inv:
  assumes "ct_inv k la pa tc" and "ct_exec e tc = Some tc'"
  shows "ct_inv k la pa tc'"
proof -
  obtain t conns where tc: "tc = (t, conns)" by fastforce
  note inv = assms(1) [unfolded tc]
  show ?thesis
    using assms(2) first_poll_inv [OF inv] returned_inv [OF inv] config_inv [OF inv] join_stop_inv [OF inv]
      join_writer_inv [OF inv] join_reader_inv [OF inv] cancel_inv [OF inv] child_ends_inv [OF inv]
      user_inv [OF inv]
    by (cases e) (auto simp: tc split: if_splits ct_pc.splits)
qed

interpretation conn_system: invariant_system "conn_init k la pa" conn_step "ct_inv k la pa"
  for k :: nat and la pa :: 'a
proof unfold_locales
  fix tc :: "('a, 'm) conn_task \<times> 'a connections"
  assume "conn_init k la pa tc"
  then show "ct_inv k la pa tc"
    by (auto simp: conn_init_def ct_inv_defs handle_connection_def conn_new_def conn_inv_def)
next
  fix tc tc' :: "('a, 'm) conn_task \<times> 'a connections"
  assume inv: "ct_inv k la pa tc" and "conn_step tc tc'"
  from this(2) show "ct_inv k la pa tc'"
  proof (cases rule: conn_step.cases)
    case (step_task e)
    then show ?thesis by (rule ct_exec_inv [OF inv])
  next
    case (step_others conns' t conns)
    from inv step_others have "ct_id t = k" by (simp add: ct_inv_def)
    with inv step_others show ?thesis unfolding ct_inv_def step_others(1,2) prod.case by blast
  qed
qed

lemma conn_reach_run:
  assumes "conn_reach k la pa tc" and "ct_run es tc = Some tc'"
  shows "conn_reach k la pa tc'"
  using assms
proof (induction es arbitrary: tc)
  case (Cons e es)
  then obtain tc1 where "ct_exec e tc = Some tc1" "ct_run es tc1 = Some tc'" by (auto split: option.splits)
  with Cons.IH Cons.prems(1) show ?case by (blast intro: reach_step conn_step.step_task)
qed simp

section \<open>Properties\<close>

text \<open>A connection between the addresses 1 and 2 on which the properties are exercised.\<close>

definition demo_conn :: "(nat, string) conn_task \<times> nat connections" where
  "demo_conn = (handle_connection 0 1 2, Map.empty)"

definition demo_conn_config :: conn_config where
  "demo_conn_config = \<lparr>write_flush_interval = 1, read_msg_flush_interval = 1, msg_buffer_size = 9000\<rparr>"

lemma demo_conn_reach:
  assumes "ct_run es demo_conn = Some tc"
  shows "conn_reach 0 1 2 tc"
  by (rule conn_reach_run [OF reach_init assms]) (simp add: conn_init_def demo_conn_def)

lemmas ct_eval = demo_conn_def handle_connection_def conn_new_def wait_for_start_call_def
  wait_for_start_return_def wait_for_start_config_def connection_close_def join_break_def join_stop_def
  join_writer_def join_reader_def stop_closed_def user_start_def user_close_def user_drop_def conn_drop_def
  user_handle_def start_connection_def conn_close_def cfg_rx_alive_def ct_awaits_def child_ends_def

text \<open>The callbacks at any time: none, those before the close, or all.\<close>

lemma calls_shape:
  assumes "conn_reach k la pa (t, conns)"
  shows "calls t = [] \<and> ct_pc t \<noteq> CT_done \<or> calls t = on_connect k la pa # remote_calls t \<and> ct_pc t \<noteq> CT_done \<or>
    calls t = on_connect k la pa # remote_calls t @ [OnConnectionClose la pa]"
proof -
  from conn_system.reach_inv [OF assms] have "ct_id t = k" "ct_local t = la" "ct_peer t = pa"
    and "ct_pc_inv t" by (auto simp: ct_inv_def)
  then show ?thesis by (cases "ct_pc t") (auto simp: ct_pc_inv_def remote_calls_def Let_def)
qed

text \<open>C10: the callback protocol of a connection.  Whatever the user, the child tasks and the rest of the
  program do, the callbacks of a connection are \<open>OnConnect\<close>, then at most one \<open>OnRemoteClose\<close>, then
  \<open>OnConnectionClose\<close>, or a prefix of this; a task that is done has made them all; and \<open>OnRemoteClose\<close> is
  called exactly if the reader has been joined with \<open>Ok\<close>.\<close>

theorem conn_callback_protocol:
  assumes "conn_reach k la pa (t, conns)"
  shows "\<exists>rem rest. calls t @ rest = on_connect k la pa # rem @ [OnConnectionClose la pa] \<and>
      (rem = [] \<or> rem = [OnRemoteClose la pa]) \<and> (ct_pc t = CT_done \<longrightarrow> rest = []) \<and>
      (OnRemoteClose la pa \<in> set (calls t) \<longrightarrow> r_child t = joined_ok) \<and>
      (calls t \<noteq> [] \<and> r_child t = joined_ok \<longrightarrow> OnRemoteClose la pa \<in> set (calls t))"
proof -
  have ids: "ct_local t = la" "ct_peer t = pa" using conn_system.reach_inv [OF assms] by (auto simp: ct_inv_def)
  show ?thesis
    by (rule exI [of _ "remote_calls t"], insert calls_shape [OF assms], elim disjE) (use ids in \<open>auto simp: remote_calls_def\<close>)
qed

theorem conn_callback_protocol_witness:
  "\<exists>t conns. conn_reach 0 (1 :: nat) 2 (t, conns :: nat connections) \<and> ct_pc (t :: (nat, string) conn_task) = CT_done \<and>
     calls t = [on_connect 0 1 2, OnRemoteClose 1 2, OnConnectionClose 1 2]"
proof -
  let ?ok = "Val (Inr ()) :: (string + unit) outcome"
  let ?es = "[Ct_first_poll, User_start ''cb'' demo_conn_config, Ct_returned ?ok ?ok, Ct_config ?ok,
    Child_reader_ends (Join_ok (Inr ())), Ct_reader ?ok ?ok, Child_writer_ends (Join_ok (Inr ())), Ct_writer ?ok]"
  obtain t conns where run: "ct_run ?es demo_conn = Some (t, conns)" and t: "ct_pc t = CT_done" "r_child t = joined_ok"
    by (simp add: ct_eval)
  have reach: "conn_reach 0 1 2 (t, conns)" by (rule demo_conn_reach [OF run])
  from conn_callback_protocol [OF reach] t
  have "calls t = [on_connect 0 1 2, OnRemoteClose 1 2, OnConnectionClose 1 2]"
    by (auto simp: Cons_eq_append_conv)
  with reach t show ?thesis by blast
qed

text \<open>C25: a connection leaves nothing behind.  When its task is done, neither child runs on unaborted, the
  map of connections has no entry of this connection left, and if the user never started it no child was
  ever spawned.\<close>

theorem conn_clean_exit:
  assumes "conn_reach k la pa (t, conns)" and "ct_pc t = CT_done"
  shows "child_quiet (w_child t) \<and> child_quiet (r_child t) \<and> (\<forall>key. conns key \<noteq> Some k) \<and>
    (started t = None \<longrightarrow> w_child t = Not_spawned \<and> r_child t = Not_spawned)"
proof -
  from conn_system.reach_inv [OF assms(1)] have inv: "ct_pc_inv t"
    and reg: "\<forall>key. conns key = Some k \<longrightarrow> ct_pc t \<noteq> CT_done" by (auto simp: ct_inv_def)
  with assms(2) show ?thesis by (auto simp: ct_pc_inv_def Let_def)
qed

theorem conn_clean_exit_witness:
  "\<exists>t conns. conn_reach 0 (1 :: nat) 2 (t, conns :: nat connections) \<and> ct_pc (t :: (nat, string) conn_task) = CT_done \<and>
     r_child t = Running True \<and> child_quiet (r_child t) \<and> conns (1, 2) \<noteq> Some 0"
proof -
  let ?ok = "Val (Inr ()) :: (string + unit) outcome"
  let ?es = "[Ct_first_poll, Ct_returned ?ok ?ok, User_start ''cb'' demo_conn_config, Ct_config ?ok,
    Child_writer_ends Join_error, Ct_writer ?ok]"
  obtain t conns where run: "ct_run ?es demo_conn = Some (t, conns)" and t: "ct_pc t = CT_done" "r_child t = Running True"
    by (simp add: ct_eval)
  have reach: "conn_reach 0 1 2 (t, conns)" by (rule demo_conn_reach [OF run])
  from conn_clean_exit [OF reach t(1)] reach t show ?thesis by blast
qed

fun callback_results :: "'m ct_event \<Rightarrow> (string + unit) outcome list" where
  "callback_results (Ct_returned r c) = [r, c]"
| "callback_results (Ct_config c) = [c]"
| "callback_results (Ct_stop c) = [c]"
| "callback_results (Ct_writer c) = [c]"
| "callback_results (Ct_reader r c) = [r, c]"
| "callback_results _ = []"

lemma close_panics: "ct_pc (connection_close res t) = CT_panicked m \<Longrightarrow> res = Panic m"
  by (auto simp: connection_close_def split: outcome.splits)

lemma break_panics: "join_break res (t, conns) = (t', conns') \<Longrightarrow> ct_pc t' = CT_panicked m \<Longrightarrow> res = Panic m"
  by (auto simp: join_break_def dest: close_panics)

lemma user_ct_pc [simp]:
  "ct_pc (user_start m g c t) = ct_pc t" "ct_pc (user_drop c t) = ct_pc t"
  "user_close c (t, conns) = (t', conns') \<Longrightarrow> ct_pc t' = ct_pc t"
  by (auto simp: user_start_def user_drop_def conn_drop_def user_close_def split: prod.splits option.splits)

lemma user_same_calls: "calls (user_start m g c t) = calls t" "calls (user_drop c t) = calls t"
  by (simp_all add: user_start_def user_drop_def split: prod.split option.split)

lemma user_close_fields:
  "ct_pc (fst (user_close c (t, conns))) = ct_pc t" "calls (fst (user_close c (t, conns))) = calls t"
proof -
  obtain r c' x conns' where "conn_close c conns = (r, c', x, conns')" by (rule prod_cases4)
  then show "ct_pc (fst (user_close c (t, conns))) = ct_pc t" "calls (fst (user_close c (t, conns))) = calls t"
    by (cases x; simp add: user_close_def)+
qed

text \<open>\<open>join_reader_writer\<close> never polls a join handle that has already returned, so the task panics
  only where a callback does.\<close>

lemma conn_panics_only_in_callbacks:
  assumes "conn_reach k la pa (t, conns)" and "ct_exec e (t, conns) = Some (t', conns')"
    and "ct_pc t' = CT_panicked m" and "ct_pc t \<noteq> CT_panicked m"
  shows "Panic m \<in> set (callback_results e)"
proof -
  from conn_system.reach_inv [OF assms(1)] have inv: "ct_pc_inv t" by (simp add: ct_inv_def)
  have open': "w_child t \<noteq> Joined r" if "ct_pc t = CT_join False rs" for r rs
    using inv that by (auto simp: ct_pc_inv_def)
  have open'': "r_child t \<noteq> Joined r" if "ct_pc t = CT_join ws False" for r ws
    using inv that by (auto simp: ct_pc_inv_def)
  show ?thesis
  proof (cases e)
    case (Ct_writer c)
    with assms(2-4) open' show ?thesis
      by (cases "w_child t") (auto simp: join_writer_def Let_def split: ct_pc.splits if_splits
          join_result.splits sum.splits dest: break_panics)
  next
    case (Ct_reader r c)
    with assms(2-4) open'' show ?thesis
      by (cases "r_child t") (auto simp: join_reader_def Let_def split: ct_pc.splits if_splits
          join_result.splits sum.splits outcome.splits dest: break_panics)
  next
    case (Ct_stop c)
    with assms(2-4) show ?thesis
      by (auto simp: join_stop_def split: ct_pc.splits if_splits dest: break_panics)
  next
    case (Ct_config c)
    with assms(2-4) show ?thesis
      by (auto simp: wait_for_start_config_def split: if_splits cfg_chan.splits dest: close_panics)
  next
    case (Ct_returned r c)
    with assms(2-4) show ?thesis
      by (auto simp: wait_for_start_return_def split: if_splits outcome.splits sum.splits dest: close_panics)
  qed (use assms(2-4) in \<open>auto simp: wait_for_start_call_def split: if_splits\<close>)
qed

definition child_ended :: "child \<Rightarrow> bool" where
  "child_ended c \<longleftrightarrow> (\<exists>r. c = Finished r \<or> c = Joined r)"

lemma join_writer_ends:
  assumes "w_child t = Finished r" and "\<not> ws"
  shows "\<exists>t' conns'. join_writer ws rs (Val v) (t, conns) = Some (t', conns') \<and>
    (ct_pc t' = CT_done \<or> \<not> rs \<and> ct_pc t' = CT_join True rs \<and> r_child t' = r_child t)"
  using assms by (auto simp: join_writer_def join_break_def Let_def split: join_result.splits sum.splits)

lemma join_reader_ends:
  assumes "r_child t = Finished r" and "\<not> rs"
  shows "\<exists>t' conns'. join_reader ws rs (Val u) (Val v) (t, conns) = Some (t', conns') \<and>
    (ct_pc t' = CT_done \<or> \<not> ws \<and> ct_pc t' = CT_join ws True)"
  using assms by (auto simp: join_reader_def join_break_def Let_def split: join_result.splits sum.splits)

text \<open>What the task does by itself: the returns and polls in which each callback returns \<open>v\<close>.\<close>

definition own_polls :: "string + unit \<Rightarrow> 'm ct_event set" where
  "own_polls v = {Ct_returned (Val v) (Val v), Ct_config (Val v), Ct_stop (Val v), Ct_writer (Val v), Ct_reader (Val v) (Val v)}"

text \<open>From a state of the join in which both children have ended, at most two branches end the task.\<close>

lemma join_run_ends:
  assumes "conn_reach k la pa (t, conns)" and "ct_pc t = CT_join ws rs"
    and "child_ended (w_child t)" and "child_ended (r_child t)"
  shows "\<exists>es t' conns'. ct_run es (t, conns) = Some (t', conns') \<and> length es \<le> 2 \<and> set es \<subseteq> own_polls v \<and>
    ct_pc t' = CT_done"
proof -
  let ?w = "Ct_writer (Val v)" and ?r = "Ct_reader (Val v) (Val v)"
  note f = join_facts [OF conn_system.reach_inv [OF assms(1)] assms(2)]
  have w: "\<exists>r. w_child t = Finished r" if "\<not> ws" using f(8) assms(3) that by (auto simp: child_ended_def)
  have r: "\<exists>r. r_child t = Finished r" if "\<not> rs" using f(9) assms(4) that by (auto simp: child_ended_def)
  have reader: "\<exists>t' conns'. ct_exec ?r (t1, c1) = Some (t', conns') \<and> ct_pc t' = CT_done"
    if "ct_pc t1 = CT_join True False" "r_child t1 = Finished x" for t1 :: "('a, 'b) conn_task" and c1 x
    using join_reader_ends [of t1 x False True v v c1] that by auto
  show ?thesis
  proof (cases ws)
    case True
    with f(7) r obtain x where "ct_pc t = CT_join True False" "r_child t = Finished x" using assms(2) by auto
    from reader [OF this] obtain t' conns' where "ct_run [?r] (t, conns) = Some (t', conns')"
      "ct_pc t' = CT_done" by (metis ct_run.simps option.case(2))
    then show ?thesis by (intro exI [of _ "[?r]"]) (auto simp: own_polls_def)
  next
    case False
    with w obtain x where "w_child t = Finished x" by blast
    from join_writer_ends [OF this False, of rs v conns] obtain t1 c1 where
      s1: "ct_exec ?w (t, conns) = Some (t1, c1)"
      and or: "ct_pc t1 = CT_done \<or> \<not> rs \<and> ct_pc t1 = CT_join True rs \<and> r_child t1 = r_child t"
      using assms(2) False by auto
    show ?thesis
    proof (cases "ct_pc t1 = CT_done")
      case True
      with s1 show ?thesis by (intro exI [of _ "[?w]"]) (auto simp: own_polls_def)
    next
      case again: False
      with or r obtain y where "ct_pc t1 = CT_join True False" "r_child t1 = Finished y" by auto
      from reader [OF this] obtain t' c' where "ct_exec ?r (t1, c1) = Some (t', c')"
        "ct_pc t' = CT_done" by blast
      with s1 show ?thesis by (intro exI [of _ "[?w, ?r]"]) (auto simp: own_polls_def)
    qed
  qed
qed

text \<open>The end of a task has called \<open>OnConnectionClose\<close>.\<close>

lemma done_called_close:
  assumes "conn_reach k la pa (t, conns)" and "ct_pc t = CT_done"
  shows "last (calls t) = OnConnectionClose la pa"
  using conn_system.reach_inv [OF assms(1)] assms(2) by (auto simp: ct_inv_def ct_pc_inv_def Let_def)

text \<open>The join ends, with \<open>OnConnectionClose\<close> called.\<close>

lemma conn_join_ends:
  assumes "conn_reach k la pa (t, conns)" and "ct_pc t = CT_join ws rs"
    and "child_ended (w_child t)" and "child_ended (r_child t)"
  shows "\<exists>es t' conns'. ct_run es (t, conns) = Some (t', conns') \<and> length es \<le> 2 \<and> ct_pc t' = CT_done \<and>
    last (calls t') = OnConnectionClose la pa"
  using join_run_ends [OF assms] done_called_close [OF conn_reach_run [OF assms(1)]] by blast

text \<open>In the join the handle is used, so a close only removes the registration, and the stop branch is ready.\<close>

lemma close_then_stop:
  assumes "conn_reach k la pa (t, conns)" and "ct_pc t = CT_join ws rs" and "user_handle t = Some c"
  shows "\<exists>t' conns'. ct_run [User_close, Ct_stop (Val v)] (t, conns) = Some (t', conns') \<and> ct_pc t' = CT_done \<and>
    w_child t' = child_abort (w_child t) \<and> r_child t' = child_abort (r_child t) \<and>
    last (calls t') = OnConnectionClose la pa \<and> conns' (la, pa) = None"
proof -
  note inv = conn_system.reach_inv [OF assms(1)]
  note f = join_facts [OF inv assms(2)]
  from assms(3) inv have c: "conn_inv c" "local_addr c = la" "peer_addr c = pa"
    by (auto simp: ct_inv_def ct_handle_inv_def user_handle_def split: if_splits)
  from f(4,6) assms(3) have "consumed c"
    by (auto simp: ct_handle_inv_def user_handle_def split: if_splits)
  with conn_close_cases [OF c(1), of conns] c have "user_close c (t, conns) =
      (t\<lparr>ct_conn := Some (c\<lparr>consumed := True, inner := None\<rparr>)\<rparr>, conns((la, pa) := None))"
    by (simp add: user_close_def)
  with assms(2,3) f(1-3) show ?thesis
    by (simp add: join_stop_def stop_closed_def join_break_def)
qed

text \<open>C26: closing a running connection kills it.  If the user closes the handle while the task is in the
  join, the stop branch is ready; taking it aborts both children that still run, and the task is done
  with \<open>OnConnectionClose\<close> called.\<close>

theorem conn_close_stops:
  assumes "conn_reach k la pa (t, conns)" and "ct_pc t = CT_join ws rs" and "user_handle t = Some c"
  shows "\<exists>t' conns'. ct_run [User_close, Ct_stop (Val v)] (t, conns) = Some (t', conns') \<and> ct_pc t' = CT_done \<and>
    w_child t' = child_abort (w_child t) \<and> r_child t' = child_abort (r_child t) \<and>
    last (calls t') = OnConnectionClose la pa \<and> conns' (la, pa) = None"
  by (rule close_then_stop [OF assms])

theorem conn_close_stops_witness:
  "\<exists>t conns t' conns'. conn_reach 0 (1 :: nat) 2 (t, conns :: nat connections) \<and>
     ct_run [User_close, Ct_stop (Val (Inr ()))] (t :: (nat, string) conn_task, conns) = Some (t', conns') \<and>
     ct_pc t' = CT_done \<and> w_child t' = Running True \<and> r_child t' = Running True"
proof -
  let ?ok = "Val (Inr ()) :: (string + unit) outcome"
  let ?es = "[Ct_first_poll, Ct_returned ?ok ?ok, User_start ''cb'' demo_conn_config, Ct_config ?ok]"
  obtain t conns c where run: "ct_run ?es demo_conn = Some (t, conns)"
    and t: "ct_pc t = CT_join False False" "user_handle t = Some c"
    and ch: "w_child t = Running False" "r_child t = Running False"
    by (simp add: ct_eval)
  have reach: "conn_reach 0 1 2 (t, conns)" by (rule demo_conn_reach [OF run])
  from conn_close_stops [OF reach t, of "Inr ()"] reach ch show ?thesis by (metis child_abort.simps(1))
qed

lemma consumed_calls_frame:
  assumes "conn_inv c" and "consumed c" and "ct_conn t = Some c" and "calls t \<noteq> []"
    and "\<forall>e \<in> set es. e = User_close \<or> (\<exists>m g. e = User_start m g)"
  shows "\<exists>conns'. ct_run es (t, conns) = Some (t, conns')"
  using assms(5)
proof (induction es arbitrary: conns)
  case (Cons e es)
  have same: "c\<lparr>consumed := True, inner := None\<rparr> = c" using assms(1,2) by (cases c) (simp add: conn_inv_def)
  have upd: "t\<lparr>ct_conn := Some c\<rparr> = t" using assms(3) by (cases t) simp
  have "\<exists>conns1. ct_exec e (t, conns) = Some (t, conns1)"
    using assms Cons.prems same upd
    by (auto simp: user_handle_def user_start_def user_close_def start_connection_cases [OF assms(1)]
        conn_close_cases [OF assms(1)])
  with Cons show ?case by auto
qed simp

lemma conn_run_append:
  "ct_run es tc = Some tc1 \<Longrightarrow> ct_run (es @ fs) tc = ct_run fs tc1"
  by (induction es arbitrary: tc) (auto split: option.splits)

text \<open>C27: the first start decides.  While the \<open>OnConnect\<close> callback runs or the task waits, and the handle is
  unused, \<open>start_connection\<close> delivers its callback and configuration: after any number of further starts and
  closes, and whether or not the handle is then dropped, the task, once the callback has returned \<open>Ok\<close>, spawns
  reader and writer with exactly these and registers the stop channel; none of the later calls has an effect.\<close>

theorem conn_first_start_decides:
  assumes "conn_reach k la pa (t, conns)" and "ct_conn t = Some c" and "\<not> consumed c"
    and "ct_pc t = CT_wait \<and> gs = [] \<or> ct_pc t = CT_call \<and> gs = [Ct_returned (Val (Inr ())) r']"
    and "\<forall>e \<in> set es. e = User_close \<or> (\<exists>m' g'. e = User_start m' g')" and "fs = [] \<or> fs = [User_drop]"
  shows "\<exists>t' conns'. ct_run (User_start m g # es @ fs @ gs @ [Ct_config r]) (t, conns) = Some (t', conns') \<and>
    ct_pc t' = CT_join False False \<and> started t' = Some (m, g) \<and>
    w_child t' = Running False \<and> r_child t' = Running False \<and> \<not> stop_closed t' conns'"
proof -
  from conn_system.reach_inv [OF assms(1)] assms(2,4) have c: "conn_inv c" and calls: "calls t \<noteq> []"
    by (auto simp: ct_inv_def ct_handle_inv_def ct_pc_inv_def)
  let ?c = "c\<lparr>consumed := True, inner := None\<rparr>"
  let ?t = "t\<lparr>ct_conn := Some ?c, cfg := Cfg_value m g\<rparr>"
  have s1: "ct_run [User_start m g] (t, conns) = Some (?t, conns)"
    using assms(2-4) calls
    by (auto simp: user_handle_def user_start_def cfg_rx_alive_def start_connection_cases [OF c])
  obtain conns1 where s2: "ct_run es (?t, conns) = Some (?t, conns1)"
    using consumed_calls_frame [of ?c ?t es conns] assms(5) calls by (auto simp: conn_inv_def)
  obtain h where s3: "ct_run fs (?t, conns1) = Some (?t\<lparr>ct_conn := h\<rparr>, conns1)"
    using assms(6) calls
  proof (elim disjE)
    assume "fs = []"
    with that [of "Some ?c"] show ?thesis by simp
  next
    assume "fs = [User_drop]"
    with that [of None] calls show ?thesis by (simp add: user_handle_def user_drop_def conn_drop_def)
  qed
  have "\<exists>t' conns'. ct_run (gs @ [Ct_config r]) (?t\<lparr>ct_conn := h\<rparr>, conns1) = Some (t', conns') \<and>
    ct_pc t' = CT_join False False \<and> started t' = Some (m, g) \<and>
    w_child t' = Running False \<and> r_child t' = Running False \<and> \<not> stop_closed t' conns'"
    using assms(4) by (auto simp: wait_for_start_return_def wait_for_start_config_def stop_closed_def)
  then show ?thesis
    using conn_run_append [OF s1, of "es @ fs @ gs @ [Ct_config r]"] conn_run_append [OF s2, of "fs @ gs @ [Ct_config r]"]
      conn_run_append [OF s3, of "gs @ [Ct_config r]"] by simp
qed

theorem conn_first_start_decides_witness:
  "\<exists>t conns t' conns'. conn_reach 0 (1 :: nat) 2 (t, conns :: nat connections) \<and> ct_pc t = CT_call \<and>
     ct_run ([User_start ''cb'' demo_conn_config, User_close, User_start ''x'' demo_conn_config, User_close, User_drop] @
         [Ct_returned (Val (Inr ())) (Val (Inr ())), Ct_config (Val (Inr ()))])
       (t :: (nat, string) conn_task, conns) = Some (t', conns') \<and>
     started t' = Some (''cb'', demo_conn_config) \<and> \<not> stop_closed t' conns'"
proof -
  let ?ok = "Val (Inr ()) :: (string + unit) outcome"
  let ?es = "[User_close, User_start ''x'' demo_conn_config, User_close]"
  obtain t conns c where run: "ct_run [Ct_first_poll] demo_conn = Some (t, conns)"
    and pc: "ct_pc t = CT_call" and t: "ct_conn t = Some c" "\<not> consumed c"
    by (simp add: ct_eval)
  have reach: "conn_reach 0 1 2 (t, conns)" by (rule demo_conn_reach [OF run])
  have at: "ct_pc t = CT_wait \<and> [Ct_returned ?ok ?ok] = [] \<or> ct_pc t = CT_call \<and> [Ct_returned ?ok ?ok] = [Ct_returned (Val (Inr ())) ?ok]"
    using pc by simp
  have es: "\<forall>e \<in> set ?es. e = User_close \<or> (\<exists>m g. e = User_start m g)" and drop: "[User_drop] = [] \<or> [User_drop] = [User_drop]"
    by simp_all
  obtain t' conns' where
    "ct_run (User_start ''cb'' demo_conn_config # ?es @ [User_drop] @ [Ct_returned ?ok ?ok] @ [Ct_config ?ok]) (t, conns) =
      Some (t', conns')" "started t' = Some (''cb'', demo_conn_config)" "\<not> stop_closed t' conns'"
    using conn_first_start_decides [OF reach t at es drop, of "''cb''" demo_conn_config ?ok] by blast
  with reach pc show ?thesis by (intro exI conjI) (simp_all del: ct_run.simps)
qed

text \<open>What a task can wait for: the user, as long as the handle is unused, and a child that runs, as long as
  nobody has closed the stop channel.\<close>

definition waits_for_user :: "('a, 'm) conn_task \<Rightarrow> bool" where
  "waits_for_user t \<longleftrightarrow> ct_pc t = CT_wait \<and> (\<exists>c. user_handle t = Some c \<and> ct_conn t = Some c \<and> \<not> consumed c)"

definition child_running :: "child \<Rightarrow> bool" where
  "child_running c \<longleftrightarrow> (\<exists>b. c = Running b)"

definition waits_for_children :: "('a, 'm) conn_task \<Rightarrow> 'a connections \<Rightarrow> bool" where
  "waits_for_children t conns \<longleftrightarrow> (\<exists>ws rs. ct_pc t = CT_join ws rs) \<and> \<not> stop_closed t conns \<and>
     (child_running (w_child t) \<or> child_running (r_child t))"

definition ct_waits :: "('a, 'm) conn_task \<Rightarrow> 'a connections \<Rightarrow> bool" where
  "ct_waits t conns \<longleftrightarrow> ct_pc t = CT_done \<or> waits_for_user t \<or> waits_for_children t conns"

text \<open>By its own polls alone a task gets to its end or to such a wait.\<close>

lemma join_progress:
  assumes "conn_reach k la pa (t, conns)" and "ct_pc t = CT_join ws rs"
  shows "\<exists>es t' conns'. ct_run es (t, conns) = Some (t', conns') \<and> length es \<le> 2 \<and> set es \<subseteq> own_polls v \<and> ct_waits t' conns'"
proof -
  note f = join_facts [OF conn_system.reach_inv [OF assms(1)] assms(2)]
  consider (stop) "stop_closed t conns" | (child) "waits_for_children t conns"
    | (ended) "\<not> child_running (w_child t)" "\<not> child_running (r_child t)"
    using assms(2) by (auto simp: waits_for_children_def)
  then show ?thesis
  proof cases
    case stop
    with assms(2) show ?thesis
      by (intro exI [of _ "[Ct_stop (Val v)]"])
        (auto simp: join_stop_def join_break_def own_polls_def ct_waits_def)
  next
    case child
    then show ?thesis by (intro exI [of _ "[]"]) (simp add: ct_waits_def)
  next
    case ended
    with f(8,9) have "child_ended (w_child t)" "child_ended (r_child t)"
      by (cases "w_child t"; cases "r_child t"; auto simp: child_running_def child_ended_def split: if_splits)+
    from join_run_ends [OF assms this, of v] show ?thesis unfolding ct_waits_def by blast
  qed
qed

lemma wait_progress:
  assumes "conn_reach k la pa (t, conns)" and "ct_pc t = CT_wait"
  shows "\<exists>es t' conns'. ct_run es (t, conns) = Some (t', conns') \<and> length es \<le> 2 \<and> set es \<subseteq> own_polls v \<and> ct_waits t' conns'"
proof (cases "cfg t")
  case Cfg_empty
  from conn_system.reach_inv [OF assms(1)] assms(2) Cfg_empty have "waits_for_user t"
    by (auto simp: waits_for_user_def user_handle_def ct_inv_def ct_handle_inv_def ct_pc_inv_def cfg_rx_alive_def)
  then show ?thesis by (intro exI [of _ "[]"]) (simp add: ct_waits_def)
next
  case (Cfg_value m g)
  with assms(2) show ?thesis
    by (intro exI [of _ "[Ct_config (Val v)]"])
      (auto simp: wait_for_start_config_def own_polls_def ct_waits_def waits_for_children_def stop_closed_def child_running_def)
next
  case Cfg_closed
  with assms(2) show ?thesis
    by (intro exI [of _ "[Ct_config (Val v)]"]) (simp add: wait_for_start_config_def own_polls_def ct_waits_def)
qed

lemma conn_progress:
  assumes "conn_reach k la pa (t, conns)" and "ct_pc t = CT_call \<or> ct_pc t = CT_wait \<or> ct_pc t = CT_join ws rs"
  shows "\<exists>es t' conns'. ct_run es (t, conns) = Some (t', conns') \<and> length es \<le> 3 \<and> set es \<subseteq> own_polls v \<and> ct_waits t' conns'"
proof (cases "ct_pc t = CT_call")
  case True
  let ?e = "Ct_returned (Val v) (Val v) :: 'b ct_event"
  show ?thesis
  proof (cases v)
    case (Inl e)
    with True show ?thesis
      by (intro exI [of _ "[?e]"]) (simp add: wait_for_start_return_def own_polls_def ct_waits_def)
  next
    case (Inr u)
    have run: "ct_run [?e] (t, conns) = Some (t\<lparr>ct_pc := CT_wait\<rparr>, conns)"
      using True Inr by (simp add: wait_for_start_return_def)
    obtain fs t' conns' where fs: "ct_run fs (t\<lparr>ct_pc := CT_wait\<rparr>, conns) = Some (t', conns')" "length fs \<le> 2"
      "set fs \<subseteq> own_polls v" "ct_waits t' conns'"
      using wait_progress [OF conn_reach_run [OF assms(1) run], of v] by auto
    with conn_run_append [OF run, of fs] show ?thesis
      by (intro exI [of _ "[?e] @ fs"] exI [of _ t'] exI [of _ conns']) (simp add: own_polls_def)
  qed
next
  case False
  have "length es \<le> 3" if "length es \<le> 2" for es :: "'b ct_event list" using that by simp
  with False assms(2) wait_progress [OF assms(1), of v] join_progress [OF assms(1), of ws rs v] show ?thesis by blast
qed

text \<open>What ends the wait for the children: their ends, whatever their results, and then the task's own polls.\<close>

definition child_events :: "join_result \<Rightarrow> join_result \<Rightarrow> ('a, 'm) conn_task \<Rightarrow> 'm ct_event list" where
  "child_events rw rr t = (if child_running (w_child t) then [Child_writer_ends rw] else []) @
     (if child_running (r_child t) then [Child_reader_ends rr] else [])"

lemma children_end:
  assumes "conn_reach k la pa (t, conns)" and "ct_pc t = CT_join ws rs"
  shows "\<exists>es t' conns'. ct_run (child_events rw rr t @ es) (t, conns) = Some (t', conns') \<and> length es \<le> 2 \<and>
    set es \<subseteq> own_polls v \<and> ct_pc t' = CT_done"
proof -
  note f = join_facts [OF conn_system.reach_inv [OF assms(1)] assms(2)]
  from f(8,9) have "child_open (w_child t) \<or> w_child t = joined_ok" "child_open (r_child t) \<or> r_child t = joined_ok"
    by (auto split: if_splits)
  then obtain t1 where run: "ct_run (child_events rw rr t) (t, conns) = Some (t1, conns)"
    and t1: "ct_pc t1 = CT_join ws rs" "child_ended (w_child t1)" "child_ended (r_child t1)"
    using assms(2)
    by (cases "w_child t"; cases "r_child t"; simp add: child_events_def child_running_def child_ends_def child_ended_def)
  from join_run_ends [OF conn_reach_run [OF assms(1) run] t1, of v] conn_run_append [OF run] show ?thesis by metis
qed

text \<open>A connection that is closed or whose handle is dropped before it was started ends at once: the
  next poll of its task calls \<open>OnConnectionClose\<close>, and no reader or writer was spawned.\<close>

lemma conn_unstarted_ends:
  assumes "conn_reach k la pa (t, conns)" and "ct_pc t = CT_wait" and "ct_conn t = Some c" and "\<not> consumed c"
    and "e = User_close \<or> e = User_drop"
  shows "\<exists>t' conns'. ct_run [e, Ct_config (Val v)] (t, conns) = Some (t', conns') \<and> ct_pc t' = CT_done \<and>
    calls t' = [on_connect k la pa, OnConnectionClose la pa] \<and>
    w_child t' = Not_spawned \<and> r_child t' = Not_spawned"
proof -
  from conn_system.reach_inv [OF assms(1)] assms(2,3) have c: "conn_inv c"
    and calls: "calls t = [on_connect k la pa]" "w_child t = Not_spawned" "r_child t = Not_spawned"
    and ids: "ct_local t = la" "ct_peer t = pa"
    by (auto simp: ct_inv_def ct_handle_inv_def ct_pc_inv_def)
  from c assms(4) obtain i where i: "inner c = Some i" by (cases "inner c") (auto simp: conn_inv_def)
  show ?thesis
    using assms(2-5) calls ids i conn_close_cases [OF c, of conns]
    by (auto simp: user_handle_def user_close_def user_drop_def conn_drop_def wait_for_start_config_def)
qed

end
