(* ===== verification/Connection.thy ===== *)
theory Connection
  imports Byte_Stream Conn_Handle
begin

text \<open>
  One connection as a whole: the task of \<open>src/conn_handle.rs\<close> with the two children it spawns, the writer of
  \<open>src/write.rs\<close> on the chain of rings of \<open>src/msg_sender.rs\<close> and the reader of \<open>src/read.rs\<close> with the
  message callback.

  A step is a step of one of the parts.  The children run between their spawn and their end, and the
  result the task joins is the one the child really had: the value of its future, or a \<open>JoinError\<close> if it
  panicked or was dropped at an await (after an abort, or when the runtime shuts down).  The user calls
  the sender from the moment \<open>OnConnect\<close> hands it out until it is dropped.
\<close>

section \<open>State and steps\<close>

text \<open>What the connection does not define itself: the libraries, the message callback and its
  environment for every value the user can start with, the waker of the reader task and the read half.\<close>

record ('m, 'r, 'c, 'rd, 'u) conn_params =
  p_lib :: "('r, 'c) rb_lib"
  p_on_msg :: "'m \<Rightarrow> 'u extern_on_msg"
  p_env :: "'m \<Rightarrow> 'u c_env"
  p_waker :: raw_waker
  p_poll_read :: "'rd poll_read_fn"
  p_read :: 'rd

record ('a, 'm, 'r, 'c, 'rd, 'u) connection =
  c_task :: "('a, 'm) conn_task"
  c_conns :: "'a connections"
  c_sender :: "msg_sender option"
  c_dp :: "('r, 'c) dp"
  c_reader :: "('rd, 'u c_env on_msg_write) reader_task option"

definition connection_init ::
  "('m, 'r, 'c, 'rd, 'u) conn_params \<Rightarrow> nat \<Rightarrow> 'a \<Rightarrow> 'a \<Rightarrow> ('a, 'm, 'r, 'c, 'rd, 'u) connection \<Rightarrow> bool" where
  "connection_init P k la pa s \<longleftrightarrow>
     conn_init k la pa (c_task s, c_conns s) \<and> dp_init (p_lib P) (c_sender s, c_dp s) \<and> c_reader s = None"

text \<open>The reader the task spawns with the configuration it received.\<close>

definition spawn_reader ::
  "('m, 'r, 'c, 'rd, 'u) conn_params \<Rightarrow> ('m \<times> conn_config) option \<Rightarrow>
     ('rd, 'u c_env on_msg_write) reader_task option" where
  "spawn_reader P st =
     (case st of
        None \<Rightarrow> None
      | Some (m, config) \<Rightarrow>
          (case handle_reader_start (p_read P) \<lparr>on_msg_env = p_env P m, delivered = []\<rparr> config of
             Val r \<Rightarrow> Some r | Panic _ \<Rightarrow> None))"

definition task_moves ::
  "('m, 'r, 'c, 'rd, 'u) conn_params \<Rightarrow> ('a, 'm) conn_task \<times> 'a connections \<Rightarrow>
     ('a, 'm, 'r, 'c, 'rd, 'u) connection \<Rightarrow> ('a, 'm, 'r, 'c, 'rd, 'u) connection" where
  "task_moves P tc s =
     s\<lparr>c_task := fst tc, c_conns := snd tc,
       c_reader := if started (c_task s) = None then spawn_reader P (started (fst tc)) else c_reader s\<rparr>"

text \<open>How the children end.\<close>

fun writer_result :: "w_pc \<Rightarrow> join_result option" where
  "writer_result (W_done r) = Some (Join_ok r)"
| "writer_result W_aborted = Some Join_error"
| "writer_result _ = None"

fun reader_result :: "rd_pc \<Rightarrow> join_result" where
  "reader_result (Rd_done r) = Join_ok r"
| "reader_result _ = Join_error"

fun child_event :: "'m ct_event \<Rightarrow> bool" where
  "child_event (Child_writer_ends _) = True"
| "child_event (Child_reader_ends _) = True"
| "child_event _ = False"

text \<open>What may happen between two library calls of a sender method: nothing before the writer is
  spawned, steps of the writer afterwards.\<close>

definition call_env ::
  "('m, 'r, 'c, 'rd, 'u) conn_params \<Rightarrow> ('m \<times> conn_config) option \<Rightarrow> (('r, 'c) dp \<Rightarrow> ('r, 'c) dp) \<Rightarrow> bool" where
  "call_env P st env \<longleftrightarrow>
     (case st of None \<Rightarrow> env = (\<lambda>d. d) | Some (_, config) \<Rightarrow> writer_env (p_lib P) config env)"

inductive connection_step ::
  "('m, 'r, 'c, 'rd, 'u) conn_params \<Rightarrow> ('a, 'm, 'r, 'c, 'rd, 'u) connection \<Rightarrow>
     ('a, 'm, 'r, 'c, 'rd, 'u) connection \<Rightarrow> bool"
  for P :: "('m, 'r, 'c, 'rd, 'u) conn_params" where
  cs_task: "ct_exec e (c_task s, c_conns s) = Some tc \<Longrightarrow> \<not> child_event e \<Longrightarrow>
    connection_step P s (task_moves P tc s)"
| cs_writer_ends: "writer_result (w_pc (c_dp s)) = Some r \<Longrightarrow>
    ct_exec (Child_writer_ends r) (c_task s, c_conns s) = Some tc \<Longrightarrow> connection_step P s (task_moves P tc s)"
| cs_reader_ends: "c_reader s = Some rd \<Longrightarrow>
    ct_exec (Child_reader_ends (reader_result (rd_pc rd))) (c_task s, c_conns s) = Some tc \<Longrightarrow>
    connection_step P s (task_moves P tc s)"
| cs_writer: "w_child (c_task s) = Running b \<Longrightarrow> started (c_task s) = Some (m, config) \<Longrightarrow>
    writer_exec (p_lib P) config e (c_dp s) = Some d \<Longrightarrow> connection_step P s (s\<lparr>c_dp := d\<rparr>)"
| cs_reader: "r_child (c_task s) = Running b \<Longrightarrow> started (c_task s) = Some (m, config) \<Longrightarrow>
    c_reader s = Some rd \<Longrightarrow>
    connection_step P s (s\<lparr>c_reader := Some (handle_reader_step
      (on_msg_poll_write (call_inner (p_on_msg P m)) (p_waker P)) (p_poll_read P) config tick rd)\<rparr>)"
| cs_call: "calls (c_task s) \<noteq> [] \<Longrightarrow> c_sender s = Some x \<Longrightarrow> call_env P (started (c_task s)) env \<Longrightarrow>
    exec_call (p_lib P) env c x (c_dp s) = Some (x', d) \<Longrightarrow>
    connection_step P s (s\<lparr>c_sender := Some x', c_dp := d\<rparr>)"
| cs_drop: "c_sender s = Some x \<Longrightarrow> call_env P (started (c_task s)) env \<Longrightarrow>
    connection_step P s (s\<lparr>c_sender := None, c_dp := drop_sender (p_lib P) env x (c_dp s)\<rparr>)"
| cs_recv_dropped: "\<not> cfg_rx_alive (c_task s) \<Longrightarrow> started (c_task s) = None \<Longrightarrow> writer_live (w_pc (c_dp s)) \<Longrightarrow>
    connection_step P s (s\<lparr>c_dp := writer_exit (p_lib P) W_aborted (c_dp s)\<rparr>)"
| cs_others: "(\<And>key. conns' key = Some (ct_id (c_task s)) \<Longrightarrow> c_conns s key = Some (ct_id (c_task s))) \<Longrightarrow>
    connection_step P s (s\<lparr>c_conns := conns'\<rparr>)"

abbreviation connection_reach ::
  "('m, 'r, 'c, 'rd, 'u) conn_params \<Rightarrow> nat \<Rightarrow> 'a \<Rightarrow> 'a \<Rightarrow> ('a, 'm, 'r, 'c, 'rd, 'u) connection \<Rightarrow> bool" where
  "connection_reach P k la pa \<equiv> reach (connection_init P k la pa) (connection_step P)"

section \<open>Invariant\<close>

lemma call_env_writer_env:
  "call_env P st env \<Longrightarrow> (\<And>m c. st = Some (m, c) \<Longrightarrow> c = config) \<Longrightarrow> writer_env (p_lib P) config env"
  by (auto simp: call_env_def writer_env_id split: option.splits)

lemma call_env_some: "call_env P st env \<Longrightarrow> \<exists>config. writer_env (p_lib P) config env"
  by (auto simp: call_env_def intro: writer_env_id split: option.splits)

fun child_result :: "child \<Rightarrow> join_result option" where
  "child_result (Finished r) = Some r"
| "child_result (Joined r) = Some r"
| "child_result _ = None"

lemma child_result_abort [simp]: "child_result (child_abort c) = child_result c"
  by (cases c) auto

lemma join_poll_result:
  "join_poll c = (r, c') \<Longrightarrow> child_result c' = child_result c"
  by (cases c) auto

lemma join_poll_born: "join_poll c = (r, c') \<Longrightarrow> r \<noteq> Val Pending \<Longrightarrow> c \<noteq> Not_spawned"
  by (cases c) auto

text \<open>A step of the task itself changes no result of a child and forgets no configuration.\<close>

definition same_children :: "('a, 'm) conn_task \<Rightarrow> ('a, 'm) conn_task \<Rightarrow> bool" where
  "same_children t t' \<longleftrightarrow>
     child_result (w_child t') = child_result (w_child t) \<and> child_result (r_child t') = child_result (r_child t) \<and>
     (started t \<noteq> None \<longrightarrow> started t' = started t)"

lemma same_children_join:
  "join_stop r (t, conns) = Some tc \<Longrightarrow> same_children t (fst tc)"
  "join_writer ws rs r (t, conns) = Some tc \<Longrightarrow> same_children t (fst tc)"
  "join_reader ws rs q r (t, conns) = Some tc \<Longrightarrow> same_children t (fst tc)"
  by (auto simp: same_children_def join_stop_def join_writer_def join_reader_def join_break_def Let_def
      dest!: join_poll_result
      split: if_splits prod.splits outcome.splits poll.splits join_result.splits sum.splits)

lemma same_children_user:
  "same_children t (user_start m k c t)" "same_children t (fst (user_close c (t, conns)))"
  "same_children t (user_drop c t)"
  by (auto simp: same_children_def user_start_def user_close_def user_drop_def
      split: prod.splits option.splits)

lemma same_children_config:
  assumes "ct_inv k la pa (t, conns)" and "ct_pc t = CT_wait"
  shows "same_children t (fst (wait_for_start_config r (t, conns)))"
  using assms
  by (auto simp: same_children_def wait_for_start_config_def ct_inv_def ct_pc_inv_def split: cfg_chan.splits)

lemma ct_exec_same_children:
  assumes "ct_inv k la pa (t, conns)" and "ct_exec e (t, conns) = Some tc" and "\<not> child_event e"
  shows "same_children t (fst tc)"
proof -
  have return: "same_children t (wait_for_start_return res r t)" for res r
    by (auto simp: same_children_def wait_for_start_return_def split: outcome.splits sum.splits)
  have plain: "same_children t (wait_for_start_call t)" "same_children t (t\<lparr>ct_pc := pc\<rparr>)" for pc
    by (simp_all add: same_children_def wait_for_start_call_def)
  show ?thesis
    using assms(2,3)
    by (cases e) (auto simp: return plain same_children_config [OF assms(1)] same_children_user
        intro: same_children_join split: if_splits ct_pc.splits)
qed

text \<open>No child without a configuration.\<close>

definition born_ok :: "('a, 'm) conn_task \<Rightarrow> bool" where
  "born_ok t \<longleftrightarrow> (started t = None \<longrightarrow> w_child t = Not_spawned \<and> r_child t = Not_spawned)"

lemma born_ok_join:
  "join_stop r (t, conns) = Some tc \<Longrightarrow> born_ok t \<Longrightarrow> born_ok (fst tc)"
  "join_writer ws rs r (t, conns) = Some tc \<Longrightarrow> born_ok t \<Longrightarrow> born_ok (fst tc)"
  "join_reader ws rs q r (t, conns) = Some tc \<Longrightarrow> born_ok t \<Longrightarrow> born_ok (fst tc)"
  by (auto simp: born_ok_def join_stop_def join_writer_def join_reader_def join_break_def Let_def
      split: if_splits prod.splits outcome.splits poll.splits join_result.splits sum.splits)

lemma ct_exec_born_ok:
  assumes "born_ok t" and "ct_exec e (t, conns) = Some tc"
  shows "born_ok (fst tc)"
proof -
  have "born_ok (wait_for_start_return res r t)" "born_ok (fst (wait_for_start_config r (t, conns)))" for res r
    using assms(1) by (auto simp: born_ok_def wait_for_start_return_def wait_for_start_config_def
        split: outcome.splits sum.splits cfg_chan.splits)
  moreover have "born_ok (user_start m k c t)" "born_ok (fst (user_close c (t, conns)))" "born_ok (user_drop c t)"
    for m k c
    using assms(1) by (auto simp: born_ok_def user_start_def user_close_def user_drop_def
        split: prod.splits option.splits)
  moreover have "born_ok (wait_for_start_call t)" "born_ok (t\<lparr>ct_pc := pc\<rparr>)" for pc
    using assms(1) by (simp_all add: born_ok_def wait_for_start_call_def)
  moreover have "child_ends r c = Some c' \<Longrightarrow> c \<noteq> Not_spawned" for r c c'
    by (auto simp: child_ends_def)
  then have "child_ends r (w_child t) = Some c \<Longrightarrow> born_ok (t\<lparr>w_child := c\<rparr>)"
    "child_ends r (r_child t) = Some c \<Longrightarrow> born_ok (t\<lparr>r_child := c\<rparr>)" for r c
    using assms(1) by (auto simp: born_ok_def)
  ultimately show ?thesis
    using assms(2) born_ok_join [OF _ assms(1)]
    by (cases e) (auto split: if_splits ct_pc.splits)
qed

text \<open>Every part is in a state that its own system can reach, and the results that are joined are those
  of the parts.\<close>

definition reader_part ::
  "('m, 'r, 'c, 'rd, 'u) conn_params \<Rightarrow> ('m \<times> conn_config) option \<Rightarrow>
     ('rd, 'u c_env on_msg_write) reader_task option \<Rightarrow> bool" where
  "reader_part P st r \<longleftrightarrow>
     (case st of
        None \<Rightarrow> r = None
      | Some (m, config) \<Rightarrow>
          (\<exists>rd. r = Some rd \<and>
             reader_reaches (p_on_msg P m) (p_waker P) (p_poll_read P) config (p_read P) (p_env P m) rd))"

definition data_part ::
  "('m, 'r, 'c, 'rd, 'u) conn_params \<Rightarrow> ('m \<times> conn_config) option \<Rightarrow> msg_sender option \<Rightarrow> ('r, 'c) dp \<Rightarrow> bool" where
  "data_part P st x d \<longleftrightarrow>
     (\<forall>config. (\<forall>m c. st = Some (m, c) \<longrightarrow> c = config) \<longrightarrow> dp_reach (p_lib P) config (x, d))"

definition connection_inv ::
  "('m, 'r, 'c, 'rd, 'u) conn_params \<Rightarrow> nat \<Rightarrow> 'a \<Rightarrow> 'a \<Rightarrow> ('a, 'm, 'r, 'c, 'rd, 'u) connection \<Rightarrow> bool" where
  "connection_inv P k la pa s \<longleftrightarrow>
     conn_reach k la pa (c_task s, c_conns s) \<and> born_ok (c_task s) \<and>
     data_part P (started (c_task s)) (c_sender s) (c_dp s) \<and>
     reader_part P (started (c_task s)) (c_reader s) \<and>
     (\<forall>r. child_result (w_child (c_task s)) = Some r \<longrightarrow> writer_result (w_pc (c_dp s)) = Some r) \<and>
     (\<forall>r. child_result (r_child (c_task s)) = Some r \<longrightarrow>
        (\<exists>rd. c_reader s = Some rd \<and> reader_result (rd_pc rd) = r))"

lemma reader_run_append:
  "reader_run pw pr config (xs @ ys) t = reader_run pw pr config ys (reader_run pw pr config xs t)"
  by (induction xs arbitrary: t) simp_all

lemma reader_reaches_step:
  assumes "reader_reaches cb waker pr config rd u t"
  shows "reader_reaches cb waker pr config rd u
    (handle_reader_step (on_msg_poll_write (call_inner cb) waker) pr config tick t)"
proof -
  let ?pw = "on_msg_poll_write (call_inner cb) waker"
  obtain t0 ticks where t0: "handle_reader_start rd \<lparr>on_msg_env = u, delivered = []\<rparr> config = Val t0"
    and t: "t = reader_run ?pw pr config ticks t0"
    using assms by (auto simp: reader_reaches_def)
  have "handle_reader_step ?pw pr config tick t = reader_run ?pw pr config (ticks @ [tick]) t0"
    by (simp add: t reader_run_append)
  with t0 show ?thesis unfolding reader_reaches_def by blast
qed

lemma spawn_reader_part: "reader_part P st (spawn_reader P st)"
proof (cases st)
  case (Some mc)
  obtain m config where mc: "mc = (m, config)" by fastforce
  obtain r where r: "handle_reader_start (p_read P) \<lparr>on_msg_env = p_env P m, delivered = []\<rparr> config = Val r"
    using reader_starts [of "p_read P" "\<lparr>on_msg_env = p_env P m, delivered = []\<rparr>" config] by (elim exE conjE)
  have "reader_reaches (p_on_msg P m) (p_waker P) (p_poll_read P) config (p_read P) (p_env P m) r"
    unfolding reader_reaches_def by (rule exI [of _ r], rule exI [of _ "[]"]) (simp add: r)
  with Some mc r show ?thesis by (simp add: reader_part_def spawn_reader_def)
qed (simp add: reader_part_def spawn_reader_def)

text \<open>A step of the task that changes the results of the children in an admissible way.\<close>

lemma task_moves_inv:
  assumes "connection_inv P k la pa s" and "ct_exec e (c_task s, c_conns s) = Some tc"
    and "started (c_task s) \<noteq> None \<longrightarrow> started (fst tc) = started (c_task s)"
    and "\<And>r. child_result (w_child (fst tc)) = Some r \<Longrightarrow> writer_result (w_pc (c_dp s)) = Some r"
    and "\<And>r. child_result (r_child (fst tc)) = Some r \<Longrightarrow>
      \<exists>rd. c_reader s = Some rd \<and> reader_result (rd_pc rd) = r"
  shows "connection_inv P k la pa (task_moves P tc s)"
proof -
  let ?t = "c_task s"
  from assms(1) have reach: "conn_reach k la pa (?t, c_conns s)" and born: "born_ok ?t"
    and data: "data_part P (started ?t) (c_sender s) (c_dp s)"
    and rdr: "reader_part P (started ?t) (c_reader s)" by (auto simp: connection_inv_def)
  have "conn_reach k la pa (fst tc, snd tc)"
    using reach_step [OF reach conn_step.step_task [OF assms(2)]] by simp
  moreover have "born_ok (fst tc)" by (rule ct_exec_born_ok [OF born assms(2)])
  moreover have "data_part P (started (fst tc)) (c_sender s) (c_dp s)"
    using data assms(3) by (cases "started ?t") (auto simp: data_part_def)
  moreover have "reader_part P (started (fst tc)) (c_reader (task_moves P tc s))"
    using rdr assms(3) spawn_reader_part by (auto simp: task_moves_def)
  moreover have "child_result (r_child (fst tc)) = Some r \<Longrightarrow>
      \<exists>rd. c_reader (task_moves P tc s) = Some rd \<and> reader_result (rd_pc rd) = r" for r
    using assms(5) rdr by (fastforce simp: task_moves_def reader_part_def)
  ultimately show ?thesis using assms(4) by (simp add: connection_inv_def task_moves_def)
qed

lemma data_part_step:
  assumes "data_part P st x d"
    and "\<And>config. (\<And>m c. st = Some (m, c) \<Longrightarrow> c = config) \<Longrightarrow> dp_step (p_lib P) config (x, d) (x', d')"
  shows "data_part P st x' d'"
  using assms unfolding data_part_def by (blast intro: reach_step)

lemma call_keeps_result:
  assumes "call_env P st env" and "writer_result (w_pc d) = Some r"
    and "exec_call L env c x d = Some (x', d')"
  shows "writer_result (w_pc d') = Some r"
proof -
  have dead: "\<not> writer_live (w_pc d)" using assms(2) by (cases "w_pc d") auto
  obtain config where "writer_env (p_lib P) config env" using call_env_some [OF assms(1)] by blast
  from call_relation.exec_call_rel [OF call_quiet [OF this dead] assms(3)] assms(2) show ?thesis by simp
qed

lemma drop_keeps_result:
  assumes "call_env P st env" and "writer_result (w_pc d) = Some r"
  shows "writer_result (w_pc (drop_sender L env x d)) = Some r"
proof -
  have dead: "\<not> writer_live (w_pc d)" using assms(2) by (cases "w_pc d") auto
  obtain config where "writer_env (p_lib P) config env" using call_env_some [OF assms(1)] by blast
  from call_relation.drop_sender_rel [OF call_quiet [OF this dead], of d] assms(2) show ?thesis by simp
qed

lemma connection_init_inv:
  assumes "connection_init P k la pa s"
  shows "connection_inv P k la pa s"
proof -
  from assms have c: "conn_init k la pa (c_task s, c_conns s)" and d: "dp_init (p_lib P) (c_sender s, c_dp s)"
    and r: "c_reader s = None" by (auto simp: connection_init_def)
  from c have "c_task s = handle_connection k la pa" by (simp add: conn_init_def)
  then show ?thesis
    using reach_init [of "conn_init k la pa", OF c] reach_init [of "dp_init (p_lib P)", OF d] r
    by (auto simp: connection_inv_def born_ok_def data_part_def reader_part_def handle_connection_def)
qed

lemma child_ends_result: "child_ends r c = Some c' \<Longrightarrow> child_result c' = Some r"
  by (auto simp: child_ends_def split: child.splits)

lemma connection_invD:
  assumes "connection_inv P k la pa s"
  shows "conn_reach k la pa (c_task s, c_conns s)" and "born_ok (c_task s)"
    and "data_part P (started (c_task s)) (c_sender s) (c_dp s)"
    and "reader_part P (started (c_task s)) (c_reader s)"
    and "child_result (w_child (c_task s)) = Some r \<Longrightarrow> writer_result (w_pc (c_dp s)) = Some r"
    and "child_result (r_child (c_task s)) = Some r \<Longrightarrow> \<exists>rd. c_reader s = Some rd \<and> reader_result (rd_pc rd) = r"
  using assms by (auto simp: connection_inv_def)

text \<open>The task, and the ends of its children.\<close>

lemma task_step_inv:
  assumes "connection_inv P k la pa s" and "ct_exec e (c_task s, c_conns s) = Some tc" and "\<not> child_event e"
  shows "connection_inv P k la pa (task_moves P tc s)"
proof -
  note inv = connection_invD [OF assms(1)]
  from ct_exec_same_children [OF conn_system.reach_inv [OF inv(1)] assms(2,3)]
  have same: "child_result (w_child (fst tc)) = child_result (w_child (c_task s))"
    "child_result (r_child (fst tc)) = child_result (r_child (c_task s))"
    "started (c_task s) \<noteq> None \<longrightarrow> started (fst tc) = started (c_task s)" by (auto simp: same_children_def)
  from same(3) show ?thesis
    by (rule task_moves_inv [OF assms(1,2)]) (use inv(5,6) in \<open>simp_all only: same\<close>)
qed

lemma child_end_inv:
  assumes "connection_inv P k la pa s" and "ct_exec e (c_task s, c_conns s) = Some tc"
    and "e = Child_writer_ends r \<and> writer_result (w_pc (c_dp s)) = Some r \<or>
      e = Child_reader_ends r \<and> (\<exists>rd. c_reader s = Some rd \<and> reader_result (rd_pc rd) = r)"
  shows "connection_inv P k la pa (task_moves P tc s)"
  by (rule task_moves_inv [OF assms(1,2)])
    (use assms(2,3) connection_invD(5,6) [OF assms(1)] in \<open>auto dest!: child_ends_result\<close>)

text \<open>The sender's calls and its drop.\<close>

lemma call_inv:
  assumes "connection_inv P k la pa s" and "c_sender s = Some x" and "call_env P (started (c_task s)) env"
    and "exec_call (p_lib P) env c x (c_dp s) = Some (x', d)"
  shows "connection_inv P k la pa (s\<lparr>c_sender := Some x', c_dp := d\<rparr>)"
proof -
  note inv = connection_invD [OF assms(1)]
  have "data_part P (started (c_task s)) (Some x') d"
    by (rule data_part_step [OF inv(3)], unfold assms(2), rule dp_step.step_call [OF _ assms(4)])
      (rule call_env_writer_env [OF assms(3)])
  with inv call_keeps_result [OF assms(3) _ assms(4)] show ?thesis by (simp add: connection_inv_def)
qed

lemma drop_inv:
  assumes "connection_inv P k la pa s" and "c_sender s = Some x" and "call_env P (started (c_task s)) env"
  shows "connection_inv P k la pa (s\<lparr>c_sender := None, c_dp := drop_sender (p_lib P) env x (c_dp s)\<rparr>)"
proof -
  note inv = connection_invD [OF assms(1)]
  have "data_part P (started (c_task s)) None (drop_sender (p_lib P) env x (c_dp s))"
    by (rule data_part_step [OF inv(3)], unfold assms(2), rule dp_step.step_drop)
      (rule call_env_writer_env [OF assms(3)])
  with inv drop_keeps_result [OF assms(3)] show ?thesis by (simp add: connection_inv_def)
qed

lemma connection_step_inv:
  assumes "connection_inv P k la pa s" and "connection_step P s s'"
  shows "connection_inv P k la pa s'"
proof -
  note inv = connection_invD [OF assms(1)]
  from assms(2) show ?thesis
  proof (cases rule: connection_step.cases)
    case (cs_task e tc)
    then show ?thesis using task_step_inv [OF assms(1)] by blast
  next
    case (cs_writer_ends r tc)
    then show ?thesis using child_end_inv [OF assms(1)] by blast
  next
    case (cs_reader_ends rd tc)
    then show ?thesis using child_end_inv [OF assms(1)] by blast
  next
    case (cs_writer b m config e d)
    have "data_part P (started (c_task s)) (c_sender s) d"
      by (rule data_part_step [OF inv(3)]) (use cs_writer in \<open>auto intro: dp_step.step_writer\<close>)
    with cs_writer inv show ?thesis by (simp add: connection_inv_def)
  next
    case (cs_reader b m config rd tick)
    then show ?thesis using inv reader_reaches_step by (auto simp: connection_inv_def reader_part_def)
  next
    case (cs_call x env c x' d)
    then show ?thesis using call_inv [OF assms(1)] by blast
  next
    case (cs_drop x env)
    then show ?thesis using drop_inv [OF assms(1)] by blast
  next
    case cs_recv_dropped
    have "data_part P (started (c_task s)) (c_sender s) (writer_exit (p_lib P) W_aborted (c_dp s))"
      by (rule data_part_step [OF inv(3)], rule dp_step.step_writer [where e = Ev_abort])
        (use cs_recv_dropped in simp)
    with cs_recv_dropped inv show ?thesis by (simp add: connection_inv_def born_ok_def)
  next
    case (cs_others conns')
    have "conn_reach k la pa (c_task s, conns')"
      by (rule reach_step [OF inv(1) conn_step.step_others]) (rule cs_others(2))
    with cs_others inv show ?thesis by (simp add: connection_inv_def)
  qed
qed

interpretation connection_system:
  invariant_system "connection_init P k la pa" "connection_step P" "connection_inv P k la pa"
  for P :: "('m, 'r, 'c, 'rd, 'u) conn_params" and k :: nat and la pa :: 'a
  by unfold_locales (rule connection_init_inv connection_step_inv; assumption)+

text \<open>Seen from its task, a connection is the connection task of its own theory.\<close>

interpretation task_refinement:
  simulation "connection_init P k la pa" "connection_step P" "connection_inv P k la pa" "conn_init k la pa" conn_step
    "\<lambda>s. (c_task s, c_conns s)"
  for P :: "('m, 'r, 'c, 'rd, 'u) conn_params" and k :: nat and la pa :: 'a
proof unfold_locales
  fix s s' :: "('a, 'm, 'r, 'c, 'rd, 'u) connection"
  assume "connection_step P s s'"
  then have "conn_step (c_task s, c_conns s) (c_task s', c_conns s') \<or> c_task s' = c_task s \<and> c_conns s' = c_conns s"
    by (cases rule: connection_step.cases)
      (auto simp: task_moves_def simp del: ct_exec.simps intro: conn_step.intros)
  then show "conn_step\<^sup>*\<^sup>* (c_task s, c_conns s) (c_task s', c_conns s')" by auto
qed (simp add: connection_init_def)

section \<open>Runs\<close>

text \<open>Runs of the parts are runs of the connection.\<close>

lemma connection_same_update:
  "d = c_dp s \<Longrightarrow> s\<lparr>c_dp := d\<rparr> = s" "r = c_reader s \<Longrightarrow> s\<lparr>c_reader := r\<rparr> = s"
  by (cases s; simp)+

fun task_run ::
  "('m, 'r, 'c, 'rd, 'u) conn_params \<Rightarrow> 'm ct_event list \<Rightarrow> ('a, 'm, 'r, 'c, 'rd, 'u) connection \<Rightarrow>
     ('a, 'm, 'r, 'c, 'rd, 'u) connection option" where
  "task_run P [] s = Some s"
| "task_run P (e # es) s =
     (if child_event e then None
      else case ct_exec e (c_task s, c_conns s) of
        None \<Rightarrow> None
      | Some tc \<Rightarrow> task_run P es (task_moves P tc s))"

lemma lift_task_run:
  "(connection_step P)\<^sup>*\<^sup>* s0 s \<Longrightarrow> task_run P es s = Some s' \<Longrightarrow> (connection_step P)\<^sup>*\<^sup>* s0 s'"
  by (induction es arbitrary: s)
    (auto split: if_splits option.splits intro: rtranclp.rtrancl_into_rtrancl connection_step.cs_task)

text \<open>The steps on the data alone, of the children and of the sender.\<close>

definition data_step ::
  "('m, 'r, 'c, 'rd, 'u) conn_params \<Rightarrow> ('a, 'm, 'r, 'c, 'rd, 'u) connection \<Rightarrow>
     ('a, 'm, 'r, 'c, 'rd, 'u) connection \<Rightarrow> bool" where
  "data_step P s s' \<longleftrightarrow> connection_step P s s' \<and> c_task s' = c_task s \<and> c_conns s' = c_conns s"

lemma data_steps_connection: "(data_step P)\<^sup>*\<^sup>* s s' \<Longrightarrow> (connection_step P)\<^sup>*\<^sup>* s s'"
  by (rule rtranclp_mono [THEN predicate2D]) (auto simp: data_step_def)

lemma data_writer_run:
  assumes "w_child (c_task s) = Running b" and "started (c_task s) = Some (m, config)"
    and "writer_run (p_lib P) config es (c_dp s) = Some d"
  shows "(data_step P)\<^sup>*\<^sup>* s (s\<lparr>c_dp := d\<rparr>)"
  using assms
proof (induction es arbitrary: s)
  case (Cons e es)
  then obtain d1 where e: "writer_exec (p_lib P) config e (c_dp s) = Some d1"
    and es: "writer_run (p_lib P) config es d1 = Some d" by (auto split: option.splits)
  have "data_step P s (s\<lparr>c_dp := d1\<rparr>)"
    using connection_step.cs_writer [OF Cons.prems(1,2) e] by (simp add: data_step_def)
  with Cons.IH [of "s\<lparr>c_dp := d1\<rparr>"] Cons.prems(1,2) es show ?case by (simp add: converse_rtranclp_into_rtranclp)
qed (simp add: connection_same_update)

lemma lift_writer_run:
  assumes "(connection_step P)\<^sup>*\<^sup>* s0 s" and "w_child (c_task s) = Running b"
    and "started (c_task s) = Some (m, config)" and "writer_run (p_lib P) config es (c_dp s) = Some d"
  shows "(connection_step P)\<^sup>*\<^sup>* s0 (s\<lparr>c_dp := d\<rparr>)"
  using assms(1) data_steps_connection [OF data_writer_run [OF assms(2-4)]] by (rule rtranclp_trans)

lemma data_reader_run:
  assumes "r_child (c_task s) = Running b" and "started (c_task s) = Some (m, config)" and "c_reader s = Some rd"
  shows "(data_step P)\<^sup>*\<^sup>* s (s\<lparr>c_reader := Some (reader_run
    (on_msg_poll_write (call_inner (p_on_msg P m)) (p_waker P)) (p_poll_read P) config ticks rd)\<rparr>)"
  using assms
proof (induction ticks arbitrary: s rd)
  case (Cons tick ticks)
  let ?rd = "handle_reader_step (on_msg_poll_write (call_inner (p_on_msg P m)) (p_waker P)) (p_poll_read P) config tick rd"
  have "data_step P s (s\<lparr>c_reader := Some ?rd\<rparr>)"
    using connection_step.cs_reader [OF Cons.prems] by (simp add: data_step_def)
  with Cons.IH [of "s\<lparr>c_reader := Some ?rd\<rparr>" ?rd] Cons.prems(1,2) show ?case
    by (simp add: converse_rtranclp_into_rtranclp)
qed (simp add: connection_same_update)

lemma lift_reader_run:
  assumes "(connection_step P)\<^sup>*\<^sup>* s0 s" and "r_child (c_task s) = Running b"
    and "started (c_task s) = Some (m, config)" and "c_reader s = Some rd"
  shows "(connection_step P)\<^sup>*\<^sup>* s0 (s\<lparr>c_reader := Some (reader_run
    (on_msg_poll_write (call_inner (p_on_msg P m)) (p_waker P)) (p_poll_read P) config ticks rd)\<rparr>)"
  using assms(1) data_steps_connection [OF data_reader_run [OF assms(2-4)]] by (rule rtranclp_trans)

section \<open>Properties\<close>

lemma connection_parts:
  assumes "connection_reach P k la pa s"
  shows "conn_reach k la pa (c_task s, c_conns s)"
    and "started (c_task s) = Some (m, config) \<Longrightarrow> dp_reach (p_lib P) config (c_sender s, c_dp s)"
    and "c_reader s = Some rd \<Longrightarrow> \<exists>m config. started (c_task s) = Some (m, config) \<and>
      reader_reaches (p_on_msg P m) (p_waker P) (p_poll_read P) config (p_read P) (p_env P m) rd"
    and "child_result (w_child (c_task s)) = Some r \<Longrightarrow> writer_result (w_pc (c_dp s)) = Some r"
    and "child_result (r_child (c_task s)) = Some r \<Longrightarrow>
      \<exists>rd. c_reader s = Some rd \<and> reader_result (rd_pc rd) = r"
  using connection_system.reach_inv [OF assms]
  by (auto simp: connection_inv_def data_part_def reader_part_def split: option.splits)

lemma remote_call_joined:
  assumes "conn_reach k la pa (t, conns)" and "OnRemoteClose la pa \<in> set (calls t)"
  shows "r_child t = joined_ok"
proof -
  from conn_system.reach_inv [OF assms(1)] have "ct_pc_inv t" by (simp add: ct_inv_def)
  with assms(2) show ?thesis
    by (cases "ct_pc t") (auto simp: ct_pc_inv_def remote_calls_def Let_def split: if_splits)
qed

lemma joined_reader_done:
  assumes "connection_reach P k la pa s" and "r_child (c_task s) = joined_ok"
    and "read_half_ok (p_poll_read P) got" and "read_eof_ok (p_poll_read P) eof" and "got (p_read P) = []"
  shows "\<exists>rd. c_reader s = Some rd \<and> delivered (writer (brw rd)) = got (reader (brw rd)) \<and> eof (reader (brw rd))"
proof -
  obtain rd where rd: "c_reader s = Some rd" and res: "reader_result (rd_pc rd) = Join_ok (Inr ())"
    using connection_parts(5) [OF assms(1)] assms(2) by fastforce
  then have pc: "rd_pc rd = Rd_done (Inr ())" by (cases "rd_pc rd") auto
  obtain m config where
    reach: "reader_reaches (p_on_msg P m) (p_waker P) (p_poll_read P) config (p_read P) (p_env P m) rd"
    using connection_parts(3) [OF assms(1) rd] by blast
  from reader_reaches_inv [OF reach assms(3-5)] pc rd show ?thesis by (auto simp: reader_inv_def)
qed

lemma joined_writer_done:
  assumes "rb_laws (p_lib P) V" and "connection_reach P k la pa s" and "w_child (c_task s) = joined_ok"
  shows "c_sender s = None \<and> out (c_dp s) = sent (c_dp s)"
proof -
  from connection_invD(2) [OF connection_system.reach_inv [OF assms(2)]] assms(3)
  obtain m config where st: "started (c_task s) = Some (m, config)"
    by (cases "started (c_task s)") (auto simp: born_ok_def)
  have "w_pc (c_dp s) = W_done (Inr ())"
    using connection_parts(4) [OF assms(2)] assms(3) by (cases "w_pc (c_dp s)") auto
  with writer_ok_complete [OF assms(1) connection_parts(2) [OF assms(2) st]] show ?thesis by blast
qed

text \<open>When both children have ended with \<open>Ok\<close>, the task joins them and is done.\<close>

abbreviation (input) cb_ok :: "(string + unit) outcome" where
  "cb_ok \<equiv> Val (Inr ())"

lemma children_finish:
  assumes "ct_pc (c_task s) = CT_join False False" and "started (c_task s) \<noteq> None"
    and "w_child (c_task s) = Running b" and "writer_result (w_pc (c_dp s)) = Some (Join_ok (Inr ()))"
    and "r_child (c_task s) = Running b'" and "c_reader s = Some rd" and "rd_pc rd = Rd_done (Inr ())"
  shows "\<exists>s'. (connection_step P)\<^sup>*\<^sup>* s s' \<and> ct_pc (c_task s') = CT_done \<and> w_child (c_task s') = joined_ok \<and>
    r_child (c_task s') = joined_ok \<and> c_dp s' = c_dp s \<and> c_reader s' = Some rd \<and>
    calls (c_task s') = calls (c_task s) @
      [OnRemoteClose (ct_local (c_task s)) (ct_peer (c_task s)), OnConnectionClose (ct_local (c_task s)) (ct_peer (c_task s))]"
proof -
  let ?t = "c_task s" and ?ok = "Join_ok (Inr ())"
  let ?t1 = "?t\<lparr>w_child := Finished ?ok\<rparr>"
  let ?t2 = "?t1\<lparr>r_child := Finished ?ok\<rparr>"
  let ?s1 = "s\<lparr>c_task := ?t1\<rparr>" and ?s2 = "s\<lparr>c_task := ?t2\<rparr>"
  have "connection_step P s (task_moves P (?t1, c_conns s) s)"
    by (rule connection_step.cs_writer_ends [OF assms(4)]) (simp add: assms(3) child_ends_def)
  then have "connection_step P s ?s1" using assms(2) by (simp add: task_moves_def)
  moreover have "connection_step P ?s1 (task_moves P (?t2, c_conns s) ?s1)"
    by (rule connection_step.cs_reader_ends [where rd = rd]) (use assms in \<open>simp_all add: child_ends_def\<close>)
  then have "connection_step P ?s1 ?s2" using assms(2) by (simp add: task_moves_def)
  ultimately have s2: "(connection_step P)\<^sup>*\<^sup>* s ?s2" by simp
  obtain s' where run: "task_run P [Ct_reader cb_ok cb_ok, Ct_writer cb_ok] ?s2 = Some s'"
    and "ct_pc (c_task s') = CT_done" "w_child (c_task s') = joined_ok" "r_child (c_task s') = joined_ok"
      "c_dp s' = c_dp s" "c_reader s' = Some rd" "calls (c_task s') = calls ?t @
      [OnRemoteClose (ct_local ?t) (ct_peer ?t), OnConnectionClose (ct_local ?t) (ct_peer ?t)]"
    using assms by (simp add: join_reader_def join_writer_def join_break_def connection_close_def task_moves_def)
  with lift_task_run [OF s2 run] show ?thesis by blast
qed

text \<open>A connection between the addresses 1 and 2 on the list instance: it is started with the counting
  callback, three bytes are sent, three are received, both sides close.\<close>

definition demo_params :: "(string, list_ring, list_chan, demo_read, nat) conn_params" where
  "demo_params = \<lparr>p_lib = list_lib, p_on_msg = (\<lambda>_. demo_cb), p_env = (\<lambda>_. demo_env), p_waker = demo_waker,
     p_poll_read = demo_poll_read, p_read = demo_rd\<rparr>"

lemma demo_params_simps [simp]:
  "p_lib demo_params = list_lib" "p_on_msg demo_params m = demo_cb" "p_env demo_params m = demo_env"
  "p_waker demo_params = demo_waker" "p_poll_read demo_params = demo_poll_read" "p_read demo_params = demo_rd"
  by (simp_all add: demo_params_def)

definition demo_new :: "(nat, string, list_ring, list_chan, demo_read, nat) connection" where
  "demo_new = \<lparr>c_task = handle_connection 0 1 2, c_conns = Map.empty, c_sender = Some demo_sender,
     c_dp = demo_dp [] (False, False) ([0], False, False) 0 [] W_recv [], c_reader = None\<rparr>"

lemma demo_new_reach: "connection_reach demo_params 0 1 2 demo_new"
  by (rule reach_init)
    (simp add: connection_init_def demo_new_def conn_init_def dp_init_def make_sender_def demo_defs world.defs)

text \<open>The connection once it is started, and after the sender and the writer are through.\<close>

abbreviation (input) demo_fresh :: "(demo_read, nat c_env on_msg_write) reader_task" where
  "demo_fresh \<equiv> demo_state demo_rd (replicate (msg_buf_size demo_config) 0) 0 [] 0 False (Rd_loop FF_start)"

abbreviation (input) demo_read_out :: "(demo_read, nat c_env on_msg_write) reader_task" where
  "demo_read_out \<equiv>
     demo_state \<lparr>dr_input = [], dr_got = [1, 2, 3], dr_eof = True\<rparr> demo_buf 0 [1, 2, 3] 1 True (Rd_done (Inr ()))"

abbreviation (input) demo_written :: "(list_ring, list_chan) dp" where
  "demo_written \<equiv> demo_dp [] (True, True) ([], True, True) 3 [1, 2, 3] (W_done (Inr ())) [1, 2, 3]"

definition demo_started :: "(nat, string) conn_task \<Rightarrow> bool" where
  "demo_started t \<longleftrightarrow> ct_pc t = CT_join False False \<and> started t = Some (''cb'', demo_config) \<and>
     w_child t = Running False \<and> r_child t = Running False \<and> calls t \<noteq> []"

lemma demo_start:
  "\<exists>t conns. (connection_step demo_params)\<^sup>*\<^sup>* demo_new
     (demo_new\<lparr>c_task := t, c_conns := conns, c_reader := Some demo_fresh\<rparr>) \<and> demo_started t"
proof -
  have "spawn_reader demo_params (Some (''cb'', demo_config)) = Some demo_fresh"
    using demo_size(1) by (simp add: spawn_reader_def handle_reader_start_def brw_new_def demo_state_def demo_env_def)
  then obtain t conns where "task_run demo_params [Ct_first_poll, User_start ''cb'' demo_config, Ct_returned cb_ok cb_ok,
      Ct_config cb_ok] demo_new = Some (demo_new\<lparr>c_task := t, c_conns := conns, c_reader := Some demo_fresh\<rparr>)"
    and "demo_started t"
    by (simp add: demo_new_def demo_started_def task_moves_def ct_eval spawn_reader_def)
  with lift_task_run [OF rtranclp.rtrancl_refl] show ?thesis by blast
qed

abbreviation (input) demo_half_written :: "(list_ring, list_chan) dp" where
  "demo_half_written \<equiv> demo_dp [1, 2, 3] (True, False) ([], True, False) 3 [1, 2, 3] (W_write 0 [1, 2] False) []"

lemma demo_send:
  assumes "demo_started (c_task s)" and "c_sender s = Some demo_sender"
    and "c_dp s = demo_dp [] (False, False) ([0], False, False) 0 [] W_recv []"
  shows "(data_step demo_params)\<^sup>*\<^sup>* s (s\<lparr>c_sender := None, c_dp := demo_half_written\<rparr>)"
proof -
  note st = assms(1) [unfolded demo_started_def]
  let ?da = "demo_dp [1, 2, 3] (False, False) ([0], False, False) 1 [1, 2, 3] W_recv []"
  let ?db = "demo_dp [1, 2, 3] (False, False) ([], False, False) 1 [1, 2, 3] (W_write 0 [1, 2] False) []"
  let ?sa = "s\<lparr>c_sender := Some demo_sender, c_dp := ?da\<rparr>" and ?sb = "s\<lparr>c_sender := Some demo_sender, c_dp := ?db\<rparr>"
  have env: "call_env demo_params (started (c_task s)) (\<lambda>d. d)" using st by (simp add: call_env_def writer_env_id)
  have "connection_step demo_params s ?sa"
    by (rule connection_step.cs_call [OF _ assms(2) env, where c = "Call_send_nonblock [1, 2, 3]"])
      (use st demo_call in \<open>simp_all only: assms(3) demo_params_simps not_False_eq_True\<close>)
  then have "data_step demo_params s ?sa" by (simp add: data_step_def)
  moreover have "(data_step demo_params)\<^sup>*\<^sup>* ?sa (?sa\<lparr>c_dp := ?db\<rparr>)"
    by (rule data_writer_run [where es = "[Ev_poll, Ev_tick, Ev_poll]" and b = False and m = "''cb''"])
      (use st demo_write_run in \<open>simp_all del: writer_run.simps\<close>)
  ultimately have "(data_step demo_params)\<^sup>*\<^sup>* s ?sb" by (simp add: converse_rtranclp_into_rtranclp)
  moreover have "data_step demo_params ?sb
      (?sb\<lparr>c_sender := None, c_dp := drop_sender list_lib (\<lambda>d. d) demo_sender ?db\<rparr>)"
    using connection_step.cs_drop [of ?sb demo_sender demo_params "\<lambda>d. d"] env by (simp add: data_step_def)
  ultimately show ?thesis unfolding demo_drop by simp
qed

lemma demo_closing:
  "\<exists>s. connection_reach demo_params 0 (1 :: nat) 2 s \<and> demo_started (c_task s) \<and> c_sender s = None \<and>
     c_dp s = demo_half_written \<and> c_reader s = Some demo_read_out"
proof -
  obtain t conns where st: "demo_started t"
    and r: "(connection_step demo_params)\<^sup>*\<^sup>* demo_new
      (demo_new\<lparr>c_task := t, c_conns := conns, c_reader := Some demo_fresh\<rparr>)"
    using demo_start by blast
  let ?s = "demo_new\<lparr>c_task := t, c_conns := conns, c_reader := Some demo_fresh, c_sender := None,
    c_dp := demo_half_written\<rparr>"
  have "(connection_step demo_params)\<^sup>*\<^sup>* (demo_new\<lparr>c_task := t, c_conns := conns, c_reader := Some demo_fresh\<rparr>) ?s"
    using data_steps_connection [OF demo_send [of "demo_new\<lparr>c_task := t, c_conns := conns, c_reader := Some demo_fresh\<rparr>"]] st
    by (simp add: demo_new_def)
  with r have "(connection_step demo_params)\<^sup>*\<^sup>* demo_new ?s" by (rule rtranclp_trans)
  from lift_reader_run [OF this, of False "''cb''" demo_config demo_fresh "[False, False, False]"] st
  have r2: "(connection_step demo_params)\<^sup>*\<^sup>* demo_new (?s\<lparr>c_reader := Some demo_read_out\<rparr>)"
    by (simp add: demo_step1 demo_step2 demo_step3 demo_started_def)
  from reach_steps [OF r2 demo_new_reach] st show ?thesis
    by (intro exI [of _ "?s\<lparr>c_reader := Some demo_read_out\<rparr>"]) simp
qed

lemma demo_clean:
  "\<exists>s. connection_reach demo_params 0 (1 :: nat) 2 s \<and> ct_pc (c_task s) = CT_done \<and> w_child (c_task s) = joined_ok \<and>
     r_child (c_task s) = joined_ok \<and> sent (c_dp s) = [1, 2, 3] \<and> c_reader s = Some demo_read_out"
proof -
  obtain s where s: "connection_reach demo_params 0 (1 :: nat) 2 s" "c_dp s = demo_half_written"
    "c_reader s = Some demo_read_out" and st: "demo_started (c_task s)" using demo_closing by blast
  have r1: "(connection_step demo_params)\<^sup>*\<^sup>* s (s\<lparr>c_dp := demo_written\<rparr>)"
    using lift_writer_run [of demo_params s s False "''cb''" demo_config "[Ev_wrote 2, Ev_poll, Ev_wrote 1, Ev_poll,
        Ev_poll, Ev_poll, Ev_poll, Ev_shutdown]" demo_written] st s(2) demo_drain_run
    by (simp del: writer_run.simps add: demo_started_def)
  obtain s' where r2: "(connection_step demo_params)\<^sup>*\<^sup>* (s\<lparr>c_dp := demo_written\<rparr>) s'"
    and s': "ct_pc (c_task s') = CT_done" "w_child (c_task s') = joined_ok" "r_child (c_task s') = joined_ok"
      "c_dp s' = demo_written" "c_reader s' = Some demo_read_out"
    using children_finish [of "s\<lparr>c_dp := demo_written\<rparr>" False False demo_read_out demo_params] st s(3)
    by (auto simp: demo_state_def demo_dp_def demo_started_def)
  from reach_steps [OF rtranclp_trans [OF r1 r2] s(1)] s' show ?thesis by (auto simp: demo_dp_def)
qed

text \<open>C9: the program runs the parts as they were verified.  In every reachable state of a connection the
  connection task is in a state of its own system, and once it has received a configuration the sender
  and the writer, and the reader with the callback it was started with, are in states of theirs under
  that configuration; a result the task has for a child is the one that child ended with.\<close>

theorem connection_refines_parts:
  assumes "connection_reach P k la pa s"
  shows "conn_reach k la pa (c_task s, c_conns s) \<and>
    (\<forall>m config. started (c_task s) = Some (m, config) \<longrightarrow>
       dp_reach (p_lib P) config (c_sender s, c_dp s) \<and>
       (\<exists>rd. c_reader s = Some rd \<and>
          reader_reaches (p_on_msg P m) (p_waker P) (p_poll_read P) config (p_read P) (p_env P m) rd)) \<and>
    (\<forall>r. child_result (w_child (c_task s)) = Some r \<longrightarrow> writer_result (w_pc (c_dp s)) = Some r) \<and>
    (\<forall>r. child_result (r_child (c_task s)) = Some r \<longrightarrow>
       (\<exists>rd. c_reader s = Some rd \<and> reader_result (rd_pc rd) = r))"
  using task_refinement.reach_abs [OF assms] connection_system.reach_inv [OF assms]
  by (auto simp: connection_inv_def data_part_def reader_part_def split: option.splits)

theorem connection_refines_parts_witness:
  "\<exists>s m config. connection_reach demo_params 0 (1 :: nat) 2 s \<and> started (c_task s) = Some (m, config) \<and>
     dp_reach list_lib config (c_sender s, c_dp s) \<and> writer_result (w_pc (c_dp s)) = Some (Join_ok (Inr ()))"
proof -
  obtain s where s: "connection_reach demo_params 0 (1 :: nat) 2 s" "w_child (c_task s) = joined_ok"
    "c_reader s = Some demo_read_out" using demo_clean by blast
  with connection_parts(3) [OF s(1,3)] connection_refines_parts [OF s(1)] show ?thesis by fastforce
qed

text \<open>\<open>OnRemoteClose\<close> comes last.  When a connection has called \<open>OnRemoteClose\<close>, its message callback
  has taken every byte that was ever read from the socket, and the end of the stream has been read: the
  application will not see another message.\<close>

lemma remote_close_after_delivery:
  assumes "connection_reach P k la pa s" and "OnRemoteClose la pa \<in> set (calls (c_task s))"
    and "read_half_ok (p_poll_read P) got" and "read_eof_ok (p_poll_read P) eof" and "got (p_read P) = []"
  shows "\<exists>rd. c_reader s = Some rd \<and> delivered (writer (brw rd)) = got (reader (brw rd)) \<and> eof (reader (brw rd))"
  by (rule joined_reader_done [OF assms(1) remote_call_joined [OF connection_parts(1) [OF assms(1)] assms(2)]
      assms(3-5)])

text \<open>C4: a connection whose children both ended with \<open>Ok\<close> has lost nothing in either direction.  The
  sender has been dropped and the socket has accepted every byte it was handed; the callback has taken
  every byte of the stream; and the callbacks were \<open>OnConnect\<close>, \<open>OnRemoteClose\<close>, \<open>OnConnectionClose\<close>.\<close>

theorem clean_connection_complete:
  assumes "rb_laws (p_lib P) V" and "connection_reach P k la pa s" and "ct_pc (c_task s) = CT_done"
    and "w_child (c_task s) = joined_ok" and "r_child (c_task s) = joined_ok"
    and "read_half_ok (p_poll_read P) got" and "read_eof_ok (p_poll_read P) eof" and "got (p_read P) = []"
  shows "c_sender s = None \<and> out (c_dp s) = sent (c_dp s) \<and>
    (\<exists>rd. c_reader s = Some rd \<and> delivered (writer (brw rd)) = got (reader (brw rd)) \<and> eof (reader (brw rd))) \<and>
    calls (c_task s) = [on_connect k la pa, OnRemoteClose la pa, OnConnectionClose la pa]"
proof -
  from conn_system.reach_inv [OF connection_parts(1) [OF assms(2)]]
  have inv: "ct_pc_inv (c_task s)" "ct_id (c_task s) = k" "ct_local (c_task s) = la" "ct_peer (c_task s) = pa"
    by (auto simp: ct_inv_def)
  then have calls: "calls (c_task s) = [on_connect k la pa, OnRemoteClose la pa, OnConnectionClose la pa]"
    using assms(3,5) by (simp add: ct_pc_inv_def remote_calls_def Let_def)
  with joined_writer_done [OF assms(1,2,4)] joined_reader_done [OF assms(2,5-8)] show ?thesis by blast
qed

theorem clean_connection_complete_witness:
  "\<exists>s. connection_reach demo_params 0 (1 :: nat) 2 s \<and> out (c_dp s) = [1, 2, 3] \<and>
     calls (c_task s) = [on_connect 0 1 2, OnRemoteClose 1 2, OnConnectionClose 1 2]"
proof -
  obtain s where s: "connection_reach demo_params 0 (1 :: nat) 2 s" "ct_pc (c_task s) = CT_done"
    "w_child (c_task s) = joined_ok" "r_child (c_task s) = joined_ok" and snt: "sent (c_dp s) = [1, 2, 3]"
    using demo_clean by blast
  have laws: "rb_laws (p_lib demo_params) list_view" using list_lib_laws by simp
  have "read_half_ok (p_poll_read demo_params) dr_got" "read_eof_ok (p_poll_read demo_params) dr_eof"
    "dr_got (p_read demo_params) = []" using demo_read_ok by (simp_all add: demo_rd_def)
  from clean_connection_complete [OF laws s this] s(1) snt show ?thesis by auto
qed

text \<open>C14: a connection that both sides close comes to its end.  From every reachable state in which the
  task joins its running children, the sender has been dropped and the reader has seen the end of the
  stream and delivered everything, the connection can be run to the end of its task: with a socket that
  accepts what it is given, the writer drains the rings, the children are joined, and nothing is lost.\<close>

theorem connection_graceful_end:
  assumes "rb_laws (p_lib P) V" and "connection_reach P k la pa s"
    and "ct_pc (c_task s) = CT_join False False" and "w_child (c_task s) = Running b" and "r_child (c_task s) = Running b'"
    and "c_sender s = None" and "writer_live (w_pc (c_dp s))" and "c_reader s = Some rd" and "rd_pc rd = Rd_done (Inr ())"
  shows "\<exists>s'. (connection_step P)\<^sup>*\<^sup>* s s' \<and> ct_pc (c_task s') = CT_done \<and>
    out (c_dp s') = sent (c_dp s) \<and> calls (c_task s') = [on_connect k la pa, OnRemoteClose la pa, OnConnectionClose la pa]"
proof -
  from conn_system.reach_inv [OF connection_parts(1) [OF assms(2)]]
  have inv: "ct_pc_inv (c_task s)" "ct_id (c_task s) = k" "ct_local (c_task s) = la" "ct_peer (c_task s) = pa"
    by (auto simp: ct_inv_def)
  then have calls: "calls (c_task s) = [on_connect k la pa]"
    using assms(3,5) by (simp add: ct_pc_inv_def remote_calls_def Let_def)
  from inv(1) assms(3) obtain m config where st: "started (c_task s) = Some (m, config)"
    by (cases "started (c_task s)") (auto simp: ct_pc_inv_def Let_def)
  have "dp_inv V [] (c_dp s)" "tx_gone V (chan (c_dp s))"
    using sys_invD [OF assms(1) connection_parts(2) [OF assms(2) st]] assms(6) by (simp_all add: opens_of_def)
  from drain_all [OF assms(1) this assms(7)] obtain es d where
    run: "writer_run (p_lib P) config es (c_dp s) = Some d" and d: "w_pc d = W_done (Inr ())" "out d = sent (c_dp s)"
    by blast
  have r1: "(connection_step P)\<^sup>*\<^sup>* s (s\<lparr>c_dp := d\<rparr>)" by (rule lift_writer_run [OF _ assms(4) st run]) simp
  obtain s' where r2: "(connection_step P)\<^sup>*\<^sup>* (s\<lparr>c_dp := d\<rparr>) s'" and "ct_pc (c_task s') = CT_done"
    "c_dp s' = d" "calls (c_task s') = calls (c_task s) @ [OnRemoteClose la pa, OnConnectionClose la pa]"
    using children_finish [of "s\<lparr>c_dp := d\<rparr>" b b' rd P] assms st d inv by auto
  with rtranclp_trans [OF r1 r2] d calls show ?thesis by auto
qed

theorem connection_graceful_end_witness:
  "\<exists>s s'. connection_reach demo_params 0 (1 :: nat) 2 s \<and> out (c_dp s) = [] \<and> (connection_step demo_params)\<^sup>*\<^sup>* s s' \<and>
     ct_pc (c_task s') = CT_done \<and> out (c_dp s') = [1, 2, 3]"
proof -
  obtain s where s: "connection_reach demo_params 0 (1 :: nat) 2 s" "c_sender s = None" "c_dp s = demo_half_written"
    "c_reader s = Some demo_read_out" and st: "demo_started (c_task s)" using demo_closing by blast
  have laws: "rb_laws (p_lib demo_params) list_view" using list_lib_laws by simp
  have "ct_pc (c_task s) = CT_join False False" "w_child (c_task s) = Running False" "r_child (c_task s) = Running False"
    using st by (simp_all add: demo_started_def)
  moreover have "writer_live (w_pc (c_dp s))" "rd_pc demo_read_out = Rd_done (Inr ())"
    using s(3) by (simp_all add: demo_dp_def demo_state_def)
  ultimately obtain s' where "(connection_step demo_params)\<^sup>*\<^sup>* s s'" "ct_pc (c_task s') = CT_done"
    "out (c_dp s') = sent (c_dp s)"
    using connection_graceful_end [OF laws s(1)] s(2,4) by blast
  moreover have "out (c_dp s) = []" "sent (c_dp s) = [1, 2, 3]" using s(3) by (simp_all add: demo_dp_def)
  ultimately show ?thesis using s(1) by auto
qed

end
