(* ===== verification/Manager.thy ===== *)
theory Manager
  imports Conn_Handle
begin

text \<open>
  The model of \<open>src/lib.rs\<close> and \<open>src/utils.rs\<close>: the \<open>SocketManager\<close> and its background runtime.

  The state of the runtime is the command channel, the two maps of \<open>ConnectionState\<close>, the tasks that
  connect and listen and the connection tasks they spawn.  One step takes an event: a method of the
  user sends a command, \<open>main\<close> handles the next command, a task is resumed with what the socket call it
  awaits returned, a connection task makes a step.  An event that is impossible gives \<open>None\<close>.  A
  \<open>TcpStream\<close> is the pair of what \<open>local_addr\<close> and \<open>peer_addr\<close> return on it.  Channels are named by a
  counter; the maps hold the name of the channel whose receiver they own.  \<open>mt_calls\<close> and \<open>mt_spawned\<close>
  record the callbacks a task has made and the connections it has spawned; the code has no such fields.
\<close>

section \<open>Runtime and addresses\<close>

definition MAX_WORKER_THREADS :: nat where
  "MAX_WORKER_THREADS = 256"

datatype runtime_builder = Multi_thread nat | Current_thread

text \<open>A runtime is known by the builder it was built with; \<open>build_err\<close> is the error of the builder's
  \<open>build\<close>, if it has one, and \<open>n_cpu\<close> the result of \<open>available_parallelism\<close>.\<close>

definition rt_build :: "(runtime_builder \<Rightarrow> io_error option) \<Rightarrow> runtime_builder \<Rightarrow> runtime_builder io_result" where
  "rt_build build_err b = (case build_err b of Some e \<Rightarrow> Inl e | None \<Rightarrow> Inr b)"

definition start_runtime ::
  "(runtime_builder \<Rightarrow> io_error option) \<Rightarrow> nat io_result \<Rightarrow> nat \<Rightarrow> runtime_builder io_result" where
  "start_runtime build_err n_cpu n_threads =
     (let n_thread = min n_threads MAX_WORKER_THREADS in
      if n_thread = 0 then rt_build build_err (Multi_thread (case n_cpu of Inr n \<Rightarrow> n | Inl _ \<Rightarrow> 1))
      else if n_thread = 1 then rt_build build_err Current_thread
      else rt_build build_err (Multi_thread n_thread))"

type_synonym 'a stream = "'a io_result \<times> 'a io_result"

definition get_address_from_stream :: "'a stream \<Rightarrow> ('a \<times> 'a) io_result" where
  "get_address_from_stream s =
     (case fst s of
        Inl e \<Rightarrow> Inl e
      | Inr la \<Rightarrow> (case snd s of Inl e \<Rightarrow> Inl e | Inr pa \<Rightarrow> Inr (la, pa)))"

section \<open>State\<close>

datatype 'a command = Listen 'a | Connect 'a nat | CancelListen 'a | Abort

text \<open>The await points of the connecting task and of the listening task; \<open>L_accept\<close> has the name of
  the cancel channel and whether the accept branch of the current \<open>select!\<close> has been disabled.\<close>

datatype mt_pc = C_start nat | C_sleep | C_connect | L_bind | L_accept nat bool | MT_done | MT_dropped

record 'a mtask =
  mt_addr :: 'a
  mt_listens :: bool
  mt_pc :: mt_pc
  mt_calls :: "'a conn_state list"
  mt_spawned :: "nat list"

record ('a, 'm) manager =
  runtime :: runtime_builder
  polls_after :: bool
  cmd_queue :: "'a command list"
  main_running :: bool
  listeners :: "'a \<rightharpoonup> nat"
  connections :: "'a connections"
  next_chan :: nat
  mtasks :: "'a mtask list"
  conn_tasks :: "('a, 'm) conn_task list"

text \<open>\<open>ConnectionState::new\<close> and the start of \<open>main\<close>.  Whether a runtime still polls its tasks after \<open>block_on\<close> has
  returned is decided by \<open>tokio\<close>: it is the argument \<open>polls\<close>, of which nothing is assumed but where a theorem says
  so, and \<open>polls_after\<close> has its value.\<close>

definition manager_new :: "(runtime_builder \<Rightarrow> bool) \<Rightarrow> runtime_builder \<Rightarrow> ('a, 'm) manager" where
  "manager_new polls rt = \<lparr>runtime = rt, polls_after = polls rt, cmd_queue = [], main_running = True, listeners = Map.empty,
     connections = Map.empty, next_chan = 0, mtasks = [], conn_tasks = []\<rparr>"

definition stop_all :: "('a, 'm) manager \<Rightarrow> ('a, 'm) manager" where
  "stop_all st = st\<lparr>listeners := Map.empty, connections := Map.empty\<rparr>"

section \<open>Sending commands\<close>

text \<open>The unbounded channel refuses a value exactly if its receiver, owned by \<open>main\<close>, is gone.\<close>

definition cmd_send :: "'a command \<Rightarrow> ('a, 'm) manager \<Rightarrow> bool \<times> ('a, 'm) manager" where
  "cmd_send c st =
     (if main_running st then (True, st\<lparr>cmd_queue := cmd_queue st @ [c]\<rparr>) else (False, st))"

definition stopped_err :: "'x io_result" where
  "stopped_err = io_err Other ''socket manager has stopped''"

definition sm_listen_on_addr :: "'a \<Rightarrow> ('a, 'm) manager \<Rightarrow> unit io_result \<times> ('a, 'm) manager" where
  "sm_listen_on_addr addr st =
     (case cmd_send (Listen addr) st of (ok, st') \<Rightarrow> (if ok then Inr () else stopped_err, st'))"

definition sm_connect_to_addr ::
  "'a \<Rightarrow> nat \<Rightarrow> ('a, 'm) manager \<Rightarrow> unit io_result \<times> ('a, 'm) manager" where
  "sm_connect_to_addr addr delay st =
     (case cmd_send (Connect addr delay) st of (ok, st') \<Rightarrow> (if ok then Inr () else stopped_err, st'))"

definition sm_cancel_listen_on_addr ::
  "'a \<Rightarrow> ('a, 'm) manager \<Rightarrow> unit io_result \<times> ('a, 'm) manager" where
  "sm_cancel_listen_on_addr addr st =
     (case cmd_send (CancelListen addr) st of (ok, st') \<Rightarrow> (if ok then Inr () else stopped_err, st'))"

section \<open>Joining\<close>

text \<open>The two fields that \<open>join\<close> uses.  The background thread is its result, once it has ended: \<open>Inl\<close>
  has the debug text of a panic.\<close>

record socket_manager =
  has_joined :: bool
  join_handle :: "unit option"

definition socket_manager_new :: socket_manager where
  "socket_manager_new = \<lparr>has_joined = False, join_handle = Some ()\<rparr>"

text \<open>\<open>SocketManager::init\<close>: the runtime, the two maps and the thread that runs \<open>main\<close>.\<close>

definition sm_init ::
  "(runtime_builder \<Rightarrow> bool) \<Rightarrow> (runtime_builder \<Rightarrow> io_error option) \<Rightarrow> nat io_result \<Rightarrow> nat \<Rightarrow>
     (socket_manager \<times> ('a, 'm) manager) io_result" where
  "sm_init polls build_err n_cpu n_threads =
     (case start_runtime build_err n_cpu n_threads of
        Inl e \<Rightarrow> Inl e
      | Inr rt \<Rightarrow> Inr (socket_manager_new, manager_new polls rt))"

text \<open>\<open>None\<close> as the value: the call blocks.\<close>

definition sm_join ::
  "(string + unit) option \<Rightarrow> socket_manager \<Rightarrow> unit io_result option outcome \<times> socket_manager" where
  "sm_join thread m =
     (if has_joined m then (Val (Some (Inr ())), m)
      else let m1 = m\<lparr>has_joined := True\<rparr> in
        case join_handle m1 of
          None \<Rightarrow> (Panic ''called `Option::unwrap()` on a `None` value'', m1)
        | Some _ \<Rightarrow>
            let m2 = m1\<lparr>join_handle := None\<rparr> in
            (case thread of
               None \<Rightarrow> (Val None, m2)
             | Some (Inr _) \<Rightarrow> (Val (Some (Inr ())), m2)
             | Some (Inl e) \<Rightarrow>
                 (Val (Some (io_err Other (''socket manager join returned error: '' @ e))), m2)))"

definition sm_abort ::
  "(string + unit) option \<Rightarrow> bool \<Rightarrow> socket_manager \<Rightarrow> ('a, 'm) manager \<Rightarrow>
     unit io_result option outcome \<times> socket_manager \<times> ('a, 'm) manager" where
  "sm_abort thread wait m st =
     (let st1 = snd (cmd_send Abort st) in
      if wait then (case sm_join thread m of (r, m') \<Rightarrow> (r, m', st1))
      else (Val (Some (Inr ())), m, st1))"

text \<open>The drop waits for the thread as \<open>abort(true)\<close> does, and ignores its result.\<close>

definition sm_drop ::
  "(string + unit) option \<Rightarrow> socket_manager \<Rightarrow> ('a, 'm) manager \<Rightarrow>
     unit option outcome \<times> socket_manager \<times> ('a, 'm) manager" where
  "sm_drop thread m st =
     (case sm_abort thread True m st of
        (Panic e, m', st') \<Rightarrow> (Panic e, m', st')
      | (Val None, m', st') \<Rightarrow> (Val None, m', st')
      | (Val (Some _), m', st') \<Rightarrow> (Val (Some ()), m', st'))"

section \<open>The main loop and its tasks\<close>

definition connect_to_addr :: "'a \<Rightarrow> nat \<Rightarrow> ('a, 'm) manager \<Rightarrow> ('a, 'm) manager" where
  "connect_to_addr addr delay st =
     st\<lparr>mtasks := mtasks st @
        [\<lparr>mt_addr = addr, mt_listens = False, mt_pc = C_start delay, mt_calls = [], mt_spawned = []\<rparr>]\<rparr>"

definition listen_on_addr :: "'a \<Rightarrow> ('a, 'm) manager \<Rightarrow> ('a, 'm) manager" where
  "listen_on_addr addr st =
     st\<lparr>mtasks := mtasks st @
        [\<lparr>mt_addr = addr, mt_listens = True, mt_pc = L_bind, mt_calls = [], mt_spawned = []\<rparr>]\<rparr>"

text \<open>One iteration of \<open>main\<close>; leaving the loop drops the receiver with the commands still in it.  The
  sender of the channel is a field of \<open>SocketManager\<close>, whose drop sends \<open>Abort\<close> and joins before the fields
  go, so \<open>recv\<close> returns \<open>None\<close> only after \<open>main\<close> has ended.\<close>

definition main_step :: "('a, 'm) manager \<Rightarrow> ('a, 'm) manager option" where
  "main_step st =
     (if \<not> main_running st then None
      else case cmd_queue st of
        [] \<Rightarrow> None
      | c # cs \<Rightarrow>
          let st1 = st\<lparr>cmd_queue := cs\<rparr> in
          Some (case c of
            Listen addr \<Rightarrow> listen_on_addr addr st1
          | Connect addr delay \<Rightarrow> connect_to_addr addr delay st1
          | CancelListen addr \<Rightarrow> st1\<lparr>listeners := (listeners st1)(addr := None)\<rparr>
          | Abort \<Rightarrow> (stop_all st1)\<lparr>main_running := False, cmd_queue := []\<rparr>))"

text \<open>Spawning a connection task, by a connecting or a listening task.\<close>

definition spawn_connection ::
  "'a mtask \<Rightarrow> 'a \<Rightarrow> 'a \<Rightarrow> ('a, 'm) manager \<Rightarrow> 'a mtask \<times> ('a, 'm) manager" where
  "spawn_connection t la pa st =
     (t\<lparr>mt_spawned := mt_spawned t @ [next_chan st]\<rparr>,
      st\<lparr>next_chan := Suc (next_chan st),
         conn_tasks := conn_tasks st @ [handle_connection (next_chan st) la pa]\<rparr>)"

datatype 'a mt_event =
    Mt_poll
  | Mt_connected "'a stream io_result"
  | Mt_bound "unit io_result"
  | Mt_accepted "'a stream io_result"
  | Mt_cancelled
  | Mt_dropped

text \<open>The end of the connecting task.\<close>

definition connect_result ::
  "'a stream io_result \<Rightarrow> 'a mtask \<Rightarrow> ('a, 'm) manager \<Rightarrow> 'a mtask \<times> ('a, 'm) manager" where
  "connect_result r t st =
     (let t1 = t\<lparr>mt_pc := MT_done\<rparr> in
      case (case r of Inl e \<Rightarrow> Inl e | Inr s \<Rightarrow> get_address_from_stream s) of
        Inr (la, pa) \<Rightarrow> spawn_connection t1 la pa st
      | Inl e \<Rightarrow> (t1\<lparr>mt_calls := mt_calls t1 @ [OnConnectError (mt_addr t) e]\<rparr>, st))"

definition bind_result ::
  "unit io_result \<Rightarrow> 'a mtask \<Rightarrow> ('a, 'm) manager \<Rightarrow> 'a mtask \<times> ('a, 'm) manager" where
  "bind_result r t st =
     (case r of
        Inl e \<Rightarrow> (t\<lparr>mt_pc := MT_done, mt_calls := mt_calls t @ [OnListenError (mt_addr t) e]\<rparr>, st)
      | Inr _ \<Rightarrow>
          (t\<lparr>mt_pc := L_accept (next_chan st) False\<rparr>,
           st\<lparr>next_chan := Suc (next_chan st), listeners := (listeners st)(mt_addr t \<mapsto> next_chan st)\<rparr>))"

text \<open>The accept branch of the \<open>select!\<close>: a result that does not match \<open>Ok((stream, _))\<close> disables the branch
  until this \<open>select!\<close> ends; the \<open>else\<close> branch runs only if the other branch is disabled too, which its
  pattern \<open>_\<close> never is.\<close>

definition accept_result ::
  "nat \<Rightarrow> 'a stream io_result \<Rightarrow> 'a mtask \<Rightarrow> ('a, 'm) manager \<Rightarrow> 'a mtask \<times> ('a, 'm) manager" where
  "accept_result k r t st =
     (case r of
        Inl _ \<Rightarrow> (t\<lparr>mt_pc := L_accept k True\<rparr>, st)
      | Inr s \<Rightarrow>
          (case get_address_from_stream s of
             Inl _ \<Rightarrow> (t, st)
           | Inr (la, pa) \<Rightarrow> spawn_connection t la pa st))"

text \<open>\<open>canceled.closed()\<close>: the map no longer holds the receiver.\<close>

definition cancel_closed :: "nat \<Rightarrow> 'a mtask \<Rightarrow> ('a, 'm) manager \<Rightarrow> bool" where
  "cancel_closed k t st \<longleftrightarrow> listeners st (mt_addr t) \<noteq> Some k"

text \<open>A resumed task.\<close>

fun mt_exec ::
  "'a mt_event \<Rightarrow> 'a mtask \<Rightarrow> ('a, 'm) manager \<Rightarrow> ('a mtask \<times> ('a, 'm) manager) option" where
  "mt_exec Mt_poll t st =
     (case mt_pc t of
        C_start delay \<Rightarrow> Some (t\<lparr>mt_pc := if delay \<noteq> 0 then C_sleep else C_connect\<rparr>, st)
      | C_sleep \<Rightarrow> Some (t\<lparr>mt_pc := C_connect\<rparr>, st)
      | _ \<Rightarrow> None)"
| "mt_exec (Mt_connected r) t st =
     (case mt_pc t of C_connect \<Rightarrow> Some (connect_result r t st) | _ \<Rightarrow> None)"
| "mt_exec (Mt_bound r) t st = (case mt_pc t of L_bind \<Rightarrow> Some (bind_result r t st) | _ \<Rightarrow> None)"
| "mt_exec (Mt_accepted r) t st =
     (case mt_pc t of L_accept k False \<Rightarrow> Some (accept_result k r t st) | _ \<Rightarrow> None)"
| "mt_exec Mt_cancelled t st =
     (case mt_pc t of
        L_accept k _ \<Rightarrow> if cancel_closed k t st then Some (t\<lparr>mt_pc := MT_done\<rparr>, st) else None
      | _ \<Rightarrow> None)"
| "mt_exec Mt_dropped t st =
     (if mt_pc t \<noteq> MT_done then Some (t\<lparr>mt_pc := MT_dropped\<rparr>, st) else None)"

datatype ('a, 'm) mgr_event =
    Mgr_send "'a command"
  | Mgr_main
  | Mgr_task nat "'a mt_event"
  | Mgr_conn nat "'m ct_event"

text \<open>After \<open>main\<close> has returned the runtime is shut down, which drops the tasks that still exist; until then it
  may poll them or not.\<close>

definition polls_tasks :: "('a, 'm) manager \<Rightarrow> bool" where
  "polls_tasks st \<longleftrightarrow> main_running st \<or> polls_after st"

fun mt_event_ok :: "('a, 'm) manager \<Rightarrow> 'a mt_event \<Rightarrow> bool" where
  "mt_event_ok st Mt_dropped = (\<not> main_running st)"
| "mt_event_ok st _ = polls_tasks st"

text \<open>The same for a connection task and its children, which end with a \<open>JoinError\<close> where they are dropped;
  the user's calls on the handle come from other threads.\<close>

fun ct_event_ok :: "('a, 'm) manager \<Rightarrow> 'm ct_event \<Rightarrow> bool" where
  "ct_event_ok st Ct_cancel = (\<not> main_running st)"
| "ct_event_ok st (Child_writer_ends r) = (polls_tasks st \<or> r = Join_error)"
| "ct_event_ok st (Child_reader_ends r) = (polls_tasks st \<or> r = Join_error)"
| "ct_event_ok st (User_start m k) = True"
| "ct_event_ok st User_close = True"
| "ct_event_ok st User_drop = True"
| "ct_event_ok st _ = polls_tasks st"

fun mgr_exec :: "('a, 'm) mgr_event \<Rightarrow> ('a, 'm) manager \<Rightarrow> ('a, 'm) manager option" where
  "mgr_exec (Mgr_send c) st = Some (snd (cmd_send c st))"
| "mgr_exec Mgr_main st = main_step st"
| "mgr_exec (Mgr_task i e) st =
     (if i < length (mtasks st) \<and> mt_event_ok st e then
        case mt_exec e (mtasks st ! i) st of
          None \<Rightarrow> None
        | Some (t, st') \<Rightarrow> Some (st'\<lparr>mtasks := (mtasks st')[i := t]\<rparr>)
      else None)"
| "mgr_exec (Mgr_conn j e) st =
     (if j < length (conn_tasks st) \<and> ct_event_ok st e then
        case ct_exec e (conn_tasks st ! j, connections st) of
          None \<Rightarrow> None
        | Some (t, conns) \<Rightarrow> Some (st\<lparr>conn_tasks := (conn_tasks st)[j := t], connections := conns\<rparr>)
      else None)"

inductive mgr_step :: "('a, 'm) manager \<Rightarrow> ('a, 'm) manager \<Rightarrow> bool" where
  "mgr_exec e st = Some st' \<Longrightarrow> mgr_step st st'"

abbreviation mgr_reach :: "('a, 'm) manager \<Rightarrow> bool" where
  "mgr_reach \<equiv> reach (\<lambda>st. \<exists>polls rt. st = manager_new polls rt) mgr_step"

inductive_cases mgr_stepE: "mgr_step st st'"

fun mgr_run :: "('a, 'm) mgr_event list \<Rightarrow> ('a, 'm) manager \<Rightarrow> ('a, 'm) manager option" where
  "mgr_run [] st = Some st"
| "mgr_run (e # es) st = (case mgr_exec e st of None \<Rightarrow> None | Some st' \<Rightarrow> mgr_run es st')"

section \<open>Invariant\<close>

text \<open>A connection task registers only its own stop channel.\<close>

lemma join_break_conns: "snd (join_break r (t, conns)) key = Some x \<Longrightarrow> conns key = Some x"
  by (auto simp: join_break_def split: if_splits)

lemma join_conns:
  "join_stop r (t, conns) = Some tc' \<Longrightarrow> snd tc' key = Some x \<Longrightarrow> conns key = Some x"
  "join_writer ws rs r (t, conns) = Some tc' \<Longrightarrow> snd tc' key = Some x \<Longrightarrow> conns key = Some x"
  "join_reader ws rs q r (t, conns) = Some tc' \<Longrightarrow> snd tc' key = Some x \<Longrightarrow> conns key = Some x"
  by (auto simp: join_stop_def join_writer_def join_reader_def Let_def dest: join_break_conns
      split: if_splits prod.splits outcome.splits poll.splits join_result.splits sum.splits)

lemma user_close_conns: "snd (user_close c (t, conns)) key = Some x \<Longrightarrow> conns key = Some x"
  by (auto simp: user_close_def conn_close_def Let_def split: if_splits option.splits prod.splits)

lemma config_conns:
  "snd (wait_for_start_config r (t, conns)) key = Some x \<Longrightarrow> conns key = Some x \<or> x = ct_id t"
  by (auto simp: wait_for_start_config_def split: cfg_chan.splits if_splits)

lemma ct_exec_conns:
  assumes "ct_exec e (t, conns) = Some tc'" and "snd tc' key = Some x"
  shows "conns key = Some x \<or> x = ct_id t"
  using assms
  by (cases e) (auto split: if_splits ct_pc.splits dest: join_conns user_close_conns config_conns)

text \<open>Every connection task of the manager, seen with the shared map, is in a state its own system can
  reach; channel names are handed out once; a connecting task has called back or spawned, never both.\<close>

definition conns_ok :: "('a, 'm) manager \<Rightarrow> bool" where
  "conns_ok st \<longleftrightarrow>
     (\<forall>t \<in> set (conn_tasks st). ct_id t < next_chan st \<and>
        conn_reach (ct_id t) (ct_local t) (ct_peer t) (t, connections st)) \<and>
     distinct (map ct_id (conn_tasks st)) \<and>
     (\<forall>key k. connections st key = Some k \<longrightarrow> k < next_chan st)"

definition mt_ok :: "nat set \<Rightarrow> 'a mtask \<Rightarrow> bool" where
  "mt_ok ids t \<longleftrightarrow>
     (case mt_pc t of
        MT_done \<Rightarrow>
          if mt_listens t then mt_calls t = [] \<or> mt_spawned t = [] \<and> (\<exists>e. mt_calls t = [OnListenError (mt_addr t) e])
          else mt_spawned t = [] \<and> (\<exists>e. mt_calls t = [OnConnectError (mt_addr t) e]) \<or>
               mt_calls t = [] \<and> (\<exists>k \<in> ids. mt_spawned t = [k])
      | L_accept _ _ \<Rightarrow> mt_listens t \<and> mt_calls t = []
      | L_bind \<Rightarrow> mt_listens t \<and> mt_calls t = [] \<and> mt_spawned t = []
      | MT_dropped \<Rightarrow> mt_calls t = []
      | _ \<Rightarrow> \<not> mt_listens t \<and> mt_calls t = [] \<and> mt_spawned t = [])"

text \<open>The cancel channel a listening task waits on.\<close>

fun cancel_name :: "mt_pc \<Rightarrow> nat option" where
  "cancel_name (L_accept k _) = Some k"
| "cancel_name _ = None"

definition tasks_ok :: "('a, 'm) manager \<Rightarrow> bool" where
  "tasks_ok st \<longleftrightarrow>
     (\<forall>t \<in> set (mtasks st). mt_ok (ct_id ` set (conn_tasks st)) t) \<and>
     (\<forall>i < length (mtasks st). \<forall>k. cancel_name (mt_pc (mtasks st ! i)) = Some k \<longrightarrow> k < next_chan st) \<and>
     (\<forall>i < length (mtasks st). \<forall>j < length (mtasks st). \<forall>k.
        cancel_name (mt_pc (mtasks st ! i)) = Some k \<longrightarrow> cancel_name (mt_pc (mtasks st ! j)) = Some k \<longrightarrow> i = j)"

text \<open>No task is dropped while \<open>main\<close> runs.\<close>

definition none_dropped :: "('a, 'm) manager \<Rightarrow> bool" where
  "none_dropped st \<longleftrightarrow> (main_running st \<longrightarrow>
     (\<forall>t \<in> set (conn_tasks st). ct_pc t \<noteq> CT_cancelled) \<and> (\<forall>t \<in> set (mtasks st). mt_pc t \<noteq> MT_dropped))"

definition mgr_inv :: "('a, 'm) manager \<Rightarrow> bool" where
  "mgr_inv st \<longleftrightarrow> conns_ok st \<and> tasks_ok st \<and> none_dropped st \<and> (\<not> main_running st \<longrightarrow> cmd_queue st = [])"

lemma conn_reach_ids:
  "conn_reach k la pa (t, conns) \<Longrightarrow> ct_id t = k \<and> ct_local t = la \<and> ct_peer t = pa"
  using conn_system.reach_inv [of k la pa "(t, conns)"] by (auto simp: ct_inv_def)

text \<open>Changing the map for a connection task that is not concerned.\<close>

lemma conn_reach_others:
  assumes "conn_reach k la pa (t, conns)" and "\<And>key. conns' key = Some k \<Longrightarrow> conns key = Some k"
  shows "conn_reach k la pa (t, conns')"
  using assms conn_reach_ids [OF assms(1)] by (blast intro: reach_step conn_step.step_others)

lemma conn_task_step_ok:
  assumes "conns_ok st" and "j < length (conn_tasks st)"
    and "ct_exec e (conn_tasks st ! j, connections st) = Some (t', conns')"
  shows "conns_ok (st\<lparr>conn_tasks := (conn_tasks st)[j := t'], connections := conns'\<rparr>)"
    and "ct_id t' = ct_id (conn_tasks st ! j)"
proof -
  let ?t = "conn_tasks st ! j"
  have old: "conn_reach (ct_id t) (ct_local t) (ct_peer t) (t, connections st)" "ct_id t < next_chan st"
    if "t \<in> set (conn_tasks st)" for t
    using assms(1) that by (auto simp: conns_ok_def)
  have in_set: "?t \<in> set (conn_tasks st)" using assms(2) by simp
  have new: "conn_reach (ct_id ?t) (ct_local ?t) (ct_peer ?t) (t', conns')"
    by (rule reach_step [OF old(1) [OF in_set] conn_step.step_task [OF assms(3)]])
  note ids = conn_reach_ids [OF new]
  then show id: "ct_id t' = ct_id ?t" by simp
  have ids_same: "map ct_id ((conn_tasks st)[j := t']) = map ct_id (conn_tasks st)"
    by (rule map_update_same) (rule id)
  have conns: "connections st key = Some k \<or> k = ct_id ?t" if "conns' key = Some k" for key k
    using ct_exec_conns [OF assms(3)] that by simp
  have others: "ct_id t < next_chan st \<and> conn_reach (ct_id t) (ct_local t) (ct_peer t) (t, conns')"
    if mem: "t \<in> set ((conn_tasks st)[j := t'])" for t
  proof -
    obtain i where i: "i < length (conn_tasks st)" "t = (conn_tasks st)[j := t'] ! i"
      using mem by (auto simp: in_set_conv_nth)
    show ?thesis
    proof (cases "i = j")
      case True
      with i new ids old(2) [OF in_set] show ?thesis by simp
    next
      case False
      with i(2) have ti: "t = conn_tasks st ! i" by simp
      with i(1) have t: "t \<in> set (conn_tasks st)" by simp
      have "ct_id t \<noteq> ct_id ?t"
        using assms(1,2) i(1) ti False by (simp add: conns_ok_def distinct_conv_nth)
      with conns old [OF t] show ?thesis by (blast intro: conn_reach_others)
    qed
  qed
  have "k < next_chan st" if "conns' key = Some k" for key k
    using conns [OF that] assms(1) old(2) [OF in_set] unfolding conns_ok_def by blast
  with assms(1) others ids_same
  show "conns_ok (st\<lparr>conn_tasks := (conn_tasks st)[j := t'], connections := conns'\<rparr>)"
    by (simp add: conns_ok_def)
qed

text \<open>The steps of the connecting and listening tasks.\<close>

lemma spawn_connection_ok:
  assumes "conns_ok st" and "spawn_connection t la pa st = (t', st')"
  shows "conns_ok st'" and "ct_id ` set (conn_tasks st') = insert (next_chan st) (ct_id ` set (conn_tasks st))"
    and "mtasks st' = mtasks st" "next_chan st' = Suc (next_chan st)" "listeners st' = listeners st"
    "main_running st' = main_running st" "cmd_queue st' = cmd_queue st" "connections st' = connections st"
    and "t' = t\<lparr>mt_spawned := mt_spawned t @ [next_chan st]\<rparr>"
proof -
  from assms(2) show st': "mtasks st' = mtasks st" "next_chan st' = Suc (next_chan st)" "listeners st' = listeners st"
    "main_running st' = main_running st" "cmd_queue st' = cmd_queue st" "connections st' = connections st"
    "t' = t\<lparr>mt_spawned := mt_spawned t @ [next_chan st]\<rparr>"
    by (auto simp: spawn_connection_def)
  from assms(2) have ct: "conn_tasks st' = conn_tasks st @ [handle_connection (next_chan st) la pa]"
    by (auto simp: spawn_connection_def)
  then show "ct_id ` set (conn_tasks st') = insert (next_chan st) (ct_id ` set (conn_tasks st))"
    by (simp add: handle_connection_def)
  have "connections st key \<noteq> Some (next_chan st)" for key
    using assms(1) unfolding conns_ok_def by blast
  then have "conn_reach (next_chan st) la pa (handle_connection (next_chan st) la pa, connections st)"
    by (intro reach_init) (simp add: conn_init_def)
  with assms(1) st' ct show "conns_ok st'"
    by (auto simp: conns_ok_def handle_connection_def less_Suc_eq)
qed

lemma mt_ok_mono: "mt_ok ids t \<Longrightarrow> ids \<subseteq> ids' \<Longrightarrow> mt_ok ids' t"
  by (auto simp: mt_ok_def split: mt_pc.splits if_splits)

text \<open>Replacing one task, with at most a new channel name.\<close>

lemma tasks_ok_update:
  assumes "tasks_ok st" and "i < length (mtasks st)"
    and "ct_id ` set (conn_tasks st) \<subseteq> ct_id ` set (conn_tasks st')" and "next_chan st \<le> next_chan st'"
    and "mtasks st' = mtasks st" and "mt_ok (ct_id ` set (conn_tasks st')) t"
    and "cancel_name (mt_pc t) = cancel_name (mt_pc (mtasks st ! i)) \<or> cancel_name (mt_pc t) = None \<or>
      cancel_name (mt_pc t) = Some (next_chan st) \<and> next_chan st < next_chan st'"
  shows "tasks_ok (st'\<lparr>mtasks := (mtasks st')[i := t]\<rparr>)"
proof -
  let ?ts = "(mtasks st)[i := t]" and ?cn = "\<lambda>t. cancel_name (mt_pc t)"
  have ok: "mt_ok (ct_id ` set (conn_tasks st')) u" if "u \<in> set ?ts" for u
  proof -
    from that have "u = t \<or> u \<in> set (mtasks st)" using set_update_subset_insert by fastforce
    with assms(1,3,6) show ?thesis by (auto simp: tasks_ok_def intro: mt_ok_mono)
  qed
  have old: "k < next_chan st" if "j < length (mtasks st)" "?cn (mtasks st ! j) = Some k" for j k
    using assms(1) that by (simp add: tasks_ok_def)
  have uniq: "j = l" if "j < length (mtasks st)" "l < length (mtasks st)"
    "?cn (mtasks st ! j) = Some k" "?cn (mtasks st ! l) = Some k" for j l k
    using assms(1) that by (auto simp: tasks_ok_def)
  have lt: "k < next_chan st'" if "j < length (mtasks st)" "?cn (?ts ! j) = Some k" for j k
    using that old [of j k] old [of i k] assms(2,4,7) by (cases "j = i") auto
  have uniq': "j = l" if jl: "j < length (mtasks st)" "l < length (mtasks st)"
    "?cn (?ts ! j) = Some k" "?cn (?ts ! l) = Some k" for j l k
  proof (cases "j = i \<longleftrightarrow> l = i")
    case True
    with jl uniq show ?thesis by (cases "j = i") auto
  next
    case False
    then obtain a where a: "a < length (mtasks st)" "a \<noteq> i" "?cn (mtasks st ! a) = Some k" "?cn t = Some k"
      using jl assms(2) by (cases "j = i") auto
    with assms(2,7) old [OF a(1,3)] uniq [OF a(1) assms(2) a(3)] show ?thesis by auto
  qed
  from ok lt uniq' assms(5) show ?thesis by (simp add: tasks_ok_def)
qed

text \<open>What a step of task \<open>i\<close> to \<open>t\<close> has to keep.\<close>

definition mt_step_ok :: "('a, 'm) manager \<Rightarrow> nat \<Rightarrow> 'a mtask \<times> ('a, 'm) manager \<Rightarrow> bool" where
  "mt_step_ok st i tst \<longleftrightarrow>
     (case tst of (t, st') \<Rightarrow> conns_ok st' \<and> tasks_ok (st'\<lparr>mtasks := (mtasks st')[i := t]\<rparr>) \<and>
        main_running st' = main_running st \<and> cmd_queue st' = cmd_queue st)"

lemma mt_same_ok:
  assumes "conns_ok st" and "tasks_ok st" and "i < length (mtasks st)" and "mt_ok (ct_id ` set (conn_tasks st)) u"
    and "cancel_name (mt_pc u) = cancel_name (mt_pc (mtasks st ! i)) \<or> cancel_name (mt_pc u) = None"
  shows "mt_step_ok st i (u, st)"
proof -
  have "tasks_ok (st\<lparr>mtasks := (mtasks st)[i := u]\<rparr>)"
    by (rule tasks_ok_update [OF assms(2,3)]) (use assms(4,5) in auto)
  with assms(1) show ?thesis by (simp add: mt_step_ok_def)
qed

lemma mt_spawn_ok:
  assumes "conns_ok st" and "tasks_ok st" and "i < length (mtasks st)"
    and "mt_ok (insert (next_chan st) (ct_id ` set (conn_tasks st))) (u\<lparr>mt_spawned := mt_spawned u @ [next_chan st]\<rparr>)"
    and "cancel_name (mt_pc u) = cancel_name (mt_pc (mtasks st ! i)) \<or> cancel_name (mt_pc u) = None"
  shows "mt_step_ok st i (spawn_connection u la pa st)"
proof -
  obtain u' st' where sp: "spawn_connection u la pa st = (u', st')" by fastforce
  note post = spawn_connection_ok [OF assms(1) sp]
  have "tasks_ok (st'\<lparr>mtasks := (mtasks st')[i := u']\<rparr>)"
    by (rule tasks_ok_update [OF assms(2,3)]) (use post assms(4,5) in auto)
  with post sp show ?thesis by (simp add: mt_step_ok_def)
qed

lemma connect_result_ok:
  assumes "conns_ok st" and "tasks_ok st" and "i < length (mtasks st)" and "mt_pc (mtasks st ! i) = C_connect"
  shows "mt_step_ok st i (connect_result r (mtasks st ! i) st)"
proof -
  let ?t = "mtasks st ! i" and ?ids = "ct_id ` set (conn_tasks st)"
  have fresh: "\<not> mt_listens ?t" "mt_calls ?t = []" "mt_spawned ?t = []"
    using assms(2-4) by (auto simp: tasks_ok_def mt_ok_def dest!: bspec [OF _ nth_mem])
  have "mt_step_ok st i (?t\<lparr>mt_pc := MT_done, mt_calls := [OnConnectError (mt_addr ?t) e]\<rparr>, st)" for e
    by (rule mt_same_ok [OF assms(1-3)]) (use fresh in \<open>auto simp: mt_ok_def\<close>)
  moreover have "mt_step_ok st i (spawn_connection (?t\<lparr>mt_pc := MT_done\<rparr>) la pa st)" for la pa
    by (rule mt_spawn_ok [OF assms(1-3)]) (use fresh in \<open>auto simp: mt_ok_def\<close>)
  ultimately show ?thesis using fresh(2) by (auto simp: connect_result_def Let_def split: sum.splits prod.splits)
qed

lemma bind_result_ok:
  assumes "conns_ok st" and "tasks_ok st" and "i < length (mtasks st)" and "mt_pc (mtasks st ! i) = L_bind"
  shows "mt_step_ok st i (bind_result r (mtasks st ! i) st)"
proof -
  let ?t = "mtasks st ! i"
  let ?st = "st\<lparr>next_chan := Suc (next_chan st), listeners := (listeners st)(mt_addr ?t \<mapsto> next_chan st)\<rparr>"
    and ?u = "?t\<lparr>mt_pc := L_accept (next_chan st) False\<rparr>"
  have fresh: "mt_listens ?t" "mt_calls ?t = []" "mt_spawned ?t = []"
    using assms(2-4) by (auto simp: tasks_ok_def mt_ok_def dest!: bspec [OF _ nth_mem])
  have "mt_step_ok st i (?t\<lparr>mt_pc := MT_done, mt_calls := [OnListenError (mt_addr ?t) e]\<rparr>, st)" for e
    by (rule mt_same_ok [OF assms(1-3)]) (use fresh in \<open>auto simp: mt_ok_def\<close>)
  moreover have "tasks_ok (?st\<lparr>mtasks := (mtasks ?st)[i := ?u]\<rparr>)"
    by (rule tasks_ok_update [OF assms(2,3)]) (use fresh in \<open>auto simp: mt_ok_def\<close>)
  moreover have "conns_ok ?st" using assms(1) by (auto simp: conns_ok_def less_Suc_eq)
  ultimately show ?thesis using fresh(2) by (auto simp: bind_result_def mt_step_ok_def split: sum.splits)
qed

lemma accept_result_ok:
  assumes "conns_ok st" and "tasks_ok st" and "i < length (mtasks st)" and "mt_pc (mtasks st ! i) = L_accept k b"
  shows "mt_step_ok st i (accept_result k r (mtasks st ! i) st)"
proof -
  let ?t = "mtasks st ! i"
  have ok: "mt_ok (ct_id ` set (conn_tasks st)) ?t" using assms(2,3) by (simp add: tasks_ok_def)
  with assms(4) have fresh: "mt_listens ?t" "mt_calls ?t = []" by (auto simp: mt_ok_def)
  have "mt_step_ok st i (?t, st)" "mt_step_ok st i (?t\<lparr>mt_pc := L_accept k True\<rparr>, st)"
    by (rule mt_same_ok [OF assms(1-3)]; use ok fresh assms(4) in \<open>simp add: mt_ok_def\<close>)+
  moreover have "mt_step_ok st i (spawn_connection ?t la pa st)" for la pa
    by (rule mt_spawn_ok [OF assms(1-3)]) (use fresh assms(4) in \<open>auto simp: mt_ok_def\<close>)
  ultimately show ?thesis by (auto simp: accept_result_def split: sum.splits prod.splits)
qed

lemma mt_exec_ok:
  assumes "conns_ok st" and "tasks_ok st" and "i < length (mtasks st)"
    and "mt_exec e (mtasks st ! i) st = Some tst"
  shows "mt_step_ok st i tst"
proof -
  have ok: "mt_ok (ct_id ` set (conn_tasks st)) (mtasks st ! i)" using assms(2,3) by (simp add: tasks_ok_def)
  show ?thesis
    using assms(4) ok mt_same_ok [OF assms(1-3)] connect_result_ok [OF assms(1-3)] bind_result_ok [OF assms(1-3)]
      accept_result_ok [OF assms(1-3)]
    by (cases e) (auto simp: mt_ok_def split: mt_pc.splits if_splits bool.splits)
qed

lemma conns_ok_maps:
  assumes "conns_ok st" and "conn_tasks st' = conn_tasks st" and "next_chan st' = next_chan st"
    and "connections st' = connections st \<or> connections st' = Map.empty"
  shows "conns_ok st'"
  using assms by (auto simp: conns_ok_def intro: conn_reach_others)

lemma tasks_ok_append:
  assumes "tasks_ok st" and "mtasks st' = mtasks st @ [t]" and "conn_tasks st' = conn_tasks st"
    and "next_chan st' = next_chan st" and "mt_ok {} t" and "cancel_name (mt_pc t) = None"
  shows "tasks_ok st'"
proof -
  have nth: "cancel_name (mt_pc (mtasks st' ! i)) =
      (if i < length (mtasks st) then cancel_name (mt_pc (mtasks st ! i)) else None)" if "i < length (mtasks st')" for i
    using that assms(2,6) by (auto simp: nth_append less_Suc_eq)
  have "\<forall>t \<in> set (mtasks st'). mt_ok (ct_id ` set (conn_tasks st')) t"
    using assms by (auto simp: tasks_ok_def intro: mt_ok_mono)
  with assms(1,4) nth show ?thesis unfolding tasks_ok_def by (metis option.distinct(1))
qed

text \<open>What a step leaves alone, and that nothing is dropped.\<close>

lemma mt_exec_main: "mt_exec e t st = Some (t', st') \<Longrightarrow> main_running st' = main_running st"
  by (cases e) (auto simp: connect_result_def bind_result_def accept_result_def spawn_connection_def Let_def
      split: mt_pc.splits bool.splits sum.splits if_splits prod.splits)

lemma mt_exec_mtasks: "mt_exec e t st = Some (t', st') \<Longrightarrow> mtasks st' = mtasks st"
  by (cases e) (auto simp: connect_result_def bind_result_def accept_result_def spawn_connection_def Let_def
      split: mt_pc.splits bool.splits sum.splits if_splits prod.splits)

text \<open>A result with another program counter than \<open>CT_cancelled\<close>.\<close>

lemma close_not_cancelled: "ct_pc (connection_close r t) \<noteq> CT_cancelled" "ct_pc (fst (join_break r (t, conns))) \<noteq> CT_cancelled"
  by (simp_all add: join_break_def connection_close_def split: outcome.splits)

lemma join_not_cancelled:
  "join_stop r (t, conns) = Some tc \<Longrightarrow> ct_pc (fst tc) \<noteq> CT_cancelled"
  "join_writer ws rs r (t, conns) = Some tc \<Longrightarrow> ct_pc (fst tc) \<noteq> CT_cancelled"
  "join_reader ws rs q r (t, conns) = Some tc \<Longrightarrow> ct_pc (fst tc) \<noteq> CT_cancelled"
  by (auto simp: join_stop_def join_writer_def join_reader_def Let_def close_not_cancelled
      split: if_splits prod.splits outcome.splits poll.splits join_result.splits sum.splits)

lemma start_not_cancelled:
  "ct_pc (wait_for_start_call t) \<noteq> CT_cancelled" "ct_pc (wait_for_start_return res r t) \<noteq> CT_cancelled"
  "ct_pc t \<noteq> CT_cancelled \<Longrightarrow> ct_pc (fst (wait_for_start_config r (t, conns))) \<noteq> CT_cancelled"
  by (auto simp: wait_for_start_call_def wait_for_start_return_def wait_for_start_config_def close_not_cancelled
      split: outcome.splits sum.splits cfg_chan.splits)

lemma ct_exec_not_cancelled:
  assumes "ct_exec e (t, conns) = Some tc" and "e \<noteq> Ct_cancel" and "ct_pc t \<noteq> CT_cancelled"
  shows "ct_pc (fst tc) \<noteq> CT_cancelled"
  using assms by (cases e) (auto simp: start_not_cancelled user_close_fields
      dest: join_not_cancelled split: if_splits ct_pc.splits)

lemma mt_exec_not_dropped:
  assumes "mt_exec e t st = Some (t', st')" and "e \<noteq> Mt_dropped"
  shows "mt_pc t \<noteq> MT_dropped \<Longrightarrow> mt_pc t' \<noteq> MT_dropped"
    and "set (conn_tasks st') \<subseteq> set (conn_tasks st) \<union> {handle_connection k la pa | k la pa. True}"
  using assms
  by (cases e; auto simp: connect_result_def bind_result_def accept_result_def spawn_connection_def Let_def
      split: mt_pc.splits bool.splits sum.splits if_splits prod.splits)+

lemma mgr_exec_none_dropped:
  assumes "none_dropped st" and "mgr_exec e st = Some st'"
  shows "none_dropped st'"
proof (cases e)
  case (Mgr_task i ev)
  with assms(2) obtain t st1 where i: "i < length (mtasks st)" and ok: "mt_event_ok st ev"
    and s: "mt_exec ev (mtasks st ! i) st = Some (t, st1)" and st': "st' = st1\<lparr>mtasks := (mtasks st1)[i := t]\<rparr>"
    by (auto split: if_splits option.splits)
  show ?thesis
  proof (cases "main_running st")
    case True
    with ok have ev: "ev \<noteq> Mt_dropped" by auto
    have t: "mt_pc t \<noteq> MT_dropped" using mt_exec_not_dropped(1) [OF s ev] assms(1) True i by (simp add: none_dropped_def)
    have "ct_pc u \<noteq> CT_cancelled" if "u \<in> set (conn_tasks st1)" for u
      using mt_exec_not_dropped(2) [OF s ev] that assms(1) True by (auto simp: none_dropped_def handle_connection_def)
    moreover have "mt_pc u \<noteq> MT_dropped" if "u \<in> set ((mtasks st1)[i := t])" for u
      using that t assms(1) True mt_exec_mtasks [OF s] set_update_subset_insert [of "mtasks st" i t]
      by (auto simp: none_dropped_def)
    ultimately show ?thesis by (simp add: none_dropped_def st')
  qed (use mt_exec_main [OF s] in \<open>simp add: none_dropped_def st'\<close>)
next
  case (Mgr_conn j ev)
  with assms(2) obtain t conns where j: "j < length (conn_tasks st)" and ok: "ct_event_ok st ev"
    and s: "ct_exec ev (conn_tasks st ! j, connections st) = Some (t, conns)"
    and st': "st' = st\<lparr>conn_tasks := (conn_tasks st)[j := t], connections := conns\<rparr>"
    by (auto split: if_splits option.splits)
  have "ct_pc u \<noteq> CT_cancelled" if u: "u \<in> set ((conn_tasks st)[j := t])" and run: "main_running st" for u
  proof -
    have old: "ct_pc v \<noteq> CT_cancelled" if "v \<in> set (conn_tasks st)" for v
      using assms(1) run that by (simp add: none_dropped_def)
    have "ev \<noteq> Ct_cancel" using ok run by auto
    from ct_exec_not_cancelled [OF s this] old j have "ct_pc t \<noteq> CT_cancelled" by simp
    with u old set_update_subset_insert [of "conn_tasks st" j t] show ?thesis by auto
  qed
  with assms(1) show ?thesis by (simp add: none_dropped_def st')
qed (use assms in \<open>auto simp: none_dropped_def cmd_send_def main_step_def listen_on_addr_def connect_to_addr_def
    stop_all_def Let_def split: if_splits list.splits command.splits\<close>)

lemma mgr_exec_main:
  assumes "\<not> main_running st" and "mgr_exec e st = Some st'"
  shows "\<not> main_running st'"
  using assms
  by (cases e) (auto simp: cmd_send_def main_step_def split: if_splits option.splits dest: mt_exec_main)

lemma main_step_inv:
  assumes "mgr_inv st" and "main_step st = Some st'"
  shows "mgr_inv st'"
proof -
  from assms(2) obtain c cs where run: "main_running st" and q: "cmd_queue st = c # cs"
    by (auto simp: main_step_def split: if_splits list.splits)
  from assms(1) have ok: "conns_ok st" "tasks_ok st" by (simp_all add: mgr_inv_def)
  have live: "none_dropped st'"
    using mgr_exec_none_dropped [of st Mgr_main st'] assms by (simp add: mgr_inv_def)
  have new: "conns_ok st' \<and> tasks_ok st'"
    if "mtasks st' = mtasks st @ [\<lparr>mt_addr = a, mt_listens = l, mt_pc = pc, mt_calls = [], mt_spawned = []\<rparr>]"
      "conn_tasks st' = conn_tasks st" "next_chan st' = next_chan st" "connections st' = connections st"
      "pc = L_bind \<and> l \<or> (\<exists>d. pc = C_start d) \<and> \<not> l" for a l pc
    using that conns_ok_maps [OF ok(1)] by (auto intro!: tasks_ok_append [OF ok(2)] simp: mt_ok_def)
  show ?thesis
  proof (cases c)
    case (Listen a)
    with assms(2) run q live new [of a True L_bind] show ?thesis
      by (simp add: main_step_def mgr_inv_def listen_on_addr_def) auto
  next
    case (Connect a d)
    with assms(2) run q live new [of a False "C_start d"] show ?thesis
      by (simp add: main_step_def mgr_inv_def connect_to_addr_def) auto
  next
    case (CancelListen a)
    with assms(2) run q live ok show ?thesis
      by (auto simp: main_step_def mgr_inv_def tasks_ok_def intro: conns_ok_maps)
  next
    case Abort
    with assms(2) run q live ok show ?thesis
      by (auto simp: main_step_def mgr_inv_def tasks_ok_def stop_all_def intro: conns_ok_maps)
  qed
qed

lemma mgr_exec_inv:
  assumes "mgr_inv st" and "mgr_exec e st = Some st'"
  shows "mgr_inv st'"
proof -
  have live: "none_dropped st'" using mgr_exec_none_dropped [OF _ assms(2)] assms(1) by (simp add: mgr_inv_def)
  show ?thesis
  proof (cases e)
    case (Mgr_send c)
    have "conns_ok (st\<lparr>cmd_queue := cmd_queue st @ [c]\<rparr>)" if "conns_ok st"
      by (rule conns_ok_maps [OF that]) simp_all
    with Mgr_send assms live show ?thesis
      by (cases "main_running st") (auto simp: cmd_send_def mgr_inv_def tasks_ok_def)
  next
    case Mgr_main
    with assms show ?thesis by (auto intro: main_step_inv)
  next
    case (Mgr_task i ev)
    with assms(2) obtain t st1 where i: "i < length (mtasks st)" and s: "mt_exec ev (mtasks st ! i) st = Some (t, st1)"
      and st': "st' = st1\<lparr>mtasks := (mtasks st1)[i := t]\<rparr>"
      by (auto split: if_splits option.splits)
    from assms(1) have "conns_ok st" "tasks_ok st" "\<not> main_running st \<longrightarrow> cmd_queue st = []" by (simp_all add: mgr_inv_def)
    with live mt_exec_ok [OF this(1,2) i s] conns_ok_maps [of st1 st'] show ?thesis by (simp add: mgr_inv_def mt_step_ok_def st')
  next
    case (Mgr_conn j ev)
    with assms(2) obtain t conns where j: "j < length (conn_tasks st)"
      and s: "ct_exec ev (conn_tasks st ! j, connections st) = Some (t, conns)"
      and st': "st' = st\<lparr>conn_tasks := (conn_tasks st)[j := t], connections := conns\<rparr>"
      by (auto split: if_splits option.splits)
    from assms(1) have ok: "conns_ok st" "tasks_ok st" "\<not> main_running st \<longrightarrow> cmd_queue st = []"
      by (simp_all add: mgr_inv_def)
    note step = conn_task_step_ok [OF ok(1) j s]
    have ids: "map ct_id ((conn_tasks st)[j := t]) = map ct_id (conn_tasks st)"
      by (rule map_update_same) (rule step(2))
    have "conn_tasks st' = (conn_tasks st)[j := t]" by (simp add: st')
    then have "set (map ct_id (conn_tasks st')) = set (map ct_id (conn_tasks st))" by (simp only: ids)
    then have "ct_id ` set (conn_tasks st') = ct_id ` set (conn_tasks st)" by simp
    with live ok step show ?thesis by (simp add: mgr_inv_def tasks_ok_def st')
  qed
qed

interpretation mgr_system: invariant_system "\<lambda>st. \<exists>polls rt. st = manager_new polls rt" mgr_step mgr_inv
proof unfold_locales
  fix st :: "('a, 'm) manager"
  assume "\<exists>polls rt. st = manager_new polls rt"
  then show "mgr_inv st" by (auto simp: mgr_inv_def manager_new_def conns_ok_def tasks_ok_def none_dropped_def)
next
  fix st st' :: "('a, 'm) manager"
  assume "mgr_inv st" and "mgr_step st st'"
  from this(2,1) show "mgr_inv st'" by (cases rule: mgr_step.cases) (rule mgr_exec_inv)
qed

section \<open>Runs\<close>

lemma mgr_reach_run:
  assumes "mgr_reach st" and "mgr_run es st = Some st'"
  shows "mgr_reach st'"
  using assms
proof (induction es arbitrary: st)
  case (Cons e es)
  then obtain st1 where "mgr_exec e st = Some st1" "mgr_run es st1 = Some st'" by (auto split: option.splits)
  with Cons.IH Cons.prems(1) show ?case by (blast intro: reach_step mgr_step.intros)
qed simp

lemma mgr_reach_new: "mgr_run es (manager_new polls rt) = Some st \<Longrightarrow> mgr_reach st"
  by (rule mgr_reach_run [OF reach_init]) auto

lemmas mgr_eval = manager_new_def cmd_send_def main_step_def listen_on_addr_def connect_to_addr_def
  stop_all_def connect_result_def bind_result_def accept_result_def get_address_from_stream_def
  spawn_connection_def cancel_closed_def polls_tasks_def

text \<open>Each connection task among the others, with the map of connections they all share, is in a state that
  the system of one connection reaches.\<close>

lemma manager_refines_connection:
  assumes "mgr_reach st" and "t \<in> set (conn_tasks st)"
  shows "conn_reach (ct_id t) (ct_local t) (ct_peer t) (t, connections st)"
  using mgr_system.reach_inv [OF assms(1)] assms(2) by (auto simp: mgr_inv_def conns_ok_def)

text \<open>A run of a connection task is a run of the manager, as long as tasks are polled.\<close>

lemma ct_event_ok_polls: "polls_tasks st \<Longrightarrow> e \<noteq> Ct_cancel \<Longrightarrow> ct_event_ok st e"
  by (cases e) simp_all

lemma lift_conn_run:
  assumes "ct_run es (conn_tasks st ! j, connections st) = Some (t, conns)" and "Ct_cancel \<notin> set es"
    and "j < length (conn_tasks st)" and "polls_tasks st"
  shows "mgr_run (map (Mgr_conn j) es) st = Some (st\<lparr>conn_tasks := (conn_tasks st)[j := t], connections := conns\<rparr>)"
  using assms
proof (induction es arbitrary: st)
  case (Cons e es)
  then obtain t1 conns1 where e: "ct_exec e (conn_tasks st ! j, connections st) = Some (t1, conns1)"
    and es: "ct_run es (t1, conns1) = Some (t, conns)" by (auto split: option.splits)
  let ?st = "st\<lparr>conn_tasks := (conn_tasks st)[j := t1], connections := conns1\<rparr>"
  have "mgr_exec (Mgr_conn j e) st = Some ?st"
    using e Cons.prems(2-4) ct_event_ok_polls [of st e] by fastforce
  moreover have "mgr_run (map (Mgr_conn j) es) ?st =
      Some (?st\<lparr>conn_tasks := (conn_tasks ?st)[j := t], connections := conns\<rparr>)"
    by (rule Cons.IH) (use es Cons.prems in \<open>simp_all add: polls_tasks_def\<close>)
  ultimately show ?case by simp
qed (auto intro!: manager.equality)

lemma mgr_run_append: "mgr_run es st = Some st1 \<Longrightarrow> mgr_run (es @ fs) st = mgr_run fs st1"
  by (induction es arbitrary: st) (auto split: option.splits)

text \<open>Two connections to the same peer, the first of them running.\<close>

definition demo_mgr_events :: "(nat, string) mgr_event list" where
  "demo_mgr_events =
     [Mgr_send (Connect 7 0), Mgr_send (Connect 7 5), Mgr_main, Mgr_main,
      Mgr_task 0 Mt_poll, Mgr_task 0 (Mt_connected (Inr (Inr 1, Inr 7))),
      Mgr_task 1 Mt_poll, Mgr_task 1 Mt_poll, Mgr_task 1 (Mt_connected (Inr (Inr 2, Inr 7))),
      Mgr_conn 0 Ct_first_poll, Mgr_conn 0 (Ct_returned (Val (Inr ())) (Val (Inr ()))),
      Mgr_conn 0 (User_start ''cb'' demo_conn_config), Mgr_conn 0 (Ct_config (Val (Inr ())))]"

lemma demo_mgr:
  "\<exists>st a b. mgr_run demo_mgr_events (manager_new polls rt) = Some st \<and> polls_after st = polls rt \<and> conn_tasks st = [a, b] \<and> main_running st \<and>
     cmd_queue st = [] \<and> connections st (1, 7) = Some 0 \<and> ct_pc a = CT_join False False \<and> ct_pc b = CT_spawned \<and>
     ct_local a = 1 \<and> ct_peer a = 7 \<and> ct_id a = 0 \<and> w_child a = Running False \<and> map mt_spawned (mtasks st) = [[0], [1]] \<and>
     map mt_pc (mtasks st) = [MT_done, MT_done] \<and> map mt_listens (mtasks st) = [False, False]"
  by (simp add: demo_mgr_events_def mgr_eval ct_eval)

end
