(* ===== verification/Program.thy ===== *)
theory Program
  imports Connection Manager
begin

text \<open>
  The whole program: the manager of \<open>src/lib.rs\<close> with all its connections, each with its own sender, rings,
  writer and reader.

  The state is that of the manager, with one record of data for each connection task, in the order of
  the tasks.  A step is a step of the manager that is not one of a connection task, which may spawn a
  connection with fresh data; a step of a connection task, whose children end with the results they
  really had; or a step on the data of one connection.  The latter are those of a connection on its own;
  they are not restricted after \<open>main\<close> has returned, so the runs here include those of a runtime that stops
  polling.  Seen at its index, each connection is one of the theory \<open>Connection\<close>; what was proved there for
  one holds for every connection of the program, whatever the others do.
\<close>

section \<open>State and steps\<close>

record ('r, 'c, 'rd, 'u) conn_data =
  d_sender :: "msg_sender option"
  d_dp :: "('r, 'c) dp"
  d_reader :: "('rd, 'u c_env on_msg_write) reader_task option"

record ('a, 'm, 'r, 'c, 'rd, 'u) program =
  pg_mgr :: "('a, 'm) manager"
  pg_data :: "('r, 'c, 'rd, 'u) conn_data list"

text \<open>Connection \<open>j\<close> of the program.\<close>

definition pg_conn :: "('a, 'm, 'r, 'c, 'rd, 'u) program \<Rightarrow> nat \<Rightarrow> ('a, 'm, 'r, 'c, 'rd, 'u) connection" where
  "pg_conn pg j =
     \<lparr>c_task = conn_tasks (pg_mgr pg) ! j, c_conns = connections (pg_mgr pg), c_sender = d_sender (pg_data pg ! j),
      c_dp = d_dp (pg_data pg ! j), c_reader = d_reader (pg_data pg ! j)\<rparr>"

definition conn_data_of :: "('a, 'm, 'r, 'c, 'rd, 'u) connection \<Rightarrow> ('r, 'c, 'rd, 'u) conn_data" where
  "conn_data_of s = \<lparr>d_sender = c_sender s, d_dp = c_dp s, d_reader = c_reader s\<rparr>"

text \<open>What \<open>handle_connection\<close> creates for a new connection: the sender with its first ring.\<close>

definition fresh_data :: "('m, 'r, 'c, 'rd, 'u) conn_params \<Rightarrow> ('r, 'c, 'rd, 'u) conn_data \<Rightarrow> bool" where
  "fresh_data P d \<longleftrightarrow> dp_init (p_lib P) (d_sender d, d_dp d) \<and> d_reader d = None"

fun is_conn_event :: "('a, 'm) mgr_event \<Rightarrow> bool" where
  "is_conn_event (Mgr_conn _ _) = True"
| "is_conn_event _ = False"

text \<open>The result a child is said to end with is the one it has.\<close>

fun true_result :: "'m ct_event \<Rightarrow> ('a, 'm, 'r, 'c, 'rd, 'u) connection \<Rightarrow> bool" where
  "true_result (Child_writer_ends r) s = (writer_result (w_pc (c_dp s)) = Some r)"
| "true_result (Child_reader_ends r) s = (map_option (\<lambda>rd. reader_result (rd_pc rd)) (c_reader s) = Some r)"
| "true_result _ s = True"

text \<open>\<open>Pf j\<close> is what connection \<open>j\<close> is given.\<close>

inductive program_step ::
  "(nat \<Rightarrow> ('m, 'r, 'c, 'rd, 'u) conn_params) \<Rightarrow> ('a, 'm, 'r, 'c, 'rd, 'u) program \<Rightarrow>
     ('a, 'm, 'r, 'c, 'rd, 'u) program \<Rightarrow> bool"
  for Pf :: "nat \<Rightarrow> ('m, 'r, 'c, 'rd, 'u) conn_params" where
  pg_manager: "mgr_exec e (pg_mgr pg) = Some m \<Longrightarrow> \<not> is_conn_event e \<Longrightarrow>
    length (conn_tasks m) = length (pg_data pg) + length ds \<Longrightarrow>
    (\<And>i. i < length ds \<Longrightarrow> fresh_data (Pf (length (pg_data pg) + i)) (ds ! i)) \<Longrightarrow>
    program_step Pf pg \<lparr>pg_mgr = m, pg_data = pg_data pg @ ds\<rparr>"
| pg_task: "mgr_exec (Mgr_conn j e) (pg_mgr pg) = Some m \<Longrightarrow> true_result e (pg_conn pg j) \<Longrightarrow>
    program_step Pf pg \<lparr>pg_mgr = m, pg_data = (pg_data pg)[j := conn_data_of
      (task_moves (Pf j) (conn_tasks m ! j, connections m) (pg_conn pg j))]\<rparr>"
| pg_data: "j < length (pg_data pg) \<Longrightarrow> data_step (Pf j) (pg_conn pg j) s \<Longrightarrow>
    program_step Pf pg (pg\<lparr>pg_data := (pg_data pg)[j := conn_data_of s]\<rparr>)"

definition program_init :: "('a, 'm, 'r, 'c, 'rd, 'u) program \<Rightarrow> bool" where
  "program_init pg \<longleftrightarrow> (\<exists>polls rt. pg_mgr pg = manager_new polls rt) \<and> pg_data pg = []"

abbreviation program_reach ::
  "(nat \<Rightarrow> ('m, 'r, 'c, 'rd, 'u) conn_params) \<Rightarrow> ('a, 'm, 'r, 'c, 'rd, 'u) program \<Rightarrow> bool" where
  "program_reach Pf \<equiv> reach program_init (program_step Pf)"

section \<open>Invariant\<close>

definition conn_ok :: "('m, 'r, 'c, 'rd, 'u) conn_params \<Rightarrow> ('a, 'm, 'r, 'c, 'rd, 'u) connection \<Rightarrow> bool" where
  "conn_ok P s \<longleftrightarrow> connection_reach P (ct_id (c_task s)) (ct_local (c_task s)) (ct_peer (c_task s)) s"

definition program_inv ::
  "(nat \<Rightarrow> ('m, 'r, 'c, 'rd, 'u) conn_params) \<Rightarrow> ('a, 'm, 'r, 'c, 'rd, 'u) program \<Rightarrow> bool" where
  "program_inv Pf pg \<longleftrightarrow>
     mgr_inv (pg_mgr pg) \<and> length (pg_data pg) = length (conn_tasks (pg_mgr pg)) \<and>
     (\<forall>j < length (pg_data pg). conn_ok (Pf j) (pg_conn pg j))"

lemma conn_ok_step:
  assumes "conn_ok P s" and "connection_step P s s'"
  shows "conn_ok P s'"
proof -
  let ?k = "ct_id (c_task s)" and ?la = "ct_local (c_task s)" and ?pa = "ct_peer (c_task s)"
  from assms have reach: "connection_reach P ?k ?la ?pa s'" unfolding conn_ok_def by (rule reach_step)
  from conn_reach_ids [OF connection_parts(1) [OF reach]] reach show ?thesis by (simp add: conn_ok_def)
qed

text \<open>What the other connections may do to the map that all share.\<close>

lemma conn_ok_others:
  assumes "conn_ok P s" and "\<And>key. conns' key = Some (ct_id (c_task s)) \<Longrightarrow> c_conns s key = Some (ct_id (c_task s))"
  shows "conn_ok P (s\<lparr>c_conns := conns'\<rparr>)"
  by (rule conn_ok_step [OF assms(1)]) (rule connection_step.cs_others [OF assms(2)])

text \<open>A step of the manager that is not one of a connection task leaves the connections there are alone.\<close>

definition spawns_at_most :: "('a, 'm) manager \<Rightarrow> ('a, 'm) manager \<Rightarrow> bool" where
  "spawns_at_most st st' \<longleftrightarrow>
     (conn_tasks st' = conn_tasks st \<or>
      (\<exists>la pa. conn_tasks st' = conn_tasks st @ [handle_connection (next_chan st) la pa])) \<and>
     connections st' = connections st"

lemma spawns_at_most_results:
  "spawns_at_most st st" "spawns_at_most st (snd (spawn_connection t la pa st))" "spawns_at_most st (snd (bind_result b t st))"
  by (auto simp: spawns_at_most_def spawn_connection_def bind_result_def split: sum.split)

lemma mt_exec_frame:
  assumes "mt_exec e t st = Some (t', st')"
  shows "spawns_at_most st st'"
proof -
  have "spawns_at_most st (snd (connect_result r t st))" "spawns_at_most st (snd (accept_result k q t st))" for r k q
    by (simp_all add: connect_result_def accept_result_def spawns_at_most_results Let_def split: sum.split prod.split)
  moreover have "st' = st \<or> (\<exists>r. st' = snd (connect_result r t st)) \<or> (\<exists>k q. st' = snd (accept_result k q t st)) \<or>
      (\<exists>b. st' = snd (bind_result b t st))"
    using assms by (cases e) (auto split: mt_pc.splits bool.splits if_splits, (metis snd_conv)+)
  ultimately show ?thesis using spawns_at_most_results by metis
qed

lemma mgr_exec_frame:
  assumes "mgr_exec e st = Some st'" and "\<not> is_conn_event e"
  shows "\<exists>ts. conn_tasks st' = conn_tasks st @ ts \<and> (\<forall>t \<in> set ts. \<exists>la pa. t = handle_connection (next_chan st) la pa) \<and>
    (connections st' = connections st \<or> connections st' = Map.empty)"
proof (cases e)
  case (Mgr_task i ev)
  with assms(1) obtain t st1 where s: "mt_exec ev (mtasks st ! i) st = Some (t, st1)"
    and st': "st' = st1\<lparr>mtasks := (mtasks st1)[i := t]\<rparr>"
    by (auto split: if_splits option.splits)
  from mt_exec_frame [OF s] show ?thesis by (auto simp: st' spawns_at_most_def) blast
next
  case Mgr_main
  with assms show ?thesis
    by (auto simp: main_step_def listen_on_addr_def connect_to_addr_def stop_all_def Let_def
        split: if_splits list.splits command.splits)
qed (use assms in \<open>auto simp: cmd_send_def split: if_splits\<close>)

lemma manager_step_inv:
  assumes "program_inv Pf pg" and "mgr_exec e (pg_mgr pg) = Some m" and "\<not> is_conn_event e"
    and "length (conn_tasks m) = length (pg_data pg) + length ds"
    and "\<And>i. i < length ds \<Longrightarrow> fresh_data (Pf (length (pg_data pg) + i)) (ds ! i)"
  shows "program_inv Pf \<lparr>pg_mgr = m, pg_data = pg_data pg @ ds\<rparr>"
proof -
  let ?st = "pg_mgr pg" and ?n = "length (pg_data pg)" and ?pg = "\<lparr>pg_mgr = m, pg_data = pg_data pg @ ds\<rparr>"
  from assms(1) have mgr: "mgr_inv ?st" and len: "length (conn_tasks ?st) = ?n"
    and ok: "\<And>j. j < ?n \<Longrightarrow> conn_ok (Pf j) (pg_conn pg j)" by (auto simp: program_inv_def)
  obtain ts where ts: "conn_tasks m = conn_tasks ?st @ ts"
    "\<forall>t \<in> set ts. \<exists>la pa. t = handle_connection (next_chan ?st) la pa"
    "connections m = connections ?st \<or> connections m = Map.empty"
    using mgr_exec_frame [OF assms(2,3)] by blast
  have "conn_ok (Pf j) (pg_conn ?pg j)" if j: "j < ?n + length ds" for j
  proof (cases "j < ?n")
    case True
    have "pg_conn ?pg j = (pg_conn pg j)\<lparr>c_conns := connections m\<rparr>"
      using True len ts(1) by (simp add: pg_conn_def nth_append)
    moreover have "conn_ok (Pf j) ((pg_conn pg j)\<lparr>c_conns := connections m\<rparr>)"
      by (rule conn_ok_others [OF ok [OF True]]) (use ts(3) in \<open>auto simp: pg_conn_def\<close>)
    ultimately show ?thesis by simp
  next
    case False
    then have old: "j - ?n < length ds" "j - ?n < length ts" using j assms(4) len ts(1) by auto
    obtain la pa where t: "conn_tasks m ! j = handle_connection (next_chan ?st) la pa"
      using False len ts(1,2) old(2) by (metis nth_append nth_mem)
    have "connections ?st key = Some i \<longrightarrow> i < next_chan ?st" for key i
      using mgr unfolding mgr_inv_def conns_ok_def by blast
    then have "connections m key \<noteq> Some (next_chan ?st)" for key using ts(3) by (metis less_irrefl option.distinct(1))
    moreover have "fresh_data (Pf j) (ds ! (j - ?n))" using assms(5) [OF old(1)] False by simp
    ultimately have "connection_init (Pf j) (next_chan ?st) la pa (pg_conn ?pg j)"
      using t False by (simp add: connection_init_def pg_conn_def conn_init_def fresh_data_def nth_append)
    from reach_init [of "connection_init (Pf j) (next_chan ?st) la pa", OF this] t show ?thesis
      by (simp add: conn_ok_def pg_conn_def handle_connection_def)
  qed
  with mgr_exec_inv [OF mgr assms(2)] assms(4) show ?thesis by (simp add: program_inv_def)
qed

text \<open>A step of connection task \<open>j\<close>.\<close>

lemma task_is_step:
  assumes "ct_exec e (c_task s, c_conns s) = Some tc" and "true_result e s"
  shows "connection_step P s (task_moves P tc s)"
proof (cases "child_event e")
  case True
  with assms show ?thesis
    by (cases e) (auto simp del: ct_exec.simps intro: connection_step.cs_writer_ends connection_step.cs_reader_ends)
qed (rule connection_step.cs_task [OF assms(1)])

lemma conn_task_step_inv:
  assumes "program_inv Pf pg" and "mgr_exec (Mgr_conn j e) (pg_mgr pg) = Some m" and "true_result e (pg_conn pg j)"
  shows "program_inv Pf \<lparr>pg_mgr = m, pg_data = (pg_data pg)[j := conn_data_of
    (task_moves (Pf j) (conn_tasks m ! j, connections m) (pg_conn pg j))]\<rparr>"
proof -
  let ?st = "pg_mgr pg" and ?n = "length (pg_data pg)"
  let ?s = "task_moves (Pf j) (conn_tasks m ! j, connections m) (pg_conn pg j)"
  let ?pg = "\<lparr>pg_mgr = m, pg_data = (pg_data pg)[j := conn_data_of ?s]\<rparr>"
  from assms(1) have mgr: "mgr_inv ?st" and len: "length (conn_tasks ?st) = ?n"
    and ok: "\<And>i. i < ?n \<Longrightarrow> conn_ok (Pf i) (pg_conn pg i)" by (auto simp: program_inv_def)
  from assms(2) obtain t conns where j: "j < length (conn_tasks ?st)"
    and s: "ct_exec e (conn_tasks ?st ! j, connections ?st) = Some (t, conns)"
    and m: "m = ?st\<lparr>conn_tasks := (conn_tasks ?st)[j := t], connections := conns\<rparr>"
    by (auto split: if_splits option.splits)
  have "connection_step (Pf j) (pg_conn pg j) ?s"
    by (rule task_is_step [OF _ assms(3)]) (use s m j in \<open>simp add: pg_conn_def\<close>)
  from conn_ok_step [OF ok this] j len have "conn_ok (Pf j) ?s" by simp
  moreover have "pg_conn ?pg j = ?s"
    using j len by (simp add: pg_conn_def task_moves_def conn_data_of_def)
  ultimately have own: "conn_ok (Pf j) (pg_conn ?pg j)" by simp
  have "conn_ok (Pf i) (pg_conn ?pg i)" if i: "i < ?n" "i \<noteq> j" for i
  proof -
    have "ct_id (conn_tasks ?st ! i) \<noteq> ct_id (conn_tasks ?st ! j)"
      using mgr i j len by (simp add: mgr_inv_def conns_ok_def distinct_conv_nth)
    then have "conn_ok (Pf i) ((pg_conn pg i)\<lparr>c_conns := conns\<rparr>)"
      by (intro conn_ok_others [OF ok [OF i(1)]]) (use ct_exec_conns [OF s] in \<open>auto simp: pg_conn_def\<close>)
    moreover have "pg_conn ?pg i = (pg_conn pg i)\<lparr>c_conns := conns\<rparr>" using i by (simp add: pg_conn_def m)
    ultimately show ?thesis by simp
  qed
  with own have "\<forall>i < ?n. conn_ok (Pf i) (pg_conn ?pg i)" by blast
  with mgr_exec_inv [OF mgr assms(2)] len show ?thesis by (simp add: program_inv_def m)
qed

text \<open>A step on the data of connection \<open>j\<close>.\<close>

lemma data_step_inv:
  assumes "program_inv Pf pg" and "j < length (pg_data pg)" and "data_step (Pf j) (pg_conn pg j) s"
  shows "program_inv Pf (pg\<lparr>pg_data := (pg_data pg)[j := conn_data_of s]\<rparr>)"
proof -
  let ?pg = "pg\<lparr>pg_data := (pg_data pg)[j := conn_data_of s]\<rparr>"
  from assms(1) have ok: "\<And>i. i < length (pg_data pg) \<Longrightarrow> conn_ok (Pf i) (pg_conn pg i)" by (simp add: program_inv_def)
  from assms(3) have step: "connection_step (Pf j) (pg_conn pg j) s"
    and same: "c_task s = c_task (pg_conn pg j)" "c_conns s = c_conns (pg_conn pg j)" by (simp_all add: data_step_def)
  have "pg_conn ?pg j = s" using assms(2) same by (simp add: pg_conn_def conn_data_of_def)
  with conn_ok_step [OF ok [OF assms(2)] step] have own: "conn_ok (Pf j) (pg_conn ?pg j)" by simp
  have "conn_ok (Pf i) (pg_conn ?pg i)" if "i < length (pg_data pg)" "i \<noteq> j" for i
    using ok [OF that(1)] that(2) by (simp add: pg_conn_def)
  with own have "\<forall>i < length (pg_data pg). conn_ok (Pf i) (pg_conn ?pg i)" by blast
  with assms(1) show ?thesis by (simp add: program_inv_def)
qed

interpretation program_system: invariant_system program_init "program_step Pf" "program_inv Pf"
  for Pf :: "nat \<Rightarrow> ('m, 'r, 'c, 'rd, 'u) conn_params"
proof unfold_locales
  fix pg :: "('a, 'm, 'r, 'c, 'rd, 'u) program"
  assume "program_init pg"
  then obtain polls rt where "pg_mgr pg = manager_new polls rt" "pg_data pg = []" by (auto simp: program_init_def)
  with mgr_system.inv_init [of "manager_new polls rt"] show "program_inv Pf pg"
    by (auto simp: program_inv_def manager_new_def)
next
  fix pg pg' :: "('a, 'm, 'r, 'c, 'rd, 'u) program"
  assume inv: "program_inv Pf pg" and "program_step Pf pg pg'"
  from this(2) show "program_inv Pf pg'"
    by (cases rule: program_step.cases)
      (use inv in \<open>blast intro: manager_step_inv conn_task_step_inv data_step_inv\<close>)+
qed

text \<open>Seen from the manager, the program is the manager of its own theory.\<close>

interpretation manager_refinement:
  simulation program_init "program_step Pf" "program_inv Pf" "\<lambda>st. \<exists>polls rt. st = manager_new polls rt" mgr_step pg_mgr
  for Pf :: "nat \<Rightarrow> ('m, 'r, 'c, 'rd, 'u) conn_params"
proof unfold_locales
  fix pg pg' :: "('a, 'm, 'r, 'c, 'rd, 'u) program"
  assume "program_step Pf pg pg'"
  then have "mgr_step (pg_mgr pg) (pg_mgr pg') \<or> pg_mgr pg' = pg_mgr pg"
    by (cases rule: program_step.cases) (auto simp del: mgr_exec.simps intro: mgr_step.intros)
  then show "mgr_step\<^sup>*\<^sup>* (pg_mgr pg) (pg_mgr pg')" by auto
qed (simp add: program_init_def)

section \<open>Runs\<close>

text \<open>One event of the manager; a new connection gets the data \<open>fresh\<close> has for it.\<close>

fun program_exec ::
  "(nat \<Rightarrow> ('m, 'r, 'c, 'rd, 'u) conn_params) \<Rightarrow> (nat \<Rightarrow> ('r, 'c, 'rd, 'u) conn_data) \<Rightarrow> ('a, 'm) mgr_event \<Rightarrow>
     ('a, 'm, 'r, 'c, 'rd, 'u) program \<Rightarrow> ('a, 'm, 'r, 'c, 'rd, 'u) program option" where
  "program_exec Pf fresh (Mgr_conn j e) pg =
     (case mgr_exec (Mgr_conn j e) (pg_mgr pg) of
        None \<Rightarrow> None
      | Some m \<Rightarrow>
          if true_result e (pg_conn pg j)
          then Some \<lparr>pg_mgr = m, pg_data = (pg_data pg)[j := conn_data_of
            (task_moves (Pf j) (conn_tasks m ! j, connections m) (pg_conn pg j))]\<rparr>
          else None)"
| "program_exec Pf fresh e pg =
     map_option (\<lambda>m. \<lparr>pg_mgr = m, pg_data = pg_data pg @ map fresh [length (pg_data pg)..<length (conn_tasks m)]\<rparr>)
       (mgr_exec e (pg_mgr pg))"

fun program_run ::
  "(nat \<Rightarrow> ('m, 'r, 'c, 'rd, 'u) conn_params) \<Rightarrow> (nat \<Rightarrow> ('r, 'c, 'rd, 'u) conn_data) \<Rightarrow> ('a, 'm) mgr_event list \<Rightarrow>
     ('a, 'm, 'r, 'c, 'rd, 'u) program \<Rightarrow> ('a, 'm, 'r, 'c, 'rd, 'u) program option" where
  "program_run Pf fresh [] pg = Some pg"
| "program_run Pf fresh (e # es) pg =
     (case program_exec Pf fresh e pg of None \<Rightarrow> None | Some pg' \<Rightarrow> program_run Pf fresh es pg')"

lemma program_exec_length:
  assumes "program_inv Pf pg" and "mgr_exec e (pg_mgr pg) = Some m" and "\<not> is_conn_event e"
  shows "length (pg_data pg) \<le> length (conn_tasks m)"
proof -
  obtain ts where "conn_tasks m = conn_tasks (pg_mgr pg) @ ts" using mgr_exec_frame [OF assms(2,3)] by blast
  with assms(1) show ?thesis by (simp add: program_inv_def)
qed

lemma program_exec_step:
  assumes "program_inv Pf pg" and "\<And>i. fresh_data (Pf i) (fresh i)" and "program_exec Pf fresh e pg = Some pg'"
  shows "program_step Pf pg pg'"
proof (cases "is_conn_event e")
  case True
  then obtain j ev where "e = Mgr_conn j ev" by (cases e) auto
  with assms(3) show ?thesis
    by (auto simp del: mgr_exec.simps split: option.splits if_splits intro: program_step.pg_task)
next
  case False
  let ?n = "length (pg_data pg)"
  from False assms(3) obtain m where m: "mgr_exec e (pg_mgr pg) = Some m"
    and pg': "pg' = \<lparr>pg_mgr = m, pg_data = pg_data pg @ map fresh [?n..<length (conn_tasks m)]\<rparr>"
    by (cases e) (auto simp del: mgr_exec.simps)
  show ?thesis unfolding pg'
    by (rule program_step.pg_manager [OF m False]) (use program_exec_length [OF assms(1) m False] assms(2) in auto)
qed

lemma program_reach_run:
  assumes "program_reach Pf pg" and "\<And>i. fresh_data (Pf i) (fresh i)" and "program_run Pf fresh es pg = Some pg'"
  shows "program_reach Pf pg'"
  using assms(1,3)
proof (induction es arbitrary: pg)
  case (Cons e es)
  then obtain pg1 where e: "program_exec Pf fresh e pg = Some pg1" and es: "program_run Pf fresh es pg1 = Some pg'"
    by (auto simp del: program_exec.simps split: option.splits)
  from program_exec_step [OF program_system.reach_inv [OF Cons.prems(1)] assms(2) e]
  have "program_reach Pf pg1" by (rule reach_step [OF Cons.prems(1)])
  with Cons.IH es show ?case by blast
qed simp

lemma pg_conn_update:
  assumes "j < length (pg_data pg)" and "c_task s = c_task (pg_conn pg j)" and "c_conns s = c_conns (pg_conn pg j)"
  shows "pg_conn (pg\<lparr>pg_data := (pg_data pg)[j := conn_data_of s]\<rparr>) j = s"
  using assms by (simp add: pg_conn_def conn_data_of_def)

lemma program_reach_data:
  assumes "program_reach Pf pg" and "j < length (pg_data pg)" and "(data_step (Pf j))\<^sup>*\<^sup>* (pg_conn pg j) s"
  shows "program_reach Pf (pg\<lparr>pg_data := (pg_data pg)[j := conn_data_of s]\<rparr>) \<and>
    c_task s = c_task (pg_conn pg j) \<and> c_conns s = c_conns (pg_conn pg j)"
  using assms(3)
proof (induction rule: rtranclp_induct)
  case base
  have "conn_data_of (pg_conn pg j) = pg_data pg ! j" by (cases "pg_data pg ! j") (simp add: pg_conn_def conn_data_of_def)
  with assms(1) show ?case by simp
next
  case (step s s')
  let ?pg = "pg\<lparr>pg_data := (pg_data pg)[j := conn_data_of s]\<rparr>"
  have "pg_conn ?pg j = s" using step.IH by (intro pg_conn_update [OF assms(2)]) auto
  with step(2) have "program_step Pf ?pg (?pg\<lparr>pg_data := (pg_data ?pg)[j := conn_data_of s']\<rparr>)"
    using assms(2) by (intro program_step.pg_data) simp_all
  with step.IH have "program_reach Pf (?pg\<lparr>pg_data := (pg_data ?pg)[j := conn_data_of s']\<rparr>)" by (blast intro: reach_step)
  with step show ?case by (simp add: data_step_def)
qed

text \<open>A program with one connection that is started, sends three bytes and receives three.\<close>

definition demo_pg_events :: "(nat, string) mgr_event list" where
  "demo_pg_events =
     [Mgr_send (Connect 2 0), Mgr_main, Mgr_task 0 Mt_poll, Mgr_task 0 (Mt_connected (Inr (Inr 1, Inr 2))),
      Mgr_conn 0 Ct_first_poll, Mgr_conn 0 (User_start ''cb'' demo_config), Mgr_conn 0 (Ct_returned cb_ok cb_ok),
      Mgr_conn 0 (Ct_config cb_ok)]"

lemma demo_pg_run:
  "\<exists>pg. program_run (\<lambda>_. demo_params) (\<lambda>_. conn_data_of demo_new) demo_pg_events
       \<lparr>pg_mgr = manager_new (\<lambda>_. False) Current_thread, pg_data = []\<rparr> = Some pg \<and> length (pg_data pg) = 1 \<and>
     demo_started (c_task (pg_conn pg 0)) \<and> c_sender (pg_conn pg 0) = Some demo_sender \<and>
     c_dp (pg_conn pg 0) = demo_dp [] (False, False) ([0], False, False) 0 [] W_recv [] \<and>
     c_reader (pg_conn pg 0) = Some demo_fresh"
proof -
  have "spawn_reader demo_params (Some (''cb'', demo_config)) = Some demo_fresh"
    using demo_size(1) by (simp add: spawn_reader_def handle_reader_start_def brw_new_def demo_state_def demo_env_def)
  then show ?thesis
    by (simp add: demo_pg_events_def mgr_eval ct_eval pg_conn_def conn_data_of_def task_moves_def demo_new_def
        demo_started_def spawn_reader_def)
qed

lemma demo_pg:
  "\<exists>pg. program_reach (\<lambda>_. demo_params) pg \<and> length (pg_data pg) = 1 \<and>
     demo_started (conn_tasks (pg_mgr pg) ! 0) \<and> d_sender (pg_data pg ! 0) = None \<and>
     sent (d_dp (pg_data pg ! 0)) = [1, 2, 3] \<and> out (d_dp (pg_data pg ! 0)) = [1, 2] \<and>
     d_reader (pg_data pg ! 0) = Some demo_read_out"
proof -
  let ?Pf = "\<lambda>_ :: nat. demo_params" and ?d = "demo_dp [3] (True, False) ([], True, False) 3 [1, 2, 3] (W_flush 0 False) [1, 2]"
  obtain pg where run: "program_run ?Pf (\<lambda>_. conn_data_of demo_new) demo_pg_events
       \<lparr>pg_mgr = manager_new (\<lambda>_. False) Current_thread, pg_data = []\<rparr> = Some pg" and len: "length (pg_data pg) = 1"
    and st: "demo_started (c_task (pg_conn pg 0))" and c: "c_sender (pg_conn pg 0) = Some demo_sender"
      "c_dp (pg_conn pg 0) = demo_dp [] (False, False) ([0], False, False) 0 [] W_recv []"
      "c_reader (pg_conn pg 0) = Some demo_fresh"
    using demo_pg_run by (elim exE conjE)
  have fresh: "fresh_data demo_params (conn_data_of demo_new)"
    by (simp add: fresh_data_def conn_data_of_def demo_new_def dp_init_def make_sender_def demo_defs world.defs)
  have "program_reach ?Pf \<lparr>pg_mgr = manager_new (\<lambda>_. False) Current_thread :: (nat, string) manager, pg_data = []\<rparr>"
    by (rule reach_init) (auto simp: program_init_def)
  from program_reach_run [OF this fresh run] have reach: "program_reach ?Pf pg" .
  let ?s = "pg_conn pg 0" let ?s1 = "?s\<lparr>c_sender := None, c_dp := demo_half_written\<rparr>"
  let ?s2 = "?s1\<lparr>c_dp := ?d\<rparr>" let ?s3 = "?s2\<lparr>c_reader := Some demo_read_out\<rparr>"
  note sta = st [unfolded demo_started_def]
  have "(data_step demo_params)\<^sup>*\<^sup>* ?s ?s1" by (rule demo_send [OF st c(1,2)])
  moreover have "(data_step demo_params)\<^sup>*\<^sup>* ?s1 ?s2"
    by (rule data_writer_run [where es = "[Ev_wrote 2]" and b = False and m = "''cb''" and config = demo_config])
      (use sta in \<open>simp_all add: demo_defs flush_wrote_def\<close>)
  moreover have "(data_step demo_params)\<^sup>*\<^sup>* ?s2 ?s3"
    using data_reader_run [of ?s2 False "''cb''" demo_config demo_fresh demo_params "[False, False, False]"] sta c(3)
    by (simp add: demo_step1 demo_step2 demo_step3)
  ultimately have "(data_step demo_params)\<^sup>*\<^sup>* ?s ?s3" by (meson rtranclp_trans)
  from program_reach_data [OF reach _ this] len
  have "program_reach ?Pf (pg\<lparr>pg_data := (pg_data pg)[0 := conn_data_of ?s3]\<rparr>)" by simp
  with len st show ?thesis
    by (intro exI [of _ "pg\<lparr>pg_data := (pg_data pg)[0 := conn_data_of ?s3]\<rparr>"])
      (simp add: conn_data_of_def demo_dp_def pg_conn_def)
qed

section \<open>Properties\<close>

text \<open>C2: the program is its manager and its connections.  In every reachable state of the whole program the
  manager is in a reachable state of the manager alone, there is one record of data per connection task,
  and each connection, with its task, the shared map, its sender, rings, writer and reader, is in a
  reachable state of one connection alone: no other connection, no command and no close can bring it
  outside of what is shown for it.\<close>

theorem program_refines_connections:
  assumes "program_reach Pf pg"
  shows "mgr_reach (pg_mgr pg) \<and> length (pg_data pg) = length (conn_tasks (pg_mgr pg)) \<and>
    (\<forall>j t. j < length (pg_data pg) \<and> t = conn_tasks (pg_mgr pg) ! j \<longrightarrow>
       connection_reach (Pf j) (ct_id t) (ct_local t) (ct_peer t) (pg_conn pg j))"
  using manager_refinement.reach_abs [OF assms] program_system.reach_inv [OF assms]
  by (simp add: program_inv_def conn_ok_def pg_conn_def)

theorem program_refines_connections_witness:
  "\<exists>pg. program_reach (\<lambda>_. demo_params) pg \<and> mgr_reach (pg_mgr pg :: (nat, string) manager) \<and> length (pg_data pg) = 1 \<and>
     length (conn_tasks (pg_mgr pg)) = 1 \<and> out (d_dp (pg_data pg ! 0)) = [1, 2] \<and>
     connection_reach demo_params (ct_id (conn_tasks (pg_mgr pg) ! 0)) (ct_local (conn_tasks (pg_mgr pg) ! 0))
       (ct_peer (conn_tasks (pg_mgr pg) ! 0)) (pg_conn pg 0)"
proof -
  obtain pg :: "(nat, string, list_ring, list_chan, demo_read, nat) program" where
    pg: "program_reach (\<lambda>_. demo_params) pg" "length (pg_data pg) = 1" "out (d_dp (pg_data pg ! 0)) = [1, 2]"
    using demo_pg by blast
  with program_refines_connections [OF pg(1)] show ?thesis by (intro exI [of _ pg]) simp
qed

lemma connection_in_order:
  assumes "rb_laws (p_lib P) V" and "connection_reach P k la pa s"
  shows "\<exists>rest. sent (c_dp s) = out (c_dp s) @ rest"
proof -
  have "data_part P (started (c_task s)) (c_sender s) (c_dp s)"
    by (rule connection_invD(3) [OF connection_system.reach_inv [OF assms(2)]])
  then obtain config where "dp_reach (p_lib P) config (c_sender s, c_dp s)"
    by (cases "started (c_task s)") (auto simp: data_part_def)
  from dp_inv_in_order [OF sys_invD(1) [OF assms(1) this]] show ?thesis .
qed

lemma connection_delivers:
  assumes "connection_reach P k la pa s" and "c_reader s = Some rd" and "\<And>m. rd_pc rd \<noteq> Rd_panicked m"
    and "read_half_ok (p_poll_read P) got" and "read_eof_ok (p_poll_read P) eof" and "got (p_read P) = []"
  shows "delivered (writer (brw rd)) @ pending (brw rd) = got (reader (brw rd))"
proof -
  obtain m config where
    reach: "reader_reaches (p_on_msg P m) (p_waker P) (p_poll_read P) config (p_read P) (p_env P m) rd"
    using connection_parts(3) [OF assms(1,2)] by blast
  from reader_reaches_inv [OF reach assms(4-6)] assms(3) show ?thesis
    by (auto simp: reader_inv_def split: rd_pc.splits)
qed

text \<open>C1: every connection of the program carries two byte streams and follows the callback protocol.  In every
  reachable state of the program, for each of its connections: what the socket has accepted is the front
  of what the sender was handed; what the callback has taken, followed by what is buffered, is what was
  read from the socket, unless the reader has panicked; the callbacks are a front of \<open>OnConnect\<close>, at
  most one \<open>OnRemoteClose\<close>, \<open>OnConnectionClose\<close>; after \<open>OnRemoteClose\<close> the whole stream has been delivered; and a writer that was joined with
  \<open>Ok\<close> has written everything its dropped sender was handed.\<close>

theorem program_streams_correct:
  assumes "program_reach Pf pg" and "j < length (pg_data pg)"
    and "conn_tasks (pg_mgr pg) ! j = t" and "pg_data pg ! j = d"
    and "rb_laws (p_lib (Pf j)) V" and "read_half_ok (p_poll_read (Pf j)) got" and "read_eof_ok (p_poll_read (Pf j)) eof"
    and "got (p_read (Pf j)) = []"
  shows "(\<exists>rest. sent (d_dp d) = out (d_dp d) @ rest) \<and>
    (\<forall>rd. d_reader d = Some rd \<and> (\<forall>m. rd_pc rd \<noteq> Rd_panicked m) \<longrightarrow>
       delivered (writer (brw rd)) @ pending (brw rd) = got (reader (brw rd))) \<and>
    (\<exists>rem rest. calls t @ rest = OnConnect \<lparr>ring_buf = 0\<rparr> (conn_new (ct_id t) (ct_local t) (ct_peer t)) #
         rem @ [OnConnectionClose (ct_local t) (ct_peer t)] \<and>
       (rem = [] \<or> rem = [OnRemoteClose (ct_local t) (ct_peer t)]) \<and> (ct_pc t = CT_done \<longrightarrow> rest = [])) \<and>
    (OnRemoteClose (ct_local t) (ct_peer t) \<in> set (calls t) \<longrightarrow>
       (\<exists>rd. d_reader d = Some rd \<and> delivered (writer (brw rd)) = got (reader (brw rd)) \<and> eof (reader (brw rd)))) \<and>
    (w_child t = Joined (Join_ok (Inr ())) \<longrightarrow> d_sender d = None \<and> out (d_dp d) = sent (d_dp d))"
proof -
  let ?s = "pg_conn pg j"
  have s: "c_task ?s = t" "c_sender ?s = d_sender d" "c_dp ?s = d_dp d" "c_reader ?s = d_reader d"
    using assms(3,4) by (simp_all add: pg_conn_def)
  have "conn_ok (Pf j) ?s" using program_system.reach_inv [OF assms(1)] assms(2) by (simp add: program_inv_def)
  then have reach: "connection_reach (Pf j) (ct_id t) (ct_local t) (ct_peer t) ?s" by (simp add: conn_ok_def s(1))
  note task = connection_parts(1) [OF reach, unfolded s(1)]
  have "\<exists>rem rest. calls t @ rest = on_connect (ct_id t) (ct_local t) (ct_peer t) #
         rem @ [OnConnectionClose (ct_local t) (ct_peer t)] \<and>
       (rem = [] \<or> rem = [OnRemoteClose (ct_local t) (ct_peer t)]) \<and> (ct_pc t = CT_done \<longrightarrow> rest = [])"
    by (rule exI [of _ "remote_calls t"], insert calls_shape [OF task], elim disjE) (auto simp: remote_calls_def)
  moreover have "\<exists>rd. d_reader d = Some rd \<and> delivered (writer (brw rd)) = got (reader (brw rd)) \<and> eof (reader (brw rd))"
    if "OnRemoteClose (ct_local t) (ct_peer t) \<in> set (calls t)"
    using remote_close_after_delivery [OF reach _ assms(6-8)] that s by simp
  ultimately show ?thesis
    using connection_in_order [OF assms(5) reach] connection_delivers [OF reach _ _ assms(6-8)]
      joined_writer_done [OF assms(5) reach] unfolding s by blast
qed

theorem program_streams_correct_witness:
  "\<exists>pg rd rest. program_reach (\<lambda>_. demo_params) (pg :: (nat, string, list_ring, list_chan, demo_read, nat) program) \<and>
     out (d_dp (pg_data pg ! 0)) = [1, 2] \<and> sent (d_dp (pg_data pg ! 0)) = [1, 2, 3] \<and>
     sent (d_dp (pg_data pg ! 0)) = out (d_dp (pg_data pg ! 0)) @ rest \<and> d_reader (pg_data pg ! 0) = Some rd \<and>
     delivered (writer (brw rd)) @ pending (brw rd) = dr_got (reader (brw rd))"
proof -
  obtain pg :: "(nat, string, list_ring, list_chan, demo_read, nat) program" where
    pg: "program_reach (\<lambda>_. demo_params) pg" "length (pg_data pg) = 1" "out (d_dp (pg_data pg ! 0)) = [1, 2]"
      "sent (d_dp (pg_data pg ! 0)) = [1, 2, 3]" and rd: "d_reader (pg_data pg ! 0) = Some demo_read_out"
    using demo_pg by blast
  have laws: "rb_laws (p_lib demo_params) list_view" using list_lib_laws by simp
  have "read_half_ok (p_poll_read demo_params) dr_got" "read_eof_ok (p_poll_read demo_params) dr_eof"
    "dr_got (p_read demo_params) = []" using demo_read_ok by (simp_all add: demo_rd_def)
  note all = program_streams_correct [OF pg(1) _ refl refl laws this, of 0]
  from all pg(2) obtain rest where "sent (d_dp (pg_data pg ! 0)) = out (d_dp (pg_data pg ! 0)) @ rest" by auto
  moreover have "rd_pc demo_read_out \<noteq> Rd_panicked m" for m by (simp add: demo_state_def)
  with all pg(2) rd have "delivered (writer (brw demo_read_out)) @ pending (brw demo_read_out) = dr_got (reader (brw demo_read_out))"
    by simp
  ultimately show ?thesis using pg rd by blast
qed

end
