(* ===== verification/Manager_Props.thy ===== *)
theory Manager_Props
  imports Manager
begin

text \<open>
  The properties of the socket manager: what its commands, its tasks and its end guarantee, and where they
  do not.
\<close>

section \<open>Connections and connecting tasks\<close>

text \<open>A run of connection task \<open>j\<close> that ends it with \<open>OnConnectionClose\<close>.\<close>

definition closes :: "nat \<Rightarrow> 'm ct_event list \<Rightarrow> ('a, 'm) manager \<Rightarrow> bool" where
  "closes j es st \<longleftrightarrow>
     (case mgr_run (map (Mgr_conn j) es) st of
        None \<Rightarrow> False
      | Some st' \<Rightarrow> ct_pc (conn_tasks st' ! j) = CT_done \<and>
          last (calls (conn_tasks st' ! j)) = OnConnectionClose (ct_local (conn_tasks st ! j)) (ct_peer (conn_tasks st ! j)))"

lemma closes_run:
  assumes "mgr_reach st" and "main_running st" and "j < length (conn_tasks st)"
    and "ct_run es (conn_tasks st ! j, connections st) = Some (t', conns')" and "Ct_cancel \<notin> set es" and "ct_pc t' = CT_done"
  shows "closes j es st"
proof -
  note reach = manager_refines_connection [OF assms(1) nth_mem [OF assms(3)]]
  have "mgr_run (map (Mgr_conn j) es) st = Some (st\<lparr>conn_tasks := (conn_tasks st)[j := t'], connections := conns'\<rparr>)"
    by (rule lift_conn_run) (use assms in \<open>simp_all add: polls_tasks_def\<close>)
  with assms(3,6) done_called_close [OF conn_reach_run [OF reach assms(4)]] show ?thesis by (simp add: closes_def)
qed

lemma own_polls_no_cancel: "set es \<subseteq> own_polls v \<Longrightarrow> Ct_cancel \<notin> set es"
  by (auto simp: own_polls_def)

text \<open>What ends the two waits.\<close>

lemma user_wait_closes:
  assumes "mgr_reach st" and "main_running st" and "j < length (conn_tasks st)" and "waits_for_user (conn_tasks st ! j)"
    and "e = User_close \<or> e = User_drop"
  shows "closes j [e, Ct_config (Val v)] st"
proof -
  note reach = manager_refines_connection [OF assms(1) nth_mem [OF assms(3)]]
  from assms(4) obtain c where c: "ct_pc (conn_tasks st ! j) = CT_wait" "ct_conn (conn_tasks st ! j) = Some c" "\<not> consumed c"
    by (auto simp: waits_for_user_def)
  from conn_unstarted_ends [OF reach c assms(5), of v] obtain t' conns' where
    "ct_run [e, Ct_config (Val v)] (conn_tasks st ! j, connections st) = Some (t', conns')" "ct_pc t' = CT_done" by blast
  from closes_run [OF assms(1-3) this(1) _ this(2)] assms(5) show ?thesis by auto
qed

lemma children_wait_closes:
  assumes "mgr_reach st" and "main_running st" and "j < length (conn_tasks st)" and "conn_tasks st ! j = t"
    and "waits_for_children t (connections st)"
  shows "user_handle t \<noteq> None \<longrightarrow> closes j [User_close, Ct_stop (Val v)] st"
    and "\<exists>fs. set fs \<subseteq> own_polls v \<and> length fs \<le> 2 \<and> closes j (child_events rw rr t @ fs) st"
proof -
  note reach = manager_refines_connection [OF assms(1) nth_mem [OF assms(3)], unfolded assms(4)]
  note run = closes_run [OF assms(1-3), unfolded assms(4)]
  from assms(5) obtain ws rs where pc: "ct_pc t = CT_join ws rs" by (auto simp: waits_for_children_def)
  have "Ct_cancel \<notin> set [User_close, Ct_stop (Val v)]" by simp
  with close_then_stop [OF reach pc] run show "user_handle t \<noteq> None \<longrightarrow> closes j [User_close, Ct_stop (Val v)] st" by blast
  from children_end [OF reach pc, of rw rr v] obtain fs t' conns' where
    fs: "ct_run (child_events rw rr t @ fs) (t, connections st) = Some (t', conns')" "length fs \<le> 2" "set fs \<subseteq> own_polls v"
      "ct_pc t' = CT_done" by blast
  have "Ct_cancel \<notin> set (child_events rw rr t @ fs)" using own_polls_no_cancel [OF fs(3)] by (simp add: child_events_def)
  from run [OF fs(1) this fs(4)] fs(2,3)
  show "\<exists>fs. set fs \<subseteq> own_polls v \<and> length fs \<le> 2 \<and> closes j (child_events rw rr t @ fs) st" by blast
qed

text \<open>C12: \<open>OnConnectionClose\<close> follows \<open>OnConnect\<close>.  While \<open>main\<close> runs, every connection task that has called back
  began with \<open>OnConnect\<close>, and it is never stuck, unless one of its callbacks has panicked: whatever its callbacks
  return, at most three of its own polls bring it to its end with \<open>OnConnectionClose\<close> as the last call, or to one
  of two waits.  Either it waits for the user, who still holds the unused handle, and closing or dropping that
  makes its next poll the last; or it waits for a child that runs while nobody has closed its stop channel, and
  closing the handle, if the user still has it, makes the stop branch end it, as do, whatever their results, the ends of the children with
  at most two polls of its own.\<close>

theorem close_guaranteed:
  assumes "mgr_reach st" and "main_running st" and "j < length (conn_tasks st)" and "conn_tasks st ! j = t"
    and "calls t \<noteq> []" and "\<And>m. ct_pc t \<noteq> CT_panicked m"
  shows "hd (calls t) = OnConnect \<lparr>ring_buf = 0\<rparr> (conn_new (ct_id t) (ct_local t) (ct_peer t)) \<and>
    (\<exists>es st' t'. set es \<subseteq> own_polls v \<and> length es \<le> 3 \<and> mgr_run (map (Mgr_conn j) es) st = Some st' \<and>
       conn_tasks st' ! j = t' \<and>
       (closes j es st \<or>
        waits_for_user t' \<and> closes j [User_close, Ct_config (Val v)] st' \<and> closes j [User_drop, Ct_config (Val v)] st' \<or>
        waits_for_children t' (connections st') \<and>
          (user_handle t' \<noteq> None \<longrightarrow> closes j [User_close, Ct_stop (Val v)] st') \<and>
          (\<forall>rw rr. \<exists>fs. set fs \<subseteq> own_polls v \<and> length fs \<le> 2 \<and> closes j (child_events rw rr t' @ fs) st')))"
proof -
  have mem: "t \<in> set (conn_tasks st)" using assms(3,4) by auto
  note reach = manager_refines_connection [OF assms(1) mem]
  from conn_system.reach_inv [OF reach] have inv: "ct_pc_inv t" by (simp add: ct_inv_def)
  have "none_dropped st" using mgr_system.reach_inv [OF assms(1)] by (simp add: mgr_inv_def)
  with assms(2) mem have pc: "ct_pc t \<noteq> CT_cancelled" "ct_pc t \<noteq> CT_spawned"
    using inv assms(5) by (auto simp: none_dropped_def ct_pc_inv_def)
  have first: "hd (calls t) = on_connect (ct_id t) (ct_local t) (ct_peer t)"
    using inv assms(5) by (cases "ct_pc t") (auto simp: ct_pc_inv_def Let_def)
  have "\<exists>es t' conns'. ct_run es (t, connections st) = Some (t', conns') \<and> length es \<le> 3 \<and> set es \<subseteq> own_polls v \<and>
      ct_waits t' conns'"
  proof (cases "ct_pc t")
    case CT_done
    then show ?thesis by (intro exI [of _ "[]"]) (simp add: ct_waits_def)
  qed (use assms(6) pc conn_progress [OF reach, of _ _ v] in auto)
  then obtain es t' conns' where run: "ct_run es (t, connections st) = Some (t', conns')" and es: "length es \<le> 3"
    "set es \<subseteq> own_polls v" and waits: "ct_waits t' conns'" by blast
  let ?st = "st\<lparr>conn_tasks := (conn_tasks st)[j := t'], connections := conns'\<rparr>"
  have s: "mgr_run (map (Mgr_conn j) es) st = Some ?st"
    by (rule lift_conn_run) (use run own_polls_no_cancel [OF es(2)] assms(2-4) in \<open>simp_all add: polls_tasks_def\<close>)
  have r: "mgr_reach ?st" "main_running ?st" "j < length (conn_tasks ?st)" "conn_tasks ?st ! j = t'"
    using mgr_reach_run [OF assms(1) s] assms(2,3) by simp_all
  have "closes j es st" if "ct_pc t' = CT_done"
    using closes_run [OF assms(1-3) _ own_polls_no_cancel [OF es(2)] that] run assms(4) by simp
  with waits have "closes j es st \<or>
      waits_for_user t' \<and> closes j [User_close, Ct_config (Val v)] ?st \<and> closes j [User_drop, Ct_config (Val v)] ?st \<or>
      waits_for_children t' (connections ?st) \<and> (user_handle t' \<noteq> None \<longrightarrow> closes j [User_close, Ct_stop (Val v)] ?st) \<and>
        (\<forall>rw rr. \<exists>fs. set fs \<subseteq> own_polls v \<and> length fs \<le> 2 \<and> closes j (child_events rw rr t' @ fs) ?st)"
    using user_wait_closes [OF r(1-3), unfolded r(4)] children_wait_closes [OF r] by (auto simp: ct_waits_def)
  with first s es r(4) show ?thesis by (intro conjI exI [of _ es] exI [of _ ?st] exI [of _ t'])
qed

theorem close_guaranteed_witness:
  "\<exists>st es st'. mgr_reach (st :: (nat, string) manager) \<and> waits_for_children (conn_tasks st ! 0) (connections st) \<and>
     set es \<subseteq> own_polls (Inr ()) \<and> mgr_run (map (Mgr_conn 0) es) st = Some st' \<and>
     (closes 0 es st \<or> waits_for_user (conn_tasks st' ! 0) \<or> closes 0 [User_close, Ct_stop (Val (Inr ()))] st' \<or>
      user_handle (conn_tasks st' ! 0) = None)"
proof -
  obtain st a b where run: "mgr_run demo_mgr_events (manager_new (\<lambda>_. False) Current_thread) = Some st" and ct: "conn_tasks st = [a, b]"
    and st: "main_running st" and a: "ct_pc a = CT_join False False" "ct_local a = 1" "ct_peer a = 7" "ct_id a = 0" "w_child a = Running False"
    and reg: "connections st (1, 7) = Some 0" using demo_mgr [of "\<lambda>_. False" Current_thread] by blast
  have reach: "mgr_reach st" by (rule mgr_reach_new [OF run])
  have nth: "conn_tasks st ! 0 = a" "0 < length (conn_tasks st)" using ct by simp_all
  from conn_system.reach_inv [OF manager_refines_connection [OF reach, of a]] a(1) ct
  have "calls a \<noteq> []" by (auto simp: ct_inv_def ct_pc_inv_def)
  moreover have "ct_pc a \<noteq> CT_panicked m" for m using a(1) by simp
  moreover have "waits_for_children a (connections st)"
    using a reg by (auto simp: waits_for_children_def stop_closed_def child_running_def)
  ultimately obtain es st' t' where "set es \<subseteq> own_polls (Inr ())" "mgr_run (map (Mgr_conn 0) es) st = Some st'"
    "conn_tasks st' ! 0 = t'" "closes 0 es st \<or> waits_for_user t' \<or> closes 0 [User_close, Ct_stop (Val (Inr ()))] st' \<or> user_handle t' = None"
    and "waits_for_children a (connections st)"
    using close_guaranteed [OF reach st nth(2,1), of "Inr ()"] by blast
  with reach nth(1) show ?thesis by blast
qed

text \<open>C29: \<open>OnConnect\<close> and \<open>OnConnectError\<close> are mutually exclusive.  A connecting task that has ended has
  either called \<open>OnConnectError\<close> once and spawned nothing, or called nothing and spawned exactly one
  connection task, the one that calls \<open>OnConnect\<close>.\<close>

theorem connect_exclusive:
  assumes "mgr_reach st" and "t \<in> set (mtasks st)" and "\<not> mt_listens t" and "mt_pc t = MT_done"
  shows "(\<exists>e. mt_calls t = [OnConnectError (mt_addr t) e]) \<and> mt_spawned t = [] \<or>
    mt_calls t = [] \<and> (\<exists>c \<in> set (conn_tasks st). mt_spawned t = [ct_id c])"
proof -
  have "mt_ok (ct_id ` set (conn_tasks st)) t"
    using mgr_system.reach_inv [OF assms(1)] assms(2) by (simp add: mgr_inv_def tasks_ok_def)
  with assms(3,4) show ?thesis by (auto simp: mt_ok_def)
qed

theorem connect_exclusive_witness:
  "\<exists>st t. mgr_reach (st :: (nat, string) manager) \<and> t \<in> set (mtasks st) \<and> \<not> mt_listens t \<and> mt_pc t = MT_done \<and>
     mt_calls t = [] \<and> (\<exists>c \<in> set (conn_tasks st). mt_spawned t = [ct_id c])"
proof -
  obtain st where run: "mgr_run demo_mgr_events (manager_new (\<lambda>_. True) (Multi_thread 4)) = Some st"
    and m: "map mt_spawned (mtasks st) = [[0], [1]]" "map mt_pc (mtasks st) = [MT_done, MT_done]"
      "map mt_listens (mtasks st) = [False, False]"
    using demo_mgr [of "\<lambda>_. True" "Multi_thread 4"] by (elim exE conjE) (rule that)
  have reach: "mgr_reach st" by (rule mgr_reach_new [OF run])
  from m(1) obtain t u where tu: "mtasks st = [t, u]" by (auto simp: map_eq_Cons_conv)
  with m have t: "mtasks st = [t, u]" "mt_spawned t = [0]" "\<not> mt_listens t" "mt_pc t = MT_done" by simp_all
  then have mem: "t \<in> set (mtasks st)" by simp
  from connect_exclusive [OF reach mem t(3,4)] t(2)
  have "mt_calls t = [] \<and> (\<exists>c \<in> set (conn_tasks st). mt_spawned t = [ct_id c])" by simp
  with reach mem t show ?thesis by blast
qed

section \<open>The end\<close>

text \<open>\<open>Abort\<close> empties both maps: every listening task finds its cancel branch ready and every connection in the
  join its stop branch, and from then on every method reports that the manager has stopped.\<close>

lemma abort_stops_all:
  assumes "main_running st" and "cmd_queue st = Abort # cs"
  shows "\<exists>st'. main_step st = Some st' \<and> mtasks st' = mtasks st \<and> conn_tasks st' = conn_tasks st \<and>
    (\<forall>t \<in> set (mtasks st'). \<forall>k b. mt_pc t = L_accept k b \<longrightarrow>
       mt_exec Mt_cancelled t st' = Some (t\<lparr>mt_pc := MT_done\<rparr>, st')) \<and>
    (\<forall>t \<in> set (conn_tasks st'). stop_closed t (connections st')) \<and>
    sm_listen_on_addr a st' = (stopped_err, st') \<and> sm_connect_to_addr a d st' = (stopped_err, st') \<and>
    sm_cancel_listen_on_addr a st' = (stopped_err, st')"
  using assms
  by (auto simp: main_step_def stop_all_def cancel_closed_def stop_closed_def sm_listen_on_addr_def
      sm_connect_to_addr_def sm_cancel_listen_on_addr_def cmd_send_def)

text \<open>What becomes of the tasks then: a listener that accepts takes its cancel branch, a connection in the join its
  stop branch, and the shutdown of the runtime drops every other task where it awaits.\<close>

definition stop_task :: "('a, 'm) conn_task \<Rightarrow> ('a, 'm) conn_task" where
  "stop_task t =
     (case ct_pc t of
        CT_join _ _ \<Rightarrow> connection_close (Val (Inr ()))
          (t\<lparr>w_child := child_abort (w_child t), r_child := child_abort (r_child t)\<rparr>)
      | _ \<Rightarrow> if ct_awaits t then t\<lparr>ct_pc := CT_cancelled\<rparr> else t)"

fun ended_pc :: "mt_pc \<Rightarrow> mt_pc" where
  "ended_pc (L_accept _ _) = MT_done"
| "ended_pc MT_done = MT_done"
| "ended_pc _ = MT_dropped"

definition cancel_task :: "'a mtask \<Rightarrow> 'a mtask" where
  "cancel_task t = t\<lparr>mt_pc := ended_pc (mt_pc t)\<rparr>"

lemma stop_task_run:
  assumes "connections st = Map.empty" and "polls_after st" and "\<not> main_running st" and "k < length (conn_tasks st)"
  shows "\<exists>es. mgr_run es st = Some (st\<lparr>conn_tasks := (conn_tasks st)[k := stop_task (conn_tasks st ! k)]\<rparr>)"
proof -
  let ?t = "conn_tasks st ! k"
  have run: "\<exists>es. mgr_run es st = Some (st\<lparr>conn_tasks := (conn_tasks st)[k := stop_task ?t]\<rparr>)"
    if "ct_exec e (?t, connections st) = Some (stop_task ?t, connections st)" "ct_event_ok st e" for e
  proof -
    have "mgr_run [Mgr_conn k e] st = Some (st\<lparr>conn_tasks := (conn_tasks st)[k := stop_task ?t], connections := connections st\<rparr>)"
      using that assms(4) by simp
    then show ?thesis by (intro exI [of _ "[Mgr_conn k e]"]) (simp del: mgr_run.simps)
  qed
  consider (join) ws rs where "ct_pc ?t = CT_join ws rs" | (await) "ct_awaits ?t" "\<And>ws rs. ct_pc ?t \<noteq> CT_join ws rs"
    | (other) "\<not> ct_awaits ?t" "\<And>ws rs. ct_pc ?t \<noteq> CT_join ws rs" by blast
  then show ?thesis
  proof cases
    case join
    then show ?thesis
      using assms by (intro run [of "Ct_stop (Val (Inr ()))"])
        (auto simp: join_stop_def stop_closed_def join_break_def stop_task_def polls_tasks_def)
  next
    case await
    then show ?thesis using assms by (intro run [of Ct_cancel]) (auto simp: stop_task_def split: ct_pc.split)
  next
    case other
    then have "stop_task ?t = ?t" by (auto simp: stop_task_def split: ct_pc.split)
    then show ?thesis by (intro exI [of _ "[]"]) simp
  qed
qed

lemma cancel_task_run:
  assumes "listeners st = Map.empty" and "polls_after st" and "\<not> main_running st" and "k < length (mtasks st)"
  shows "\<exists>es. mgr_run es st = Some (st\<lparr>mtasks := (mtasks st)[k := cancel_task (mtasks st ! k)]\<rparr>)"
proof -
  let ?t = "mtasks st ! k"
  consider (accept) n b where "mt_pc ?t = L_accept n b" | (over) "mt_pc ?t = MT_done"
    | (other) "mt_pc ?t \<noteq> MT_done" "ended_pc (mt_pc ?t) = MT_dropped" by (cases "mt_pc ?t") auto
  then show ?thesis
  proof cases
    case accept
    with assms show ?thesis
      by (intro exI [of _ "[Mgr_task k Mt_cancelled]"]) (auto simp: cancel_closed_def cancel_task_def polls_tasks_def)
  next
    case over
    then have "cancel_task ?t = ?t" by (simp add: cancel_task_def)
    then show ?thesis by (intro exI [of _ "[]"]) simp
  next
    case other
    with assms show ?thesis by (intro exI [of _ "[Mgr_task k Mt_dropped]"]) (simp add: cancel_task_def)
  qed
qed

text \<open>One run for the first \<open>k\<close> tasks of a list.\<close>

lemma sweep:
  assumes step: "\<And>k ys. k < length ys \<Longrightarrow> \<exists>es. mgr_run es (put ys) = Some (put (ys[k := f (ys ! k)]))"
    and "k \<le> length xs"
  shows "\<exists>es. mgr_run es (put xs) = Some (put (map f (take k xs) @ drop k xs))"
  using assms(2)
proof (induction k)
  case 0
  show ?case by (intro exI [of _ "[]"]) simp
next
  case (Suc k)
  let ?ys = "map f (take k xs) @ drop k xs"
  obtain es where es: "mgr_run es (put xs) = Some (put ?ys)" using Suc by auto
  obtain fs where fs: "mgr_run fs (put ?ys) = Some (put (?ys[k := f (?ys ! k)]))" using step [of k ?ys] Suc.prems by auto
  have "?ys[k := f (?ys ! k)] = map f (take (Suc k) xs) @ drop (Suc k) xs"
    using Suc.prems by (simp add: take_Suc_conv_app_nth nth_append list_update_append Cons_nth_drop_Suc [symmetric])
  with es fs mgr_run_append [OF es, of fs] show ?case by auto
qed

text \<open>C13: \<open>Abort\<close> ends everything, and closes what runs.  On a runtime that goes on polling its tasks after \<open>main\<close>
  has returned, once \<open>main\<close> has handled \<open>Abort\<close> there is a run to a state in which: every listener that was accepting
  has ended by its cancel branch; every connection that was in the join has aborted its children and called
  \<open>OnConnectionClose\<close>; every other task that awaits (connecting, binding, or a connection not yet started) has been
  dropped by the shutdown of the runtime, without any callback, and only a connection inside its \<open>OnConnect\<close>
  callback is left as it was; both maps are empty, \<open>main\<close> has ended, and all three commands report it.\<close>

theorem abort_closes_all:
  assumes "mgr_reach st" and "main_running st" and "cmd_queue st = Abort # cs" and "polls_after st"
  shows "\<exists>es st'. mgr_run (Mgr_main # es) st = Some st' \<and> \<not> main_running st' \<and>
    listeners st' = Map.empty \<and> connections st' = Map.empty \<and>
    length (mtasks st') = length (mtasks st) \<and> length (conn_tasks st') = length (conn_tasks st) \<and>
    (\<forall>i < length (mtasks st). mtasks st' ! i = (mtasks st ! i)\<lparr>mt_pc :=
       (case mt_pc (mtasks st ! i) of L_accept _ _ \<Rightarrow> MT_done | MT_done \<Rightarrow> MT_done | _ \<Rightarrow> MT_dropped)\<rparr>) \<and>
    (\<forall>j t t'. j < length (conn_tasks st) \<and> t = conn_tasks st ! j \<and> t' = conn_tasks st' ! j \<longrightarrow>
       (case ct_pc t of
          CT_join _ _ \<Rightarrow> ct_pc t' = CT_done \<and> calls t' = calls t @ [OnConnectionClose (ct_local t) (ct_peer t)] \<and>
            w_child t' = child_abort (w_child t) \<and> r_child t' = child_abort (r_child t)
        | CT_spawned \<Rightarrow> t' = t\<lparr>ct_pc := CT_cancelled\<rparr>
        | CT_wait \<Rightarrow> t' = t\<lparr>ct_pc := CT_cancelled\<rparr>
        | _ \<Rightarrow> t' = t)) \<and>
    sm_listen_on_addr a st' = (stopped_err, st') \<and> sm_connect_to_addr a d st' = (stopped_err, st') \<and>
    sm_cancel_listen_on_addr a st' = (stopped_err, st')"
proof -
  let ?st1 = "(stop_all (st\<lparr>cmd_queue := cs\<rparr>))\<lparr>main_running := False, cmd_queue := []\<rparr>"
  let ?ts = "map cancel_task (mtasks st)" and ?cs = "map stop_task (conn_tasks st)"
  let ?st2 = "?st1\<lparr>mtasks := ?ts\<rparr>" and ?st3 = "?st1\<lparr>mtasks := ?ts, conn_tasks := ?cs\<rparr>"
  have st1: "mgr_run [Mgr_main] st = Some ?st1" using assms(2,3) by (simp add: main_step_def)
  have maps: "listeners ?st1 = Map.empty" "connections ?st1 = Map.empty" "polls_after ?st1"
    using assms(4) by (simp_all add: stop_all_def)
  have "\<exists>es. mgr_run es (?st1\<lparr>mtasks := ys\<rparr>) = Some (?st1\<lparr>mtasks := ys[k := cancel_task (ys ! k)]\<rparr>)" if "k < length ys" for k ys
    using cancel_task_run [of "?st1\<lparr>mtasks := ys\<rparr>" k] maps that by simp
  from sweep [of "\<lambda>ys. ?st1\<lparr>mtasks := ys\<rparr>" cancel_task "length (mtasks st)" "mtasks st", OF this]
  obtain es where es: "mgr_run es ?st1 = Some ?st2" by (auto simp: stop_all_def)
  have "\<exists>es. mgr_run es (?st2\<lparr>conn_tasks := ys\<rparr>) = Some (?st2\<lparr>conn_tasks := ys[k := stop_task (ys ! k)]\<rparr>)"
    if "k < length ys" for k ys
    using stop_task_run [of "?st2\<lparr>conn_tasks := ys\<rparr>" k] maps that by simp
  from sweep [of "\<lambda>ys. ?st2\<lparr>conn_tasks := ys\<rparr>" stop_task "length (conn_tasks st)" "conn_tasks st", OF this]
  obtain fs where fs: "mgr_run fs ?st2 = Some ?st3" by (auto simp: stop_all_def)
  have run: "mgr_run (Mgr_main # es @ fs) st = Some ?st3"
    using mgr_run_append [OF st1, of "es @ fs"] mgr_run_append [OF es, of fs] fs by simp
  have tasks: "cancel_task t = t\<lparr>mt_pc := (case mt_pc t of L_accept _ _ \<Rightarrow> MT_done | MT_done \<Rightarrow> MT_done | _ \<Rightarrow> MT_dropped)\<rparr>"
    for t :: "'a mtask" by (cases "mt_pc t") (simp_all add: cancel_task_def)
  have conns: "case ct_pc t of
          CT_join _ _ \<Rightarrow> ct_pc t' = CT_done \<and> calls t' = calls t @ [OnConnectionClose (ct_local t) (ct_peer t)] \<and>
            w_child t' = child_abort (w_child t) \<and> r_child t' = child_abort (r_child t)
        | CT_spawned \<Rightarrow> t' = t\<lparr>ct_pc := CT_cancelled\<rparr>
        | CT_wait \<Rightarrow> t' = t\<lparr>ct_pc := CT_cancelled\<rparr>
        | _ \<Rightarrow> t' = t" if "j < length (conn_tasks st) \<and> t = conn_tasks st ! j \<and> t' = conn_tasks ?st3 ! j" for j t t'
  proof -
    from that have "t' = stop_task t" by simp
    then show ?thesis by (simp add: stop_task_def ct_awaits_def split: ct_pc.split)
  qed
  have cmds: "sm_listen_on_addr a ?st3 = (stopped_err, ?st3)" "sm_connect_to_addr a d ?st3 = (stopped_err, ?st3)"
    "sm_cancel_listen_on_addr a ?st3 = (stopped_err, ?st3)"
    by (simp_all add: sm_listen_on_addr_def sm_connect_to_addr_def sm_cancel_listen_on_addr_def cmd_send_def)
  have rest: "\<not> main_running ?st3" "listeners ?st3 = Map.empty" "connections ?st3 = Map.empty"
    "length (mtasks ?st3) = length (mtasks st)" "length (conn_tasks ?st3) = length (conn_tasks st)"
    "\<forall>i < length (mtasks st). mtasks ?st3 ! i = (mtasks st ! i)\<lparr>mt_pc :=
       (case mt_pc (mtasks st ! i) of L_accept _ _ \<Rightarrow> MT_done | MT_done \<Rightarrow> MT_done | _ \<Rightarrow> MT_dropped)\<rparr>"
    by (simp_all add: tasks stop_all_def)
  show ?thesis
    by (rule exI [of _ "es @ fs"], rule exI [of _ ?st3], intro conjI run rest cmds, intro allI impI, rule conns)
qed

theorem abort_closes_all_witness:
  "\<exists>st es st'. mgr_reach (st :: (nat, string) manager) \<and> ct_pc (conn_tasks st ! 0) = CT_join False False \<and>
     ct_pc (conn_tasks st ! 1) = CT_spawned \<and> mgr_run (Mgr_main # es) st = Some st' \<and> \<not> main_running st' \<and>
     ct_pc (conn_tasks st' ! 0) = CT_done \<and> last (calls (conn_tasks st' ! 0)) = OnConnectionClose 1 7 \<and>
     ct_pc (conn_tasks st' ! 1) = CT_cancelled"
proof -
  obtain st a b where run: "mgr_run demo_mgr_events (manager_new (\<lambda>_. True) (Multi_thread 4)) = Some st"
    and rt: "polls_after st" and ct: "conn_tasks st = [a, b]"
    and a: "ct_pc a = CT_join False False" "ct_local a = 1" "ct_peer a = 7" "ct_pc b = CT_spawned"
    and st: "main_running st" "cmd_queue st = []" using demo_mgr [of "\<lambda>_. True" "Multi_thread 4"] by blast
  let ?st = "snd (cmd_send Abort st)"
  have reach: "mgr_reach ?st"
    by (rule mgr_reach_run [OF mgr_reach_new [OF run], of "[Mgr_send Abort]"]) simp
  have q: "main_running ?st" "cmd_queue ?st = [Abort]" "polls_after ?st" "conn_tasks ?st = [a, b]"
    using st rt ct by (simp_all add: cmd_send_def)
  from abort_closes_all [OF reach q(1-3), of 3 0] obtain es st' where
    es: "mgr_run (Mgr_main # es) ?st = Some st'" "\<not> main_running st'"
    and all: "\<forall>j t t'. j < length (conn_tasks ?st) \<and> t = conn_tasks ?st ! j \<and> t' = conn_tasks st' ! j \<longrightarrow>
       (case ct_pc t of
          CT_join _ _ \<Rightarrow> ct_pc t' = CT_done \<and> calls t' = calls t @ [OnConnectionClose (ct_local t) (ct_peer t)] \<and>
            w_child t' = child_abort (w_child t) \<and> r_child t' = child_abort (r_child t)
        | CT_spawned \<Rightarrow> t' = t\<lparr>ct_pc := CT_cancelled\<rparr>
        | CT_wait \<Rightarrow> t' = t\<lparr>ct_pc := CT_cancelled\<rparr>
        | _ \<Rightarrow> t' = t)"
    by (elim exE conjE) (rule that)
  from all [rule_format, of 0 a "conn_tasks st' ! 0"] all [rule_format, of 1 b "conn_tasks st' ! 1"] a q(4)
  have "ct_pc (conn_tasks st' ! 0) = CT_done" "last (calls (conn_tasks st' ! 0)) = OnConnectionClose 1 7"
    "ct_pc (conn_tasks st' ! 1) = CT_cancelled" by simp_all
  moreover have "ct_pc (conn_tasks ?st ! 0) = CT_join False False" "ct_pc (conn_tasks ?st ! 1) = CT_spawned"
    using a q(4) by simp_all
  ultimately show ?thesis using reach es by blast
qed

text \<open>On a runtime that polls no task once \<open>main\<close> has returned, \<open>Abort\<close> ends the calls: a connection that has called
  \<open>OnConnect\<close> and is then stopped never calls \<open>OnConnectionClose\<close>.\<close>

lemma mt_exec_polls: "mt_exec e t st = Some (t', st') \<Longrightarrow> polls_after st' = polls_after st"
  by (cases e) (auto simp: connect_result_def bind_result_def accept_result_def spawn_connection_def Let_def
      split: mt_pc.splits bool.splits sum.splits if_splits prod.splits)

lemma mgr_exec_polls: "mgr_exec e st = Some st' \<Longrightarrow> polls_after st' = polls_after st"
  by (cases e) (auto simp: cmd_send_def main_step_def listen_on_addr_def connect_to_addr_def stop_all_def Let_def
      split: if_splits option.splits list.splits command.splits dest: mt_exec_polls)

lemma unpolled_calls:
  assumes "ct_event_ok st e" and "\<not> polls_tasks st" and "ct_exec e (t, conns) = Some tc"
  shows "calls (fst tc) = calls t"
  using assms by (cases e) (auto simp: user_same_calls user_close_fields split: if_splits)

lemma unpolled_silent:
  assumes "\<not> polls_tasks st" and "mgr_exec e st = Some st'"
  shows "\<not> polls_tasks st' \<and> map calls (conn_tasks st') = map calls (conn_tasks st) \<and>
    map mt_calls (mtasks st') = map mt_calls (mtasks st)"
proof -
  have stopped: "\<not> polls_tasks st'"
    using assms mgr_exec_main [of st e st'] mgr_exec_polls [OF assms(2)] by (simp add: polls_tasks_def)
  show ?thesis
  proof (cases e)
    case (Mgr_conn j ev)
    with assms(2) obtain t conns where ok: "ct_event_ok st ev"
      and s: "ct_exec ev (conn_tasks st ! j, connections st) = Some (t, conns)"
      and st': "st' = st\<lparr>conn_tasks := (conn_tasks st)[j := t], connections := conns\<rparr>"
      by (auto split: if_splits option.splits)
    from stopped map_update_same [of calls t "conn_tasks st" j] unpolled_calls [OF ok assms(1) s] show ?thesis by (simp add: st')
  next
    case (Mgr_task i ev)
    with assms(2) obtain t st1 where ok: "mt_event_ok st ev" and s: "mt_exec ev (mtasks st ! i) st = Some (t, st1)"
      and st': "st' = st1\<lparr>mtasks := (mtasks st1)[i := t]\<rparr>"
      by (auto split: if_splits option.splits)
    with assms(1) have "st1 = st" "mt_calls t = mt_calls (mtasks st ! i)" by (cases ev; auto split: if_splits)+
    with stopped map_update_same [of mt_calls t "mtasks st" i] show ?thesis by (simp add: st')
  qed (use assms stopped in \<open>auto simp: cmd_send_def main_step_def polls_tasks_def split: if_splits\<close>)
qed

text \<open>A stopped manager stays stopped.  Once \<open>main\<close> has returned, no later event makes it handle a
  command again, and every later command is refused.\<close>

lemma manager_stays_stopped:
  assumes "\<not> main_running st" and "mgr_run es st = Some st'"
  shows "main_step st' = None \<and> sm_connect_to_addr a d st' = (stopped_err, st')"
proof -
  have "\<not> main_running st'"
    using assms
  proof (induction es arbitrary: st)
    case (Cons e es)
    then obtain st1 where "mgr_exec e st = Some st1" "mgr_run es st1 = Some st'" by (auto split: option.splits)
    with Cons.IH Cons.prems(1) mgr_exec_main show ?case by blast
  qed simp
  then show ?thesis by (simp add: main_step_def sm_connect_to_addr_def cmd_send_def)
qed

section \<open>Listeners and shared keys\<close>

lemma list_update_same_index: "i < length xs \<Longrightarrow> xs[j := y] ! i = (if i = j then y else xs ! i)"
  by (cases "i = j") auto

lemma mt_exec_stalled:
  assumes "mt_pc t = L_accept k True \<or> mt_pc t = MT_done \<or> mt_pc t = MT_dropped"
    and "mt_exec e t st = Some (t', st')"
  shows "(mt_pc t' = L_accept k True \<or> mt_pc t' = MT_done \<or> mt_pc t' = MT_dropped) \<and>
    mt_spawned t' = mt_spawned t \<and> mt_calls t' = mt_calls t"
  using assms by (cases e) (auto split: mt_pc.splits bool.splits if_splits)

definition stalled :: "nat \<Rightarrow> 'a mtask \<Rightarrow> 'a mtask \<Rightarrow> bool" where
  "stalled k t0 t \<longleftrightarrow> (mt_pc t = L_accept k True \<or> mt_pc t = MT_done \<or> mt_pc t = MT_dropped) \<and>
     mt_spawned t = mt_spawned t0 \<and> mt_calls t = mt_calls t0"

lemma mgr_exec_stalled:
  assumes "i < length (mtasks st)" and "stalled k t0 (mtasks st ! i)" and "mgr_exec e st = Some st'"
  shows "i < length (mtasks st') \<and> stalled k t0 (mtasks st' ! i)"
proof (cases e)
  case (Mgr_task j ev)
  with assms(3) obtain t st1 where s: "mt_exec ev (mtasks st ! j) st = Some (t, st1)"
    and st': "st' = st1\<lparr>mtasks := (mtasks st1)[j := t]\<rparr>"
    by (auto split: if_splits option.splits)
  from assms(1,2) mt_exec_mtasks [OF s] mt_exec_stalled [of "mtasks st ! i" k ev st t st1] s show ?thesis
    by (auto simp: st' list_update_same_index stalled_def)
next
  case Mgr_main
  with assms show ?thesis
    by (auto simp: main_step_def listen_on_addr_def connect_to_addr_def stop_all_def nth_append Let_def
        split: if_splits list.splits command.splits)
qed (use assms in \<open>auto simp: cmd_send_def split: if_splits option.splits\<close>)

text \<open>C37: a failed \<open>accept\<close> ends a listener's work.  After one error the accept branch is disabled for the
  rest of the \<open>select!\<close>, which only cancelling ends: whatever happens later, the task accepts no further
  connection, and it calls nothing back.\<close>

theorem accept_error_stalls:
  assumes "i < length (mtasks st)" and "mt_pc (mtasks st ! i) = L_accept k False"
    and "mgr_run (Mgr_task i (Mt_accepted (Inl e)) # es) st = Some st'"
  shows "mt_spawned (mtasks st' ! i) = mt_spawned (mtasks st ! i) \<and> mt_calls (mtasks st' ! i) = mt_calls (mtasks st ! i) \<and>
    (mt_pc (mtasks st' ! i) = L_accept k True \<or> mt_pc (mtasks st' ! i) = MT_done \<or> mt_pc (mtasks st' ! i) = MT_dropped)"
proof -
  let ?t0 = "mtasks st ! i"
  let ?st1 = "st\<lparr>mtasks := (mtasks st)[i := ?t0\<lparr>mt_pc := L_accept k True\<rparr>]\<rparr>"
  have run: "mgr_run es ?st1 = Some st'"
    using assms by (auto simp: accept_result_def split: if_splits)
  have "i < length (mtasks st') \<and> stalled k ?t0 (mtasks st' ! i)"
    if "mgr_run es st1 = Some st'" "i < length (mtasks st1)" "stalled k ?t0 (mtasks st1 ! i)" for st1
    using that
  proof (induction es arbitrary: st1)
    case (Cons e es)
    then obtain st2 where "mgr_exec e st1 = Some st2" "mgr_run es st2 = Some st'" by (auto split: option.splits)
    with Cons mgr_exec_stalled [of i st1 k ?t0 e st2] show ?case by blast
  qed simp
  from this [OF run] assms(1) show ?thesis by (auto simp: stalled_def)
qed

theorem accept_error_stalls_witness:
  "\<exists>st st'. mgr_reach (st :: (nat, string) manager) \<and>
     mgr_run [Mgr_task 0 (Mt_accepted (io_err Other ''EMFILE'')), Mgr_send (CancelListen 8), Mgr_main, Mgr_task 0 Mt_cancelled]
       st = Some st' \<and> mt_spawned (mtasks st' ! 0) = []"
proof -
  let ?es = "[Mgr_send (Listen 8), Mgr_main, Mgr_task 0 (Mt_bound (Inr ()))]"
  let ?fs = "[Mgr_task 0 (Mt_accepted (io_err Other ''EMFILE'')), Mgr_send (CancelListen 8), Mgr_main, Mgr_task 0 Mt_cancelled]"
  obtain st :: "(nat, string) manager" and st' where run: "mgr_run ?es (manager_new (\<lambda>_. True) (Multi_thread 4)) = Some st"
    and i: "0 < length (mtasks st)" "mt_pc (mtasks st ! 0) = L_accept 0 False"
    and sp: "mt_spawned (mtasks st ! 0) = []" and fs: "mgr_run ?fs st = Some st'"
    by (simp add: mgr_eval io_err_def)
  have "mt_spawned (mtasks st' ! 0) = []"
    using accept_error_stalls [OF i fs [unfolded io_err_def]] by (simp only: sp)
  with mgr_reach_new [OF run] fs show ?thesis by (intro exI conjI)
qed



text \<open>C38: the end of a connection can stop a newer one between the same addresses.  The map of connections is
  keyed by the addresses, and a task that leaves its join removes its key whatever the map holds under it:
  if another connection between the same addresses has registered in the meantime, its stop branch becomes
  ready although nobody has closed it.\<close>

theorem address_reuse_stops_newer:
  assumes "mgr_reach st" and "polls_tasks st" and "i < length (conn_tasks st)" and "j < length (conn_tasks st)"
    and "ct_pc (conn_tasks st ! i) = CT_join ws rs" and "ct_pc (conn_tasks st ! j) = CT_join ws' rs'" and "i \<noteq> j"
    and "ct_local (conn_tasks st ! i) = ct_local (conn_tasks st ! j)"
    and "ct_peer (conn_tasks st ! i) = ct_peer (conn_tasks st ! j)"
    and "\<not> stop_closed (conn_tasks st ! j) (connections st)"
  shows "\<exists>st'. mgr_exec (Mgr_conn i (Ct_stop (Val v))) st = Some st' \<and> ct_pc (conn_tasks st' ! i) = CT_done \<and>
    conn_tasks st' ! j = conn_tasks st ! j \<and> stop_closed (conn_tasks st' ! j) (connections st') \<and>
    mgr_exec (Mgr_conn j (Ct_stop (Val v))) st' \<noteq> None"
proof -
  let ?t = "conn_tasks st ! i" and ?u = "conn_tasks st ! j"
  have "conns_ok st" using mgr_system.reach_inv [OF assms(1)] by (simp add: mgr_inv_def)
  then have "ct_id ?t \<noteq> ct_id ?u" using assms(3,4,7) by (simp add: conns_ok_def distinct_conv_nth)
  with assms(8-10) have "stop_closed ?t (connections st)" by (simp add: stop_closed_def)
  with assms(2-7) show ?thesis
    by (simp add: join_stop_def join_break_def polls_tasks_def) (simp add: assms(8,9) stop_closed_def)
qed

theorem address_reuse_stops_newer_witness:
  "\<exists>st st'. mgr_reach (st :: (nat, string) manager) \<and> \<not> stop_closed (conn_tasks st ! 1) (connections st) \<and>
     mgr_exec (Mgr_conn 0 (Ct_stop (Val (Inr ())))) st = Some st' \<and> conn_tasks st' ! 1 = conn_tasks st ! 1 \<and>
     stop_closed (conn_tasks st' ! 1) (connections st')"
proof -
  let ?ok = "Val (Inr ()) :: (string + unit) outcome"
  let ?start = "\<lambda>i. [Mgr_conn i Ct_first_poll, Mgr_conn i (User_start ''cb'' demo_conn_config),
    Mgr_conn i (Ct_returned ?ok ?ok), Mgr_conn i (Ct_config ?ok)]"
  let ?es = "[Mgr_send (Connect 7 0), Mgr_send (Connect 7 0), Mgr_main, Mgr_main, Mgr_task 0 Mt_poll, Mgr_task 1 Mt_poll,
    Mgr_task 0 (Mt_connected (Inr (Inr 1, Inr 7))), Mgr_task 1 (Mt_connected (Inr (Inr 1, Inr 7)))] @ ?start 0 @ ?start 1"
  obtain st :: "(nat, string) manager" where run: "mgr_run ?es (manager_new (\<lambda>_. True) (Multi_thread 4)) = Some st"
    and p: "polls_tasks st" and len: "0 < length (conn_tasks st)" "1 < length (conn_tasks st)"
    and pc: "ct_pc (conn_tasks st ! 0) = CT_join False False" "ct_pc (conn_tasks st ! 1) = CT_join False False"
    and ad: "ct_local (conn_tasks st ! 0) = ct_local (conn_tasks st ! 1)" "ct_peer (conn_tasks st ! 0) = ct_peer (conn_tasks st ! 1)"
    and reg: "\<not> stop_closed (conn_tasks st ! 1) (connections st)"
    by (simp add: mgr_eval ct_eval)
  have reach: "mgr_reach st" by (rule mgr_reach_new [OF run])
  have "(0 :: nat) \<noteq> 1" by simp
  from address_reuse_stops_newer [OF reach p len pc this ad reg, of "Inr ()"] obtain st' where
    "mgr_exec (Mgr_conn 0 (Ct_stop (Val (Inr ())))) st = Some st'" "conn_tasks st' ! 1 = conn_tasks st ! 1"
    "stop_closed (conn_tasks st' ! 1) (connections st')" by (elim exE conjE)
  with reach reg show ?thesis by (intro exI conjI)
qed

section \<open>Joining\<close>

datatype sm_call = Sm_join | Sm_abort bool | Sm_drop

text \<open>The results of a sequence of calls; \<open>Val None\<close> is a call that blocks, and the first component of each call
  the result of the thread at that time, if it has ended.\<close>

fun sm_calls ::
  "((string + unit) option \<times> sm_call) list \<Rightarrow> socket_manager \<Rightarrow> ('a, 'm) manager \<Rightarrow>
     unit io_result option outcome list \<times> socket_manager \<times> ('a, 'm) manager" where
  "sm_calls [] m st = ([], m, st)"
| "sm_calls ((th, Sm_join) # cs) m st =
     (case sm_join th m of (r, m1) \<Rightarrow>
       case sm_calls cs m1 st of (rs, m', st') \<Rightarrow> (r # rs, m', st'))"
| "sm_calls ((th, Sm_abort wait) # cs) m st =
     (case sm_abort th wait m st of (r, m1, st1) \<Rightarrow>
       case sm_calls cs m1 st1 of (rs, m', st') \<Rightarrow> (r # rs, m', st'))"
| "sm_calls ((th, Sm_drop) # cs) m st =
     (case sm_drop th m st of (r, m1, st1) \<Rightarrow>
       case sm_calls cs m1 st1 of (rs, m', st') \<Rightarrow> (map_outcome (map_option Inr) r # rs, m', st'))"

definition sm_inv :: "socket_manager \<Rightarrow> bool" where
  "sm_inv m \<longleftrightarrow> (has_joined m \<longleftrightarrow> join_handle m = None)"

text \<open>The calls that join, and what the join gives: nothing yet, \<open>Ok\<close>, or the panic of the thread, which the drop
  ignores.\<close>

fun joins :: "sm_call \<Rightarrow> bool" where
  "joins Sm_join = True"
| "joins (Sm_abort wait) = wait"
| "joins Sm_drop = True"

fun join_answer :: "sm_call \<Rightarrow> (string + unit) option \<Rightarrow> unit io_result option" where
  "join_answer c None = None"
| "join_answer c (Some (Inr _)) = Some (Inr ())"
| "join_answer c (Some (Inl e)) =
     Some (if c = Sm_drop then Inr () else io_err Other (''socket manager join returned error: '' @ e))"

text \<open>Each call, on a manager that has or has not been joined.\<close>

lemma sm_join_cases:
  assumes "sm_inv m"
  shows "sm_join th m =
    (Val (if has_joined m then Some (Inr ()) else join_answer Sm_join th), m\<lparr>has_joined := True, join_handle := None\<rparr>)"
  using assms by (cases m) (auto simp: sm_inv_def sm_join_def Let_def split: option.split sum.split)

lemma sm_abort_cases:
  assumes "sm_inv m"
  shows "sm_abort th wait m st =
    (Val (if wait \<and> \<not> has_joined m then join_answer (Sm_abort wait) th else Some (Inr ())),
     if wait then m\<lparr>has_joined := True, join_handle := None\<rparr> else m, snd (cmd_send Abort st))"
proof (cases th)
  case (Some r)
  then show ?thesis by (cases r) (auto simp: sm_abort_def sm_join_cases [OF assms] Let_def)
qed (auto simp: sm_abort_def sm_join_cases [OF assms] Let_def)

lemma sm_drop_cases:
  assumes "sm_inv m"
  shows "sm_drop th m st =
    (Val (if \<not> has_joined m \<and> th = None then None else Some ()), m\<lparr>has_joined := True, join_handle := None\<rparr>,
     snd (cmd_send Abort st))"
proof (cases th)
  case (Some r)
  then show ?thesis by (cases r) (simp_all add: sm_drop_def sm_abort_cases [OF assms])
qed (simp add: sm_drop_def sm_abort_cases [OF assms])

lemma sm_joined_inv [simp]: "sm_inv (m\<lparr>has_joined := True, join_handle := None\<rparr>)"
  by (simp add: sm_inv_def)

text \<open>The first call of the sequence that joins.\<close>

definition first_join :: "((string + unit) option \<times> sm_call) list \<Rightarrow> nat \<Rightarrow> bool" where
  "first_join cs i \<longleftrightarrow> joins (snd (cs ! i)) \<and> (\<forall>k < i. \<not> joins (snd (cs ! k)))"

lemma first_join_simps [simp]:
  "first_join (c # cs) 0 = joins (snd c)" "first_join (c # cs) (Suc i) \<longleftrightarrow> \<not> joins (snd c) \<and> first_join cs i"
  by (auto simp: first_join_def less_Suc_eq_0_disj)

lemma sm_call_cases:
  assumes "sm_inv m"
  shows "\<exists>m1 st1. (\<forall>cs. sm_calls ((th, c) # cs) m st =
      (case sm_calls cs m1 st1 of (rs, m', st') \<Rightarrow>
         (Val (if joins c \<and> \<not> has_joined m then join_answer c th else Some (Inr ())) # rs, m', st'))) \<and>
    sm_inv m1 \<and> (has_joined m1 \<longleftrightarrow> has_joined m \<or> joins c)"
proof (cases c)
  case (Sm_abort wait)
  with assms show ?thesis
    by (intro exI [of _ "if wait then m\<lparr>has_joined := True, join_handle := None\<rparr> else m"] exI [of _ "snd (cmd_send Abort st)"])
      (auto simp: sm_abort_cases [OF assms])
next
  case Sm_join
  then show ?thesis
    by (intro exI [of _ "m\<lparr>has_joined := True, join_handle := None\<rparr>"] exI [of _ st]) (simp add: sm_join_cases [OF assms])
next
  case Sm_drop
  have "map_option Inr (if \<not> has_joined m \<and> th = None then None else Some ()) =
      (if \<not> has_joined m then join_answer Sm_drop th else Some (Inr ()))"
  proof (cases th)
    case (Some r)
    then show ?thesis by (cases r) simp_all
  qed simp
  with Sm_drop show ?thesis
    by (intro exI [of _ "m\<lparr>has_joined := True, join_handle := None\<rparr>"] exI [of _ "snd (cmd_send Abort st)"])
      (simp add: sm_drop_cases [OF assms])
qed

lemma sm_calls_results:
  assumes "sm_inv m" and "sm_calls cs m st = (rs, m', st')"
  shows "length rs = length cs \<and> sm_inv m' \<and> (has_joined m' \<longleftrightarrow> has_joined m \<or> (\<exists>c \<in> set cs. joins (snd c))) \<and>
    (\<forall>i < length cs. rs ! i = Val (if \<not> has_joined m \<and> first_join cs i then join_answer (snd (cs ! i)) (fst (cs ! i))
       else Some (Inr ())))"
  using assms
proof (induction cs arbitrary: m st rs)
  case (Cons x cs)
  obtain th c where x: "x = (th, c)" by fastforce
  obtain m1 st1 where step: "\<forall>cs. sm_calls ((th, c) # cs) m st =
      (case sm_calls cs m1 st1 of (rs, m', st') \<Rightarrow>
         (Val (if joins c \<and> \<not> has_joined m then join_answer c th else Some (Inr ())) # rs, m', st'))"
    and m1: "sm_inv m1" "has_joined m1 \<longleftrightarrow> has_joined m \<or> joins c"
    using sm_call_cases [OF Cons.prems(1), of th c st] by blast
  obtain rs1 m2 st2 where rest: "sm_calls cs m1 st1 = (rs1, m2, st2)" by (rule prod_cases3)
  from Cons.prems(2) step rest x have rs: "rs = Val (if joins c \<and> \<not> has_joined m then join_answer c th else Some (Inr ())) # rs1"
    and m': "m' = m2" by simp_all
  have ih: "length rs1 = length cs \<and> sm_inv m' \<and>
      (has_joined m' \<longleftrightarrow> has_joined m1 \<or> (\<exists>c \<in> set cs. joins (snd c))) \<and>
      (\<forall>i < length cs. rs1 ! i = Val (if \<not> has_joined m1 \<and> first_join cs i then join_answer (snd (cs ! i)) (fst (cs ! i))
         else Some (Inr ())))"
    using Cons.IH [OF m1(1)] rest m' Cons.prems(2) step x by auto
  show ?case
    using ih m1(2) by (auto simp: rs x nth_Cons split: nat.split)
qed simp



text \<open>The worker threads.  Any positive number of threads is capped at 256, one thread gives the
  single-threaded runtime; for zero the number of processors is used, with no cap.\<close>

lemma start_runtime_threads:
  "start_runtime build_err n_cpu n =
     (if n = 0 then rt_build build_err (Multi_thread (case n_cpu of Inr c \<Rightarrow> c | Inl _ \<Rightarrow> 1))
      else if n = 1 then rt_build build_err Current_thread
      else if n \<le> 256 then rt_build build_err (Multi_thread n) else rt_build build_err (Multi_thread 256))"
  by (simp add: start_runtime_def MAX_WORKER_THREADS_def Let_def min_def)

end
