(* ===== verification/C_Api.thy ===== *)
theory C_Api
  imports C_Utils On_Msg Manager
begin

text \<open>
  The model of the exported C functions: \<open>src/c_api/socket_manager.rs\<close>, \<open>src/c_api/connection.rs\<close> and
  \<open>src/c_api/msg_sender.rs\<close>.

  A call works on the C heap; its result has the returned code, the value stored through the \<open>err\<close>
  pointer, the new heap and the new state of the Rust object behind the handle.  A \<open>c_int\<close> is a 32-bit
  word, a \<open>c_long\<close> a 64-bit word.  The text of an \<open>io::Error\<close> is its message.  The message a \<open>msg\<close>, \<open>len\<close>
  pair points to is its list of bytes.
\<close>

section \<open>Results\<close>

type_synonym c_int = "32 word"

text \<open>The arms that every function ends in: \<open>*err = null\<close> and 0, or \<open>write_display_c_str(e, err)\<close> and 1.\<close>

definition c_ok :: "c_heap \<Rightarrow> 's \<Rightarrow> (c_int \<times> ptr \<times> c_heap \<times> 's) outcome" where
  "c_ok h s = Val (0, null, h, s)"

definition c_err :: "malloc_fn \<Rightarrow> c_heap \<Rightarrow> io_error \<Rightarrow> 's \<Rightarrow> (c_int \<times> ptr \<times> c_heap \<times> 's) outcome" where
  "c_err malloc h e s =
     (case write_display_c_str malloc h (err_msg e) of
        Val (h', p) \<Rightarrow> Val (1, p, h', s)
      | Panic m \<Rightarrow> Panic m)"

section \<open>The socket manager\<close>

text \<open>A returned manager is boxed, an error gives the null pointer.\<close>

definition socket_manager_init ::
  "(runtime_builder \<Rightarrow> bool) \<Rightarrow> (runtime_builder \<Rightarrow> io_error option) \<Rightarrow> nat io_result \<Rightarrow> malloc_fn \<Rightarrow> c_heap \<Rightarrow> nat \<Rightarrow>
     ((socket_manager \<times> ('a, 'm) manager) option \<times> ptr \<times> c_heap) outcome" where
  "socket_manager_init polls build_err n_cpu malloc h n_threads =
     (case sm_init polls build_err n_cpu n_threads of
        Inr manager \<Rightarrow> Val (Some manager, null, h)
      | Inl e \<Rightarrow>
          (case write_display_c_str malloc h (err_msg e) of
             Val (h', p) \<Rightarrow> Val (None, p, h')
           | Panic m \<Rightarrow> Panic m))"

definition socket_manager_listen_on_addr ::
  "malloc_fn \<Rightarrow> (string \<Rightarrow> string + 'a) \<Rightarrow> c_heap \<Rightarrow> ptr \<Rightarrow> ('a, 'm) manager \<Rightarrow>
     (c_int \<times> ptr \<times> c_heap \<times> ('a, 'm) manager) outcome" where
  "socket_manager_listen_on_addr malloc from_str h addr st =
     (case socket_addr from_str h addr of
        Panic m \<Rightarrow> Panic m
      | Val (Inr a) \<Rightarrow>
          (case sm_listen_on_addr a st of
             (Inr _, st') \<Rightarrow> c_ok h st'
           | (Inl e, st') \<Rightarrow> c_err malloc h e st')
      | Val (Inl e) \<Rightarrow> c_err malloc h e st)"

text \<open>\<open>Duration::from_millis\<close>, in nanoseconds.\<close>

definition from_millis :: "64 word \<Rightarrow> nat" where
  "from_millis ms = unat ms * 1000000"

definition socket_manager_connect_to_addr ::
  "malloc_fn \<Rightarrow> (string \<Rightarrow> string + 'a) \<Rightarrow> c_heap \<Rightarrow> ptr \<Rightarrow> 64 word \<Rightarrow> ('a, 'm) manager \<Rightarrow>
     (c_int \<times> ptr \<times> c_heap \<times> ('a, 'm) manager) outcome" where
  "socket_manager_connect_to_addr malloc from_str h addr delay st =
     (case socket_addr from_str h addr of
        Panic m \<Rightarrow> Panic m
      | Val (Inr a) \<Rightarrow>
          (case sm_connect_to_addr a (from_millis delay) st of
             (Inr _, st') \<Rightarrow> c_ok h st'
           | (Inl e, st') \<Rightarrow> c_err malloc h e st')
      | Val (Inl e) \<Rightarrow> c_err malloc h e st)"

definition socket_manager_cancel_listen_on_addr ::
  "malloc_fn \<Rightarrow> (string \<Rightarrow> string + 'a) \<Rightarrow> c_heap \<Rightarrow> ptr \<Rightarrow> ('a, 'm) manager \<Rightarrow>
     (c_int \<times> ptr \<times> c_heap \<times> ('a, 'm) manager) outcome" where
  "socket_manager_cancel_listen_on_addr malloc from_str h addr st =
     (case socket_addr from_str h addr of
        Panic m \<Rightarrow> Panic m
      | Val (Inr a) \<Rightarrow>
          (case sm_cancel_listen_on_addr a st of
             (Inr _, st') \<Rightarrow> c_ok h st'
           | (Inl e, st') \<Rightarrow> c_err malloc h e st')
      | Val (Inl e) \<Rightarrow> c_err malloc h e st)"

text \<open>A call that blocks has the value \<open>None\<close>.\<close>

definition socket_manager_abort ::
  "malloc_fn \<Rightarrow> c_heap \<Rightarrow> (string + unit) option \<Rightarrow> bool \<Rightarrow> socket_manager \<times> ('a, 'm) manager \<Rightarrow>
     (c_int \<times> ptr \<times> c_heap \<times> socket_manager \<times> ('a, 'm) manager) option outcome" where
  "socket_manager_abort malloc h thread wait ms =
     (case sm_abort thread wait (fst ms) (snd ms) of
        (Panic m, _) \<Rightarrow> Panic m
      | (Val None, _) \<Rightarrow> Val None
      | (Val (Some (Inr _)), m', st') \<Rightarrow>
          (case c_ok h (m', st') of Val v \<Rightarrow> Val (Some v) | Panic e \<Rightarrow> Panic e)
      | (Val (Some (Inl e)), m', st') \<Rightarrow>
          (case c_err malloc h e (m', st') of Val v \<Rightarrow> Val (Some v) | Panic e \<Rightarrow> Panic e))"

definition socket_manager_join ::
  "malloc_fn \<Rightarrow> c_heap \<Rightarrow> (string + unit) option \<Rightarrow> socket_manager \<Rightarrow>
     (c_int \<times> ptr \<times> c_heap \<times> socket_manager) option outcome" where
  "socket_manager_join malloc h thread m =
     (case sm_join thread m of
        (Panic e, _) \<Rightarrow> Panic e
      | (Val None, _) \<Rightarrow> Val None
      | (Val (Some (Inr _)), m') \<Rightarrow> (case c_ok h m' of Val v \<Rightarrow> Val (Some v) | Panic e \<Rightarrow> Panic e)
      | (Val (Some (Inl e)), m') \<Rightarrow> (case c_err malloc h e m' of Val v \<Rightarrow> Val (Some v) | Panic e \<Rightarrow> Panic e))"

definition socket_manager_free ::
  "(string + unit) option \<Rightarrow> socket_manager \<times> ('a, 'm) manager \<Rightarrow> ('a, 'm) manager option outcome" where
  "socket_manager_free thread ms =
     (case sm_drop thread (fst ms) (snd ms) of
        (Panic e, _) \<Rightarrow> Panic e
      | (Val None, _) \<Rightarrow> Val None
      | (Val (Some _), _, st') \<Rightarrow> Val (Some st'))"

section \<open>The connection handle\<close>

text \<open>The state is the handle and, where it is used, what was sent on the configuration channel or the
  map of connections.\<close>

definition socket_manager_connection_start ::
  "malloc_fn \<Rightarrow> c_heap \<Rightarrow> bool \<Rightarrow> 'm \<Rightarrow> nat \<Rightarrow> 64 word \<Rightarrow> 64 word \<Rightarrow> 'a conn \<Rightarrow>
     (c_int \<times> ptr \<times> c_heap \<times> 'a conn \<times> (nat \<times> 'm \<times> conn_config) option) outcome" where
  "socket_manager_connection_start malloc h rx_alive on_msg buffer_size read_ms write_ms c =
     (case start_connection rx_alive on_msg
            \<lparr>write_flush_interval = from_millis write_ms, read_msg_flush_interval = from_millis read_ms,
             msg_buffer_size = buffer_size\<rparr> c of
        (Panic m, _) \<Rightarrow> Panic m
      | (Val (Inr _), s) \<Rightarrow> c_ok h s
      | (Val (Inl e), s) \<Rightarrow> c_err malloc h e s)"

text \<open>\<open>to_string\<close> is the \<open>Display\<close> of a socket address.\<close>

definition socket_manager_connection_local_addr ::
  "malloc_fn \<Rightarrow> c_heap \<Rightarrow> ('a \<Rightarrow> string) \<Rightarrow> 'a conn \<Rightarrow> (c_heap \<times> ptr) outcome" where
  "socket_manager_connection_local_addr malloc h to_string c =
     write_display_c_str malloc h (to_string (local_addr c))"

definition socket_manager_connection_peer_addr ::
  "malloc_fn \<Rightarrow> c_heap \<Rightarrow> ('a \<Rightarrow> string) \<Rightarrow> 'a conn \<Rightarrow> (c_heap \<times> ptr) outcome" where
  "socket_manager_connection_peer_addr malloc h to_string c =
     write_display_c_str malloc h (to_string (peer_addr c))"

definition socket_manager_connection_close ::
  "malloc_fn \<Rightarrow> c_heap \<Rightarrow> 'a conn \<Rightarrow> 'a connections \<Rightarrow>
     (c_int \<times> ptr \<times> c_heap \<times> 'a conn \<times> nat option \<times> 'a connections) outcome" where
  "socket_manager_connection_close malloc h c conns =
     (case conn_close c conns of
        (Panic m, _) \<Rightarrow> Panic m
      | (Val (Inr _), s) \<Rightarrow> c_ok h s
      | (Val (Inl e), s) \<Rightarrow> c_err malloc h e s)"

text \<open>The result is the channel whose sender is dropped, if any.\<close>

definition socket_manager_connection_free :: "'a conn \<Rightarrow> nat option" where
  "socket_manager_connection_free c = conn_drop c"

section \<open>The message sender\<close>

definition PENDING :: c_long where
  "PENDING = - 1"

text \<open>A send that does not return within its fuel has the value \<open>None\<close>.\<close>

definition socket_manager_msg_sender_send_block ::
  "malloc_fn \<Rightarrow> c_heap \<Rightarrow> ('r, 'c) rb_lib \<Rightarrow> (('r, 'c, 'z) world_scheme \<Rightarrow> ('r, 'c, 'z) world_scheme) \<Rightarrow> bool \<Rightarrow> nat \<Rightarrow>
     byte list \<Rightarrow> raw_waker \<Rightarrow> msg_sender \<Rightarrow> ('r, 'c, 'z) world_scheme \<Rightarrow>
     (c_int \<times> ptr \<times> c_heap \<times> ('r, 'c, 'z) world_scheme) outcome option" where
  "socket_manager_msg_sender_send_block malloc h L env in_async fuel msg waker s w =
     (case send_block L env in_async fuel msg waker s w of
        None \<Rightarrow> None
      | Some (Panic m, _) \<Rightarrow> Some (Panic m)
      | Some (Val (Inr _), w') \<Rightarrow> Some (c_ok h w')
      | Some (Val (Inl e), w') \<Rightarrow> Some (c_err malloc h e w'))"

definition socket_manager_msg_sender_send_nonblock ::
  "malloc_fn \<Rightarrow> c_heap \<Rightarrow> ('r, 'c) rb_lib \<Rightarrow> (('r, 'c, 'z) world_scheme \<Rightarrow> ('r, 'c, 'z) world_scheme) \<Rightarrow>
     byte list \<Rightarrow> msg_sender \<Rightarrow> ('r, 'c, 'z) world_scheme \<Rightarrow>
     (c_int \<times> ptr \<times> c_heap \<times> msg_sender \<times> ('r, 'c, 'z) world_scheme) outcome" where
  "socket_manager_msg_sender_send_nonblock malloc h L env msg s w =
     (case send_nonblock L env msg s w of
        (Panic m, _) \<Rightarrow> Panic m
      | (Val (Inr _), sw) \<Rightarrow> c_ok h sw
      | (Val (Inl e), sw) \<Rightarrow> c_err malloc h e sw)"

text \<open>\<open>err\<close> is the value the caller's pointer has before the call; \<open>Pending\<close> does not write it.\<close>

definition socket_manager_msg_sender_send_async ::
  "malloc_fn \<Rightarrow> c_heap \<Rightarrow> ('r, 'c) rb_lib \<Rightarrow> (('r, 'c, 'z) world_scheme \<Rightarrow> ('r, 'c, 'z) world_scheme) \<Rightarrow>
     byte list \<Rightarrow> notifier \<Rightarrow> ptr \<Rightarrow> msg_sender \<Rightarrow> ('r, 'c, 'z) world_scheme \<Rightarrow>
     (c_long \<times> ptr \<times> c_heap \<times> ('r, 'c, 'z) world_scheme) outcome" where
  "socket_manager_msg_sender_send_async malloc h L env msg notifier err s w =
     (if this notifier = null then Panic ''assertion failed: !notifier.this.is_null()''
      else case send_async L env msg (to_waker notifier) s w of
        (Panic m, _) \<Rightarrow> Panic m
      | (Val (Ready (Inr n)), w') \<Rightarrow> Val (of_nat n, null, h, w')
      | (Val (Ready (Inl e)), w') \<Rightarrow>
          (case write_display_c_str malloc h (err_msg e) of
             Val (h', p) \<Rightarrow> Val (0, p, h', w')
           | Panic m \<Rightarrow> Panic m)
      | (Val Pending, w') \<Rightarrow> Val (PENDING, err, h, w'))"

definition socket_manager_msg_sender_flush ::
  "malloc_fn \<Rightarrow> c_heap \<Rightarrow> ('r, 'c) rb_lib \<Rightarrow> (('r, 'c, 'z) world_scheme \<Rightarrow> ('r, 'c, 'z) world_scheme) \<Rightarrow>
     msg_sender \<Rightarrow> ('r, 'c, 'z) world_scheme \<Rightarrow>
     (c_int \<times> ptr \<times> c_heap \<times> msg_sender \<times> ('r, 'c, 'z) world_scheme) outcome" where
  "socket_manager_msg_sender_flush malloc h L env s w =
     (case sender_flush L env s w of
        (Inr _, sw) \<Rightarrow> c_ok h sw
      | (Inl e, sw) \<Rightarrow> c_err malloc h e sw)"

definition socket_manager_msg_sender_free ::
  "('r, 'c) rb_lib \<Rightarrow> (('r, 'c, 'z) world_scheme \<Rightarrow> ('r, 'c, 'z) world_scheme) \<Rightarrow> msg_sender \<Rightarrow>
     ('r, 'c, 'z) world_scheme \<Rightarrow> ('r, 'c, 'z) world_scheme" where
  "socket_manager_msg_sender_free L env s w = drop_sender L env s w"

section \<open>The contract of the functions that return a code\<close>

text \<open>Every function with a \<open>c_int\<close> result wraps a Rust result \<open>r\<close>: what it promises its C caller is proved
  once.  The error string can be read back through \<open>err\<close>, and releasing it leaves the heap as it was.\<close>

text \<open>What is needed of \<open>malloc\<close> beyond \<open>malloc_ok\<close>: there is memory left in the heap of the call.\<close>

definition malloc_avail :: "malloc_fn \<Rightarrow> c_heap \<Rightarrow> bool" where
  "malloc_avail malloc h \<longleftrightarrow> malloc_ok malloc \<and> (\<forall>n. fst (malloc h n) \<noteq> null)"

lemma display_written:
  assumes "malloc_avail malloc h" and "NUL \<notin> set d"
  shows "\<exists>p h'. write_display_c_str malloc h d = Val (h', p) \<and> p \<noteq> null \<and> h' p = Some (d @ [NUL]) \<and>
    parse_c_err_str h' p = Val (Inl (to_string_lossy d), h)"
proof -
  obtain p blk where m: "malloc h (length d + 1) = (p, blk)" by fastforce
  from assms(1) have ok: "malloc_ok malloc" and p: "p \<noteq> null"
    using m unfolding malloc_avail_def by (simp, metis fst_conv)
  note w = write_display_c_str_ok [OF ok assms(2) m p]
  from w(1) have "h(p := None) = h" by (simp add: fun_upd_idem)
  with parse_c_err_str_written [OF assms(2) p, of h] w(2) p show ?thesis by simp
qed

locale c_function =
  fixes f :: "malloc_fn \<Rightarrow> c_heap \<Rightarrow> (c_int \<times> ptr \<times> c_heap \<times> 's) outcome"
    and r :: "c_heap \<Rightarrow> unit io_result outcome \<times> 's"
  assumes wraps: "f malloc h = (case r h of
      (Panic m, _) \<Rightarrow> Panic m | (Val (Inr _), s) \<Rightarrow> c_ok h s | (Val (Inl e), s) \<Rightarrow> c_err malloc h e s)"
begin

lemma ok_code: "r h = (Val (Inr ()), s) \<Longrightarrow> f malloc h = Val (0, null, h, s)"
  by (simp add: wraps c_ok_def)

lemma err_code:
  assumes "r h = (Val (Inl e), s)" and "malloc_avail malloc h" and "NUL \<notin> set (err_msg e)"
  shows "\<exists>p h'. f malloc h = Val (1, p, h', s) \<and> p \<noteq> null \<and> h' p = Some (err_msg e @ [NUL]) \<and>
    parse_c_err_str h' p = Val (Inl (to_string_lossy (err_msg e)), h)"
  using display_written [OF assms(2,3)] assms(1) by (auto simp: wraps c_err_def)

lemma same_state: "f malloc h = Val (code, p, h', s) \<Longrightarrow> snd (r h) = s"
  by (auto simp: wraps c_ok_def c_err_def split: prod.splits outcome.splits sum.splits)

lemma code_iff:
  assumes "f malloc h = Val (code, p, h', s)" and "malloc_avail malloc h"
    and "\<And>e. fst (r h) = Val (Inl e) \<Longrightarrow> NUL \<notin> set (err_msg e)"
  shows "(code = 0 \<longleftrightarrow> p = null) \<and> (code = 0 \<longleftrightarrow> fst (r h) = Val (Inr ()))"
proof (cases "r h")
  case (Pair q s')
  show ?thesis
  proof (cases q)
    case (Panic m)
    with Pair assms(1) show ?thesis by (simp add: wraps)
  next
    case (Val v)
    show ?thesis
    proof (cases v)
      case (Inl e)
      with Pair Val err_code [of h e s' malloc] assms show ?thesis by auto
    next
      case (Inr u)
      with Pair Val ok_code [of h s' malloc] assms(1) show ?thesis by simp
    qed
  qed
qed

end

text \<open>The three functions that send a command for an address: \<open>cmd\<close> is the command.\<close>

definition command_result ::
  "(string \<Rightarrow> string + 'a) \<Rightarrow> ('a \<Rightarrow> 'a command) \<Rightarrow> ptr \<Rightarrow> ('a, 'm) manager \<Rightarrow> c_heap \<Rightarrow>
     unit io_result outcome \<times> ('a, 'm) manager" where
  "command_result from_str cmd addr st h =
     (case socket_addr from_str h addr of
        Panic m \<Rightarrow> (Panic m, st)
      | Val (Inl e) \<Rightarrow> (Val (Inl e), st)
      | Val (Inr a) \<Rightarrow>
          (case cmd_send (cmd a) st of (ok, st') \<Rightarrow> (Val (if ok then Inr () else stopped_err), st')))"

text \<open>No error text of an address has a zero byte in it.\<close>

lemma show_nat_no_nul: "NUL \<notin> set (show_nat n)"
proof (induction n rule: show_nat.induct)
  case (1 n)
  have digit: "(char_of (48 + k :: nat) :: char) \<noteq> NUL" if "k < 10" for k
  proof
    assume "(char_of (48 + k :: nat) :: char) = NUL"
    then have "of_char (char_of (48 + k :: nat) :: char) = (of_char NUL :: nat)" by simp
    with that show False by simp
  qed
  show ?case
  proof (cases "n < 10")
    case True
    with digit [OF True] show ?thesis by (simp add: show_nat.simps [of n])
  next
    case False
    with 1 digit [of "n mod 10"] show ?thesis by (simp add: show_nat.simps [of n])
  qed
qed

lemma utf8_error_msg_no_nul: "NUL \<notin> set (utf8_error_msg e)"
  using show_nat_no_nul by (cases e; cases "snd e") (auto simp: utf8_error_msg_def)

lemma socket_addr_error_no_nul:
  assumes "socket_addr from_str h addr = Val (Inl e)" and "\<And>s m. from_str s = Inl m \<Longrightarrow> NUL \<notin> set m"
  shows "NUL \<notin> set (err_msg e)"
  using assms utf8_error_msg_no_nul
  by (auto simp: socket_addr_def io_err_def split: if_splits outcome.splits option.splits sum.splits)

locale c_command = c_function f "command_result from_str cmd addr st"
  for f :: "malloc_fn \<Rightarrow> c_heap \<Rightarrow> (c_int \<times> ptr \<times> c_heap \<times> ('a, 'm) manager) outcome"
    and from_str :: "string \<Rightarrow> string + 'a" and cmd :: "'a \<Rightarrow> 'a command" and addr :: ptr and st :: "('a, 'm) manager"
begin

lemma refused:
  assumes "malloc_avail malloc h" and "socket_addr from_str h addr = Val (Inl e)"
    and "\<And>s m. from_str s = Inl m \<Longrightarrow> NUL \<notin> set m"
  shows "\<exists>p h'. f malloc h = Val (1, p, h', st) \<and> p \<noteq> null \<and>
    parse_c_err_str h' p = Val (Inl (to_string_lossy (err_msg e)), h)"
  using err_code [OF _ assms(1), of e st] assms(2) socket_addr_error_no_nul [OF assms(2,3)]
  by (fastforce simp: command_result_def)

lemma stopped:
  assumes "malloc_avail malloc h" and "socket_addr from_str h addr = Val (Inr a)" and "\<not> main_running st"
  shows "\<exists>p h'. f malloc h = Val (1, p, h', st) \<and> p \<noteq> null \<and>
    parse_c_err_str h' p = Val (Inl (to_string_lossy ''socket manager has stopped''), h)"
  using err_code [OF _ assms(1), of "\<lparr>err_kind = Other, err_msg = ''socket manager has stopped''\<rparr>" st] assms(2,3)
  by (fastforce simp: command_result_def cmd_send_def stopped_err_def io_err_def)

lemma queued:
  assumes "socket_addr from_str h addr = Val (Inr a)" and "main_running st"
  shows "f malloc h = Val (0, null, h, st\<lparr>cmd_queue := cmd_queue st @ [cmd a]\<rparr>)"
  by (rule ok_code) (use assms in \<open>simp add: command_result_def cmd_send_def\<close>)

end

interpretation c_start: c_function
  "\<lambda>malloc h. socket_manager_connection_start malloc h rx on_msg n rms wms c"
  "\<lambda>h. start_connection rx on_msg \<lparr>write_flush_interval = from_millis wms,
      read_msg_flush_interval = from_millis rms, msg_buffer_size = n\<rparr> c"
  for rx on_msg n rms wms c
  by unfold_locales (simp add: socket_manager_connection_start_def)

interpretation c_close: c_function
  "\<lambda>malloc h. socket_manager_connection_close malloc h c conns" "\<lambda>h. conn_close c conns" for c conns
  by unfold_locales (simp add: socket_manager_connection_close_def)

interpretation c_nonblock: c_function
  "\<lambda>malloc h. socket_manager_msg_sender_send_nonblock malloc h L env msg s w" "\<lambda>h. send_nonblock L env msg s w"
  for L env msg s w
  by unfold_locales (simp add: socket_manager_msg_sender_send_nonblock_def)

interpretation c_flush: c_function
  "\<lambda>malloc h. socket_manager_msg_sender_flush malloc h L env s w"
  "\<lambda>h. (case sender_flush L env s w of (res, sw) \<Rightarrow> (Val res, sw))"
  for L env s w
  by unfold_locales (auto simp: socket_manager_msg_sender_flush_def split: prod.splits sum.splits)

section \<open>Properties\<close>

datatype c_cmd = C_listen | C_connect "64 word" | C_cancel

fun c_cmd_call ::
  "c_cmd \<Rightarrow> malloc_fn \<Rightarrow> (string \<Rightarrow> string + 'a) \<Rightarrow> c_heap \<Rightarrow> ptr \<Rightarrow> ('a, 'm) manager \<Rightarrow>
     (c_int \<times> ptr \<times> c_heap \<times> ('a, 'm) manager) outcome" where
  "c_cmd_call C_listen malloc from_str h addr st = socket_manager_listen_on_addr malloc from_str h addr st"
| "c_cmd_call (C_connect ms) malloc from_str h addr st = socket_manager_connect_to_addr malloc from_str h addr ms st"
| "c_cmd_call C_cancel malloc from_str h addr st = socket_manager_cancel_listen_on_addr malloc from_str h addr st"

fun c_cmd_command :: "c_cmd \<Rightarrow> 'a \<Rightarrow> 'a command" where
  "c_cmd_command C_listen a = Listen a"
| "c_cmd_command (C_connect ms) a = Connect a (unat ms * 1000000)"
| "c_cmd_command C_cancel a = CancelListen a"

lemma c_cmd_call_wraps:
  "c_cmd_call c malloc from_str h addr st =
     (case command_result from_str (c_cmd_command c) addr st h of
        (Panic m, _) \<Rightarrow> Panic m | (Val (Inr _), s) \<Rightarrow> c_ok h s | (Val (Inl e), s) \<Rightarrow> c_err malloc h e s)"
  by (cases c) (auto simp: socket_manager_listen_on_addr_def socket_manager_connect_to_addr_def
      socket_manager_cancel_listen_on_addr_def sm_listen_on_addr_def sm_connect_to_addr_def sm_cancel_listen_on_addr_def
      from_millis_def command_result_def stopped_err_def io_err_def split: outcome.splits sum.splits prod.splits)

interpretation c_cmds: c_command
  "\<lambda>malloc h. c_cmd_call c malloc from_str h addr st" from_str "c_cmd_command c" addr st
  for c from_str addr st
  by unfold_locales (rule c_cmd_call_wraps)

text \<open>C34: commands through the C interface, with memory for an error text and a parser of addresses whose errors
  have no zero byte.  On a null pointer or a C string none of the three functions that listen, connect and
  cancel panics.  Each returns 0 with \<open>err\<close> null exactly if the text is an address and the
  manager runs, and then its command, with a delay in nanoseconds, is last in the queue; otherwise it
  returns 1, the manager is unchanged, and \<open>err\<close> has an error text that can be read and released, which
  restores the heap.  Each call is a step of the manager.\<close>

theorem c_commands_contract:
  assumes "malloc_avail malloc h" and "addr = null \<or> c_str h addr = Val s"
    and "\<And>s m. from_str s = Inl m \<Longrightarrow> NUL \<notin> set m"
  shows "\<exists>code p h' st'. c_cmd_call c malloc from_str h addr st = Val (code, p, h', st') \<and>
    (case socket_addr from_str h addr of
       Val (Inr a) \<Rightarrow> if main_running st
         then code = 0 \<and> p = null \<and> h' = h \<and> st' = st\<lparr>cmd_queue := cmd_queue st @ [c_cmd_command c a]\<rparr> \<and>
           mgr_step st st'
         else code = 1 \<and> p \<noteq> null \<and> st' = st \<and>
           parse_c_err_str h' p = Val (Inl (to_string_lossy ''socket manager has stopped''), h)
     | Val (Inl e) \<Rightarrow> code = 1 \<and> p \<noteq> null \<and> st' = st \<and>
         parse_c_err_str h' p = Val (Inl (to_string_lossy (err_msg e)), h)
     | Panic m \<Rightarrow> False)"
proof -
  have "\<exists>r. socket_addr from_str h addr = Val r"
    using assms(2) by (auto simp: socket_addr_def split: option.split sum.split)
  then obtain r where r: "socket_addr from_str h addr = Val r" ..
  show ?thesis
  proof (cases r)
    case (Inl e)
    with c_cmds.refused [OF assms(1), of from_str addr e c st] assms(3) r show ?thesis by fastforce
  next
    case (Inr a)
    have "mgr_step st (st\<lparr>cmd_queue := cmd_queue st @ [c_cmd_command c a]\<rparr>)" if "main_running st"
      by (rule mgr_step.intros [where e = "Mgr_send (c_cmd_command c a)"]) (simp add: cmd_send_def that)
    with c_cmds.stopped [OF assms(1), of from_str addr a st c] c_cmds.queued [of from_str h addr a st c malloc] r Inr
    show ?thesis by (cases "main_running st") fastforce+
  qed
qed

theorem c_commands_contract_witness:
  "\<exists>p h'. c_cmd_call C_cancel demo_malloc (\<lambda>s. Inl ''bad'') [2 \<mapsto> ''x'' @ [NUL]] 2
       (manager_new (\<lambda>_. False) Current_thread :: (nat, string) manager) = Val (1, p, h', manager_new (\<lambda>_. False) Current_thread) \<and> p \<noteq> null"
proof -
  let ?h = "[2 \<mapsto> ''x'' @ [NUL]] :: c_heap" and ?from_str = "\<lambda>s. Inl ''bad'' :: string + nat"
  have m: "malloc_avail demo_malloc ?h" using demo_malloc_ok by (simp add: malloc_avail_def demo_malloc_def)
  have s: "c_str ?h 2 = Val ''x''" by (simp add: c_str_def)
  have e: "socket_addr ?from_str ?h 2 = Val (Inl \<lparr>err_kind = InvalidInput, err_msg = ''bad''\<rparr>)"
    using s by (simp add: socket_addr_def io_err_def utf8_error.simps utf8_width_def)
  have "NUL \<notin> set msg" if "?from_str t = Inl msg" for t msg using that by auto
  from c_commands_contract [OF m disjI2 [OF s], of ?from_str C_cancel "manager_new (\<lambda>_. False) Current_thread :: (nat, string) manager",
      OF this]
  show ?thesis unfolding e by fastforce
qed

text \<open>A connection is started once through the C interface.  On a used handle \<open>connection_start\<close> returns 1
  with a readable error text and sends nothing, on an unused one whose task still waits it returns 0 and
  sends the callback with the intervals in nanoseconds and the buffer size as given.\<close>

lemma connection_start_contract:
  assumes "conn_inv c" and "malloc_avail malloc h"
  shows "(consumed c \<longrightarrow> (\<exists>p h'. socket_manager_connection_start malloc h rx on_msg n rms wms c = Val (1, p, h', c, None) \<and>
      p \<noteq> null \<and> parse_c_err_str h' p =
        Val (Inl (to_string_lossy ''calling `start_connection` after connection consumed''), h))) \<and>
    (\<not> consumed c \<longrightarrow> (\<exists>k. socket_manager_connection_start malloc h True on_msg n rms wms c =
      Val (0, null, h, c\<lparr>consumed := True, inner := None\<rparr>,
        Some (k, on_msg, \<lparr>write_flush_interval = unat wms * 1000000, read_msg_flush_interval = unat rms * 1000000,
          msg_buffer_size = n\<rparr>))))"
proof -
  let ?cfg = "\<lparr>write_flush_interval = from_millis wms, read_msg_flush_interval = from_millis rms, msg_buffer_size = n\<rparr>"
  have "start_connection rx on_msg ?cfg c =
      (Val (Inl \<lparr>err_kind = Other, err_msg = ''calling `start_connection` after connection consumed''\<rparr>), c, None)"
    if "consumed c" using that by (simp add: start_connection_def io_err_def)
  from c_start.err_code [OF this assms(2)]
  have "\<exists>p h'. socket_manager_connection_start malloc h rx on_msg n rms wms c = Val (1, p, h', c, None) \<and>
      p \<noteq> null \<and> parse_c_err_str h' p =
        Val (Inl (to_string_lossy ''calling `start_connection` after connection consumed''), h)" if "consumed c"
    using that by fastforce
  then show ?thesis
    by (simp add: socket_manager_connection_start_def start_connection_cases [OF assms(1)] c_ok_def from_millis_def)
qed

end
