(* ===== verification/C_Program.thy ===== *)
theory C_Program
  imports Program Manager_Props C_Api
begin

text \<open>
  The program as C code drives it: the exported functions of \<open>src/c_api\<close> called on the whole program.

  The state is the program, the \<open>SocketManager\<close> behind the C handle until it is freed, and the C heap.  A
  step is a step of the runtime, a call of an exported function on a handle that has been given out and
  not been freed, or anything the C code does with its own heap.  A handle of a connection and its sender
  are named by the index of the connection.  Every call that returns is at most one step of the program,
  so what is shown for the program holds under any use of the C interface.
\<close>

section \<open>State and calls\<close>

record ('a, 'm, 'r, 'c, 'rd, 'u) c_program =
  cp_pg :: "('a, 'm, 'r, 'c, 'rd, 'u) program"
  cp_sm :: "socket_manager option"
  cp_heap :: c_heap

text \<open>What is not defined by the program: \<open>malloc\<close>, the text of addresses, and what each connection is
  given.\<close>

record ('a, 'm, 'r, 'c, 'rd, 'u) c_params =
  ce_malloc :: malloc_fn
  ce_from_str :: "string \<Rightarrow> string + 'a"
  ce_to_string :: "'a \<Rightarrow> string"
  ce_conn :: "nat \<Rightarrow> ('m, 'r, 'c, 'rd, 'u) conn_params"

text \<open>The result of the background thread, once it has ended, is an argument of the calls that join it; a
  blocking send has its fuel, and whether it is called on a thread of the runtime.\<close>

datatype 'm c_call =
    Cc_command c_cmd ptr
  | Cc_abort bool "(string + unit) option"
  | Cc_join "(string + unit) option"
  | Cc_manager_free "(string + unit) option"
  | Cc_connection_start nat 'm nat "64 word" "64 word"
  | Cc_connection_close nat
  | Cc_connection_free nat
  | Cc_local_addr nat
  | Cc_peer_addr nat
  | Cc_send_block nat bool nat "byte list" raw_waker
  | Cc_send_nonblock nat "byte list"
  | Cc_send_async nat "byte list" notifier ptr
  | Cc_flush nat
  | Cc_sender_free nat

text \<open>What a call returns: a code or a count with the error pointer, a text, nothing, or not yet.\<close>

datatype c_ret = Ret_code c_int ptr | Ret_count c_long ptr | Ret_text ptr | Ret_void | Blocks

definition set_mgr ::
  "('a, 'm) manager \<Rightarrow> ('a, 'm, 'r, 'c, 'rd, 'u) c_program \<Rightarrow> ('a, 'm, 'r, 'c, 'rd, 'u) c_program" where
  "set_mgr st s = s\<lparr>cp_pg := (cp_pg s)\<lparr>pg_mgr := st\<rparr>\<rparr>"

definition set_task ::
  "nat \<Rightarrow> ('a, 'm) conn_task \<Rightarrow> 'a connections \<Rightarrow> ('a, 'm, 'r, 'c, 'rd, 'u) c_program \<Rightarrow>
     ('a, 'm, 'r, 'c, 'rd, 'u) c_program" where
  "set_task j t conns s =
     (let st = pg_mgr (cp_pg s) in set_mgr (st\<lparr>conn_tasks := (conn_tasks st)[j := t], connections := conns\<rparr>) s)"

definition set_sender ::
  "nat \<Rightarrow> msg_sender option \<Rightarrow> ('r, 'c) dp \<Rightarrow> ('a, 'm, 'r, 'c, 'rd, 'u) c_program \<Rightarrow>
     ('a, 'm, 'r, 'c, 'rd, 'u) c_program" where
  "set_sender j x d s =
     s\<lparr>cp_pg := (cp_pg s)\<lparr>pg_data := (pg_data (cp_pg s))
       [j := \<lparr>d_sender = x, d_dp = d, d_reader = d_reader (pg_data (cp_pg s) ! j)\<rparr>]\<rparr>\<rparr>"

text \<open>The handles C code has: those the \<open>OnConnect\<close> callback gave out.\<close>

definition task_of :: "('a, 'm, 'r, 'c, 'rd, 'u) c_program \<Rightarrow> nat \<Rightarrow> ('a, 'm) conn_task" where
  "task_of s j = conn_tasks (pg_mgr (cp_pg s)) ! j"

definition handle_of :: "('a, 'm, 'r, 'c, 'rd, 'u) c_program \<Rightarrow> nat \<Rightarrow> 'a conn option" where
  "handle_of s j = (if j < length (conn_tasks (pg_mgr (cp_pg s))) then user_handle (task_of s j) else None)"

definition sender_of :: "('a, 'm, 'r, 'c, 'rd, 'u) c_program \<Rightarrow> nat \<Rightarrow> msg_sender option" where
  "sender_of s j =
     (if j < length (pg_data (cp_pg s)) \<and> calls (task_of s j) \<noteq> [] then d_sender (pg_data (cp_pg s) ! j) else None)"

definition dp_of :: "('a, 'm, 'r, 'c, 'rd, 'u) c_program \<Rightarrow> nat \<Rightarrow> ('r, 'c) dp" where
  "dp_of s j = d_dp (pg_data (cp_pg s) ! j)"

text \<open>A call on a handle that does not exist has the value \<open>None\<close>, as has a blocking send that has not returned
  within its fuel.  A call that joins blocks while the thread runs; a manager that is being freed can be used no more.  \<open>env\<close> is what the writer does during a call on the sender.\<close>

fun manager_call ::
  "('a, 'm, 'r, 'c, 'rd, 'u) c_params \<Rightarrow> 'm c_call \<Rightarrow> socket_manager \<Rightarrow> ('a, 'm, 'r, 'c, 'rd, 'u) c_program \<Rightarrow>
     (c_ret \<times> ('a, 'm, 'r, 'c, 'rd, 'u) c_program) outcome" where
  "manager_call E (Cc_command c addr) m s =
     map_outcome (\<lambda>(code, p, h, st). (Ret_code code p, set_mgr st (s\<lparr>cp_heap := h\<rparr>)))
       (c_cmd_call c (ce_malloc E) (ce_from_str E) (cp_heap s) addr (pg_mgr (cp_pg s)))"
| "manager_call E (Cc_abort wait th) m s =
     (case socket_manager_abort (ce_malloc E) (cp_heap s) th wait (m, pg_mgr (cp_pg s)) of
        Panic e \<Rightarrow> Panic e
      | Val (Some (code, p, h, m', st)) \<Rightarrow> Val (Ret_code code p, set_mgr st (s\<lparr>cp_sm := Some m', cp_heap := h\<rparr>))
      | Val None \<Rightarrow>
          (case sm_abort th wait m (pg_mgr (cp_pg s)) of
             (_, m', st) \<Rightarrow> Val (Blocks, set_mgr st (s\<lparr>cp_sm := Some m'\<rparr>))))"
| "manager_call E (Cc_join th) m s =
     (case socket_manager_join (ce_malloc E) (cp_heap s) th m of
        Panic e \<Rightarrow> Panic e
      | Val (Some (code, p, h, m')) \<Rightarrow> Val (Ret_code code p, s\<lparr>cp_sm := Some m', cp_heap := h\<rparr>)
      | Val None \<Rightarrow> Val (Blocks, s\<lparr>cp_sm := Some (snd (sm_join th m))\<rparr>))"
| "manager_call E (Cc_manager_free th) m s =
     (case socket_manager_free th (m, pg_mgr (cp_pg s)) of
        Panic e \<Rightarrow> Panic e
      | Val (Some st) \<Rightarrow> Val (Ret_void, set_mgr st (s\<lparr>cp_sm := None\<rparr>))
      | Val None \<Rightarrow>
          (case sm_drop th m (pg_mgr (cp_pg s)) of
             (_, _, st) \<Rightarrow> Val (Blocks, set_mgr st (s\<lparr>cp_sm := None\<rparr>))))"
| "manager_call E _ m s = Val (Ret_void, s)"

fun handle_call ::
  "('a, 'm, 'r, 'c, 'rd, 'u) c_params \<Rightarrow> 'm c_call \<Rightarrow> nat \<Rightarrow> 'a conn \<Rightarrow> ('a, 'm, 'r, 'c, 'rd, 'u) c_program \<Rightarrow>
     (c_ret \<times> ('a, 'm, 'r, 'c, 'rd, 'u) c_program) outcome" where
  "handle_call E (Cc_connection_start _ on_msg n rms wms) j c s =
     map_outcome (\<lambda>(code, p, h, c', sent).
         (Ret_code code p, set_task j ((task_of s j)\<lparr>ct_conn := Some c',
             cfg := (case sent of Some (_, m, k) \<Rightarrow> Cfg_value m k | None \<Rightarrow> cfg (task_of s j))\<rparr>)
           (connections (pg_mgr (cp_pg s))) (s\<lparr>cp_heap := h\<rparr>)))
       (socket_manager_connection_start (ce_malloc E) (cp_heap s) (cfg_rx_alive (task_of s j)) on_msg n rms wms c)"
| "handle_call E (Cc_connection_close _) j c s =
     map_outcome (\<lambda>(code, p, h, c', dropped, conns).
         (Ret_code code p, set_task j ((task_of s j)\<lparr>ct_conn := Some c',
             cfg := (case dropped of Some _ \<Rightarrow> Cfg_closed | None \<Rightarrow> cfg (task_of s j))\<rparr>) conns (s\<lparr>cp_heap := h\<rparr>)))
       (socket_manager_connection_close (ce_malloc E) (cp_heap s) c (connections (pg_mgr (cp_pg s))))"
| "handle_call E (Cc_connection_free _) j c s =
     Val (Ret_void, set_task j ((task_of s j)\<lparr>ct_conn := None,
         cfg := (case socket_manager_connection_free c of Some _ \<Rightarrow> Cfg_closed | None \<Rightarrow> cfg (task_of s j))\<rparr>)
       (connections (pg_mgr (cp_pg s))) s)"
| "handle_call E (Cc_local_addr _) j c s =
     map_outcome (\<lambda>(h, p). (Ret_text p, s\<lparr>cp_heap := h\<rparr>))
       (socket_manager_connection_local_addr (ce_malloc E) (cp_heap s) (ce_to_string E) c)"
| "handle_call E (Cc_peer_addr _) j c s =
     map_outcome (\<lambda>(h, p). (Ret_text p, s\<lparr>cp_heap := h\<rparr>))
       (socket_manager_connection_peer_addr (ce_malloc E) (cp_heap s) (ce_to_string E) c)"
| "handle_call E _ j c s = Val (Ret_void, s)"

fun sender_call ::
  "('a, 'm, 'r, 'c, 'rd, 'u) c_params \<Rightarrow> (('r, 'c) dp \<Rightarrow> ('r, 'c) dp) \<Rightarrow> 'm c_call \<Rightarrow> nat \<Rightarrow> msg_sender \<Rightarrow>
     ('a, 'm, 'r, 'c, 'rd, 'u) c_program \<Rightarrow> (c_ret \<times> ('a, 'm, 'r, 'c, 'rd, 'u) c_program) outcome option" where
  "sender_call E env (Cc_send_block _ in_async fuel bytes waker) j x s =
     map_option (map_outcome (\<lambda>(code, p, h, d). (Ret_code code p, set_sender j (Some x) d (s\<lparr>cp_heap := h\<rparr>))))
       (socket_manager_msg_sender_send_block (ce_malloc E) (cp_heap s) (p_lib (ce_conn E j)) env in_async fuel bytes waker
          x (dp_of s j))"
| "sender_call E env (Cc_send_nonblock _ bytes) j x s =
     Some (map_outcome (\<lambda>(code, p, h, x', d). (Ret_code code p, set_sender j (Some x') d (s\<lparr>cp_heap := h\<rparr>)))
       (socket_manager_msg_sender_send_nonblock (ce_malloc E) (cp_heap s) (p_lib (ce_conn E j)) env bytes x (dp_of s j)))"
| "sender_call E env (Cc_send_async _ bytes notifier err) j x s =
     Some (map_outcome (\<lambda>(n, p, h, d). (Ret_count n p, set_sender j (Some x) d (s\<lparr>cp_heap := h\<rparr>)))
       (socket_manager_msg_sender_send_async (ce_malloc E) (cp_heap s) (p_lib (ce_conn E j)) env bytes notifier err
          x (dp_of s j)))"
| "sender_call E env (Cc_flush _) j x s =
     Some (map_outcome (\<lambda>(code, p, h, x', d). (Ret_code code p, set_sender j (Some x') d (s\<lparr>cp_heap := h\<rparr>)))
       (socket_manager_msg_sender_flush (ce_malloc E) (cp_heap s) (p_lib (ce_conn E j)) env x (dp_of s j)))"
| "sender_call E env (Cc_sender_free _) j x s =
     Some (Val (Ret_void, set_sender j None (socket_manager_msg_sender_free (p_lib (ce_conn E j)) env x (dp_of s j)) s))"
| "sender_call E env _ j x s = None"

text \<open>The object a call is made on.\<close>

datatype c_target = T_manager | T_handle nat | T_sender nat

fun call_target :: "'m c_call \<Rightarrow> c_target" where
  "call_target (Cc_connection_start j _ _ _ _) = T_handle j"
| "call_target (Cc_connection_close j) = T_handle j"
| "call_target (Cc_connection_free j) = T_handle j"
| "call_target (Cc_local_addr j) = T_handle j"
| "call_target (Cc_peer_addr j) = T_handle j"
| "call_target (Cc_send_block j _ _ _ _) = T_sender j"
| "call_target (Cc_send_nonblock j _) = T_sender j"
| "call_target (Cc_send_async j _ _ _) = T_sender j"
| "call_target (Cc_flush j) = T_sender j"
| "call_target (Cc_sender_free j) = T_sender j"
| "call_target _ = T_manager"

definition c_exec ::
  "('a, 'm, 'r, 'c, 'rd, 'u) c_params \<Rightarrow> (('r, 'c) dp \<Rightarrow> ('r, 'c) dp) \<Rightarrow> 'm c_call \<Rightarrow>
     ('a, 'm, 'r, 'c, 'rd, 'u) c_program \<Rightarrow> (c_ret \<times> ('a, 'm, 'r, 'c, 'rd, 'u) c_program) outcome option" where
  "c_exec E env call s =
     (case call_target call of
        T_manager \<Rightarrow> map_option (\<lambda>m. manager_call E call m s) (cp_sm s)
      | T_handle j \<Rightarrow> map_option (\<lambda>c. handle_call E call j c s) (handle_of s j)
      | T_sender j \<Rightarrow> Option.bind (sender_of s j) (\<lambda>x. sender_call E env call j x s))"

section \<open>Steps\<close>

text \<open>The steps of the program that are not calls of the user.\<close>

fun user_event :: "'m ct_event \<Rightarrow> bool" where
  "user_event (User_start _ _) = True"
| "user_event User_close = True"
| "user_event User_drop = True"
| "user_event _ = False"

fun is_send :: "('a, 'm) mgr_event \<Rightarrow> bool" where
  "is_send (Mgr_send _) = True"
| "is_send _ = False"

text \<open>A step on the data of a connection that leaves the sender alone and hands nothing over.\<close>

definition quiet_step ::
  "('m, 'r, 'c, 'rd, 'u) conn_params \<Rightarrow> ('a, 'm, 'r, 'c, 'rd, 'u) connection \<Rightarrow>
     ('a, 'm, 'r, 'c, 'rd, 'u) connection \<Rightarrow> bool" where
  "quiet_step P s s' \<longleftrightarrow> data_step P s s' \<and> c_sender s' = c_sender s \<and> sent (c_dp s') = sent (c_dp s)"

inductive runtime_step ::
  "(nat \<Rightarrow> ('m, 'r, 'c, 'rd, 'u) conn_params) \<Rightarrow> ('a, 'm, 'r, 'c, 'rd, 'u) program \<Rightarrow>
     ('a, 'm, 'r, 'c, 'rd, 'u) program \<Rightarrow> bool"
  for Pf :: "nat \<Rightarrow> ('m, 'r, 'c, 'rd, 'u) conn_params" where
  rt_manager: "mgr_exec e (pg_mgr pg) = Some m \<Longrightarrow> \<not> is_conn_event e \<Longrightarrow> \<not> is_send e \<Longrightarrow>
    length (conn_tasks m) = length (pg_data pg) + length ds \<Longrightarrow>
    (\<And>i. i < length ds \<Longrightarrow> fresh_data (Pf (length (pg_data pg) + i)) (ds ! i)) \<Longrightarrow>
    runtime_step Pf pg \<lparr>pg_mgr = m, pg_data = pg_data pg @ ds\<rparr>"
| rt_task: "mgr_exec (Mgr_conn j e) (pg_mgr pg) = Some m \<Longrightarrow> \<not> user_event e \<Longrightarrow> true_result e (pg_conn pg j) \<Longrightarrow>
    runtime_step Pf pg \<lparr>pg_mgr = m, pg_data = (pg_data pg)[j := conn_data_of
      (task_moves (Pf j) (conn_tasks m ! j, connections m) (pg_conn pg j))]\<rparr>"
| rt_data: "j < length (pg_data pg) \<Longrightarrow> quiet_step (Pf j) (pg_conn pg j) s \<Longrightarrow>
    runtime_step Pf pg (pg\<lparr>pg_data := (pg_data pg)[j := conn_data_of s]\<rparr>)"

lemma runtime_is_program_step: "runtime_step Pf pg pg' \<Longrightarrow> program_step Pf pg pg'"
  by (induction rule: runtime_step.induct) (auto simp: quiet_step_def simp del: mgr_exec.simps intro: program_step.intros)

text \<open>What the writer of the connection does during a call on its sender, and when the thread that is joined
  can have ended.\<close>

fun call_allowed ::
  "('a, 'm, 'r, 'c, 'rd, 'u) c_params \<Rightarrow> (('r, 'c) dp \<Rightarrow> ('r, 'c) dp) \<Rightarrow> 'm c_call \<Rightarrow>
     ('a, 'm, 'r, 'c, 'rd, 'u) c_program \<Rightarrow> bool" where
  "call_allowed E env (Cc_abort _ th) s = (th = None \<or> \<not> main_running (pg_mgr (cp_pg s)))"
| "call_allowed E env (Cc_join th) s = (th = None \<or> \<not> main_running (pg_mgr (cp_pg s)))"
| "call_allowed E env (Cc_manager_free th) s = (th = None \<or> \<not> main_running (pg_mgr (cp_pg s)))"
| "call_allowed E env call s =
     (case call_target call of T_sender j \<Rightarrow> call_env (ce_conn E j) (started (task_of s j)) env | _ \<Rightarrow> True)"

inductive c_program_step ::
  "('a, 'm, 'r, 'c, 'rd, 'u) c_params \<Rightarrow> ('a, 'm, 'r, 'c, 'rd, 'u) c_program \<Rightarrow>
     ('a, 'm, 'r, 'c, 'rd, 'u) c_program \<Rightarrow> bool"
  for E :: "('a, 'm, 'r, 'c, 'rd, 'u) c_params" where
  cp_runtime: "runtime_step (ce_conn E) (cp_pg s) pg \<Longrightarrow> c_program_step E s (s\<lparr>cp_pg := pg\<rparr>)"
| cp_call: "call_allowed E env call s \<Longrightarrow> c_exec E env call s = Some (Val (ret, s')) \<Longrightarrow> c_program_step E s s'"
| cp_foreign: "c_program_step E s (s\<lparr>cp_heap := h\<rparr>)"

text \<open>\<open>socket_manager_init\<close> has returned a manager.\<close>

definition c_program_init ::
  "('a, 'm, 'r, 'c, 'rd, 'u) c_params \<Rightarrow> ('a, 'm, 'r, 'c, 'rd, 'u) c_program \<Rightarrow> bool" where
  "c_program_init E s \<longleftrightarrow>
     (\<exists>polls build_err n_cpu h n_threads m st p.
        socket_manager_init polls build_err n_cpu (ce_malloc E) h n_threads = Val (Some (m, st), p, cp_heap s) \<and>
        cp_sm s = Some m \<and> cp_pg s = \<lparr>pg_mgr = st, pg_data = []\<rparr>)"

abbreviation c_program_reach ::
  "('a, 'm, 'r, 'c, 'rd, 'u) c_params \<Rightarrow> ('a, 'm, 'r, 'c, 'rd, 'u) c_program \<Rightarrow> bool" where
  "c_program_reach E \<equiv> reach (c_program_init E) (c_program_step E)"

section \<open>Calls are steps of the program\<close>

lemma map_outcome_Val: "map_outcome f r = Val y \<Longrightarrow> (\<And>x. r = Val x \<Longrightarrow> y = f x \<Longrightarrow> thesis) \<Longrightarrow> thesis"
  by (cases r) auto

lemma program_eta: "pg\<lparr>pg_mgr := m\<rparr> = \<lparr>pg_mgr = m, pg_data = pg_data pg\<rparr>"
  by (cases pg) simp

text \<open>A command.\<close>

lemma send_is_step:
  assumes "program_inv Pf pg"
  shows "program_step Pf pg (pg\<lparr>pg_mgr := snd (cmd_send c (pg_mgr pg))\<rparr>)"
proof -
  have "conn_tasks (snd (cmd_send c (pg_mgr pg))) = conn_tasks (pg_mgr pg)" by (simp add: cmd_send_def)
  with assms have "length (conn_tasks (snd (cmd_send c (pg_mgr pg)))) = length (pg_data pg) + length []"
    by (simp add: program_inv_def)
  from program_step.pg_manager [of "Mgr_send c" pg, OF _ _ this] show ?thesis by (simp add: program_eta)
qed

text \<open>A call on the handle: it leaves the children as they are.\<close>

lemma user_is_step:
  assumes "program_inv Pf pg" and "j < length (conn_tasks (pg_mgr pg))" and "ct_event_ok (pg_mgr pg) e" and "user_event e"
    and "ct_exec e (conn_tasks (pg_mgr pg) ! j, connections (pg_mgr pg)) = Some (t, conns)"
    and "started t = started (conn_tasks (pg_mgr pg) ! j)"
  shows "program_step Pf pg (pg\<lparr>pg_mgr := (pg_mgr pg)\<lparr>conn_tasks := (conn_tasks (pg_mgr pg))[j := t], connections := conns\<rparr>\<rparr>)"
    (is "program_step Pf pg (pg\<lparr>pg_mgr := ?m\<rparr>)")
proof -
  from assms(1,2) have "conn_ok (Pf j) (pg_conn pg j)" by (simp add: program_inv_def)
  then have "connection_reach (Pf j) (ct_id (c_task (pg_conn pg j))) (ct_local (c_task (pg_conn pg j)))
      (ct_peer (c_task (pg_conn pg j))) (pg_conn pg j)" by (simp add: conn_ok_def)
  from connection_parts(3) [OF this]
  have reader: "started (conn_tasks (pg_mgr pg) ! j) = None \<Longrightarrow> d_reader (pg_data pg ! j) = None"
    by (cases "d_reader (pg_data pg ! j)") (auto simp: pg_conn_def)
  have "mgr_exec (Mgr_conn j e) (pg_mgr pg) = Some ?m" using assms(2,3,5) by simp
  moreover have "true_result e (pg_conn pg j)" using assms(4) by (cases e) simp_all
  ultimately have "program_step Pf pg \<lparr>pg_mgr = ?m, pg_data = (pg_data pg)[j := conn_data_of
      (task_moves (Pf j) (conn_tasks ?m ! j, connections ?m) (pg_conn pg j))]\<rparr>"
    by (rule program_step.pg_task)
  moreover have "conn_data_of (task_moves (Pf j) (conn_tasks ?m ! j, connections ?m) (pg_conn pg j)) = pg_data pg ! j"
    using assms(2,6) reader
    by (cases "pg_data pg ! j") (auto simp: conn_data_of_def task_moves_def pg_conn_def spawn_reader_def)
  ultimately show ?thesis by (simp add: program_eta)
qed

text \<open>A call on the sender, and its drop.\<close>

lemma sender_is_step:
  assumes "sender_of s j = Some x" and "call_env (Pf j) (started (task_of s j)) env"
    and "exec_call (p_lib (Pf j)) env c x (dp_of s j) = Some (x', d)"
  shows "program_step Pf (cp_pg s) (cp_pg (set_sender j (Some x') d s))"
proof -
  let ?pg = "cp_pg s" and ?s = "(pg_conn (cp_pg s) j)\<lparr>c_sender := Some x', c_dp := d\<rparr>"
  from assms(1) have j: "j < length (pg_data ?pg)" and x: "calls (task_of s j) \<noteq> []" "d_sender (pg_data ?pg ! j) = Some x"
    by (auto simp: sender_of_def split: if_splits)
  have "connection_step (Pf j) (pg_conn ?pg j) ?s"
    by (rule connection_step.cs_call) (use x assms(2,3) in \<open>auto simp: pg_conn_def task_of_def dp_of_def\<close>)
  then have "data_step (Pf j) (pg_conn ?pg j) ?s" by (simp add: data_step_def)
  from program_step.pg_data [where Pf = Pf, OF j this] show ?thesis
    by (simp add: set_sender_def conn_data_of_def pg_conn_def)
qed

lemma sender_drop_is_step:
  assumes "sender_of s j = Some x" and "call_env (Pf j) (started (task_of s j)) env"
  shows "program_step Pf (cp_pg s) (cp_pg (set_sender j None (drop_sender (p_lib (Pf j)) env x (dp_of s j)) s))"
proof -
  let ?pg = "cp_pg s" and ?d = "drop_sender (p_lib (Pf j)) env x (dp_of s j)"
  let ?s = "(pg_conn (cp_pg s) j)\<lparr>c_sender := None, c_dp := ?d\<rparr>"
  from assms(1) have j: "j < length (pg_data ?pg)" and x: "d_sender (pg_data ?pg ! j) = Some x"
    by (auto simp: sender_of_def split: if_splits)
  have "connection_step (Pf j) (pg_conn ?pg j)
      ((pg_conn ?pg j)\<lparr>c_sender := None, c_dp := drop_sender (p_lib (Pf j)) env x (c_dp (pg_conn ?pg j))\<rparr>)"
    by (rule connection_step.cs_drop) (use x assms(2) in \<open>simp_all add: pg_conn_def task_of_def\<close>)
  then have "data_step (Pf j) (pg_conn ?pg j) ?s" by (simp add: data_step_def pg_conn_def dp_of_def)
  from program_step.pg_data [where Pf = Pf, OF j this] show ?thesis
    by (simp add: set_sender_def conn_data_of_def pg_conn_def)
qed

text \<open>A call of an exported function has the effect of the call it wraps.\<close>

lemma sm_abort_state: "sm_abort th wait m st = (r, m', st') \<Longrightarrow> st' = snd (cmd_send Abort st)"
  by (auto simp: sm_abort_def Let_def split: if_splits prod.splits)

lemma c_abort_state:
  "socket_manager_abort malloc h th wait (m, st) = Val (Some (code, p, h', m', st')) \<Longrightarrow> st' = snd (cmd_send Abort st)"
  using sm_abort_state [of th wait m st]
  by (cases "sm_abort th wait m st")
    (auto simp: socket_manager_abort_def c_ok_def c_err_def split: outcome.splits option.splits sum.splits prod.splits)

lemma sm_drop_state: "sm_drop th m st = (r, m', st') \<Longrightarrow> st' = snd (cmd_send Abort st)"
  using sm_abort_state [of th True m st]
  by (cases "sm_abort th True m st") (auto simp: sm_drop_def split: outcome.splits option.splits)

lemma manager_call_effect:
  assumes "manager_call E call m s = Val (ret, s')"
  shows "cp_pg s' = cp_pg s \<or> (\<exists>c. cp_pg s' = (cp_pg s)\<lparr>pg_mgr := snd (cmd_send c (pg_mgr (cp_pg s)))\<rparr>)"
proof (cases call)
  case (Cc_command c addr)
  with assms obtain code p h st where r: "c_cmd_call c (ce_malloc E) (ce_from_str E) (cp_heap s) addr (pg_mgr (cp_pg s)) =
      Val (code, p, h, st)" and s': "s' = set_mgr st (s\<lparr>cp_heap := h\<rparr>)"
    by (cases "c_cmd_call c (ce_malloc E) (ce_from_str E) (cp_heap s) addr (pg_mgr (cp_pg s))") auto
  from c_cmds.same_state [OF r] have "st = pg_mgr (cp_pg s) \<or> (\<exists>c. st = snd (cmd_send c (pg_mgr (cp_pg s))))"
    by (auto simp: command_result_def split: outcome.splits sum.splits prod.splits) (metis snd_conv)
  then show ?thesis by (auto simp: s' set_mgr_def)
next
  case (Cc_abort wait th)
  let ?st = "pg_mgr (cp_pg s)"
  let ?r = "socket_manager_abort (ce_malloc E) (cp_heap s) th wait (m, ?st)"
  have "cp_pg s' = (cp_pg s)\<lparr>pg_mgr := snd (cmd_send Abort ?st)\<rparr>"
  proof (cases ?r)
    case (Val v)
    show ?thesis
    proof (cases v)
      case None
      with Val Cc_abort assms show ?thesis by (auto simp: set_mgr_def split: prod.splits dest: sm_abort_state)
    next
      case (Some w)
      with Val Cc_abort assms show ?thesis by (cases w) (auto simp: set_mgr_def dest: c_abort_state)
    qed
  qed (use Cc_abort assms in simp)
  then show ?thesis by blast
next
  case (Cc_join th)
  with assms show ?thesis by (auto split: prod.splits outcome.splits option.splits)
next
  case (Cc_manager_free th)
  obtain r m1 st where d: "sm_drop th m (pg_mgr (cp_pg s)) = (r, m1, st)" by (cases "sm_drop th m (pg_mgr (cp_pg s))")
  with Cc_manager_free assms have "cp_pg s' = (cp_pg s)\<lparr>pg_mgr := st\<rparr>"
    by (auto simp: socket_manager_free_def set_mgr_def split: outcome.splits option.splits)
  with sm_drop_state [OF d] show ?thesis by blast
qed (use assms in auto)

text \<open>A call on the handle that has the effect of the event \<open>e\<close>.\<close>

definition user_effect ::
  "nat \<Rightarrow> ('a, 'm, 'r, 'c, 'rd, 'u) c_program \<Rightarrow> ('a, 'm, 'r, 'c, 'rd, 'u) c_program \<Rightarrow> bool" where
  "user_effect j s s' \<longleftrightarrow>
     (\<exists>e t conns. user_event e \<and> ct_exec e (task_of s j, connections (pg_mgr (cp_pg s))) = Some (t, conns) \<and>
        started t = started (task_of s j) \<and> cp_pg s' = cp_pg (set_task j t conns s))"

lemma user_effectI:
  "user_event e \<Longrightarrow> ct_exec e (task_of s j, connections (pg_mgr (cp_pg s))) = Some (t, conns) \<Longrightarrow>
    started t = started (task_of s j) \<Longrightarrow> cp_pg s' = cp_pg (set_task j t conns s) \<Longrightarrow> user_effect j s s'"
  unfolding user_effect_def by blast

lemma set_task_heap: "cp_pg (set_task j t conns (s\<lparr>cp_heap := h\<rparr>)) = cp_pg (set_task j t conns s)"
  by (simp add: set_task_def set_mgr_def Let_def)

lemma start_call_effect:
  assumes "handle_call E (Cc_connection_start i on_msg n rms wms) j c s = Val (ret, s')"
    and "user_handle (task_of s j) = Some c"
  shows "user_effect j s s'"
proof -
  let ?k = "\<lparr>write_flush_interval = from_millis wms, read_msg_flush_interval = from_millis rms, msg_buffer_size = n\<rparr>"
  let ?r = "socket_manager_connection_start (ce_malloc E) (cp_heap s) (cfg_rx_alive (task_of s j)) on_msg n rms wms c"
  obtain code p h c' sent where r: "?r = Val (code, p, h, c', sent)" using assms(1) by (cases ?r) auto
  let ?t = "(task_of s j)\<lparr>ct_conn := Some c',
      cfg := (case sent of Some (_, m, k) \<Rightarrow> Cfg_value m k | None \<Rightarrow> cfg (task_of s j))\<rparr>"
  obtain res where "start_connection (cfg_rx_alive (task_of s j)) on_msg ?k c = (res, c', sent)"
    using c_start.same_state [OF r] by (metis prod.collapse)
  then have "user_start on_msg ?k c (task_of s j) = ?t" by (auto simp: user_start_def split: option.split)
  then have "ct_exec (User_start on_msg ?k) (task_of s j, connections (pg_mgr (cp_pg s))) =
      Some (?t, connections (pg_mgr (cp_pg s)))" using assms(2) by simp
  then show ?thesis by (rule user_effectI [rotated]) (use assms(1) r in \<open>auto simp: set_task_heap\<close>)
qed

lemma close_call_effect:
  assumes "handle_call E (Cc_connection_close i) j c s = Val (ret, s')" and "user_handle (task_of s j) = Some c"
  shows "user_effect j s s'"
proof -
  let ?conns = "connections (pg_mgr (cp_pg s))"
  let ?r = "socket_manager_connection_close (ce_malloc E) (cp_heap s) c ?conns"
  obtain code p h c' dropped conns where r: "?r = Val (code, p, h, c', dropped, conns)"
    using assms(1) by (cases ?r) auto
  let ?t = "(task_of s j)\<lparr>ct_conn := Some c', cfg := (case dropped of Some _ \<Rightarrow> Cfg_closed | None \<Rightarrow> cfg (task_of s j))\<rparr>"
  obtain res where "conn_close c ?conns = (res, c', dropped, conns)"
    using c_close.same_state [OF r] by (metis prod.collapse)
  then have "user_close c (task_of s j, ?conns) = (?t, conns)" by (simp add: user_close_def split: option.split)
  then have "ct_exec User_close (task_of s j, ?conns) = Some (?t, conns)" using assms(2) by simp
  then show ?thesis by (rule user_effectI [rotated]) (use assms(1) r in \<open>auto simp: set_task_heap\<close>)
qed

lemma free_call_effect:
  assumes "handle_call E (Cc_connection_free i) j c s = Val (ret, s')" and "user_handle (task_of s j) = Some c"
  shows "user_effect j s s'"
proof -
  let ?t = "(task_of s j)\<lparr>ct_conn := None, cfg := (case conn_drop c of Some _ \<Rightarrow> Cfg_closed | None \<Rightarrow> cfg (task_of s j))\<rparr>"
  have "user_drop c (task_of s j) = ?t" by (auto simp: user_drop_def split: option.splits)
  then have "ct_exec User_drop (task_of s j, connections (pg_mgr (cp_pg s))) = Some (?t, connections (pg_mgr (cp_pg s)))"
    using assms(2) by simp
  then show ?thesis by (rule user_effectI [rotated]) (use assms(1) in \<open>auto simp: socket_manager_connection_free_def\<close>)
qed

lemma handle_call_effect:
  assumes "handle_call E call j c s = Val (ret, s')" and "user_handle (task_of s j) = Some c"
  shows "cp_pg s' = cp_pg s \<or> user_effect j s s'"
proof (cases call)
  case (Cc_local_addr i)
  with assms show ?thesis
    by (cases "socket_manager_connection_local_addr (ce_malloc E) (cp_heap s) (ce_to_string E) c") auto
next
  case (Cc_peer_addr i)
  with assms show ?thesis
    by (cases "socket_manager_connection_peer_addr (ce_malloc E) (cp_heap s) (ce_to_string E) c") auto
next
  case (Cc_connection_start i on_msg n rms wms)
  show ?thesis using assms unfolding Cc_connection_start by (blast intro: start_call_effect)
next
  case (Cc_connection_close i)
  show ?thesis using assms unfolding Cc_connection_close by (blast intro: close_call_effect)
next
  case (Cc_connection_free i)
  show ?thesis using assms unfolding Cc_connection_free by (blast intro: free_call_effect)
qed (use assms in simp_all)

lemma c_block_state:
  "socket_manager_msg_sender_send_block malloc h L env in_async fuel bytes waker x d = Some (Val (code, p, h', d')) \<Longrightarrow>
     \<exists>res. send_block L env in_async fuel bytes waker x d = Some (Val res, d')"
  by (auto simp: socket_manager_msg_sender_send_block_def c_ok_def c_err_def
      split: option.splits prod.splits outcome.splits sum.splits)

lemma c_async_state:
  "socket_manager_msg_sender_send_async malloc h L env bytes notifier err x d = Val (n, p, h', d') \<Longrightarrow>
     snd (send_async L env bytes (to_waker notifier) x d) = d'"
  by (auto simp: socket_manager_msg_sender_send_async_def split: if_splits prod.splits outcome.splits poll.splits sum.splits)

text \<open>A call on the sender that has the effect of the method \<open>c\<close>.\<close>

definition method_effect ::
  "('a, 'm, 'r, 'c, 'rd, 'u) c_params \<Rightarrow> (('r, 'c) dp \<Rightarrow> ('r, 'c) dp) \<Rightarrow> nat \<Rightarrow> msg_sender \<Rightarrow>
     ('a, 'm, 'r, 'c, 'rd, 'u) c_program \<Rightarrow> ('a, 'm, 'r, 'c, 'rd, 'u) c_program \<Rightarrow> bool" where
  "method_effect E env j x s s' \<longleftrightarrow>
     (\<exists>c x' d. exec_call (p_lib (ce_conn E j)) env c x (dp_of s j) = Some (x', d) \<and>
        cp_pg s' = cp_pg (set_sender j (Some x') d s))"

lemma method_effectI:
  "exec_call (p_lib (ce_conn E j)) env c x (dp_of s j) = Some (x', d) \<Longrightarrow>
     cp_pg s' = cp_pg (set_sender j (Some x') d s) \<Longrightarrow> method_effect E env j x s s'"
  unfolding method_effect_def by blast

lemma set_sender_heap: "cp_pg (set_sender j x d (s\<lparr>cp_heap := h\<rparr>)) = cp_pg (set_sender j x d s)"
  by (simp add: set_sender_def)

lemma sender_call_effect:
  assumes "sender_call E env call j x s = Some (Val (ret, s'))"
  shows "method_effect E env j x s s' \<or>
    cp_pg s' = cp_pg (set_sender j None (drop_sender (p_lib (ce_conn E j)) env x (dp_of s j)) s)"
proof (cases call)
  case (Cc_send_block i in_async fuel bytes waker)
  let ?r = "socket_manager_msg_sender_send_block (ce_malloc E) (cp_heap s) (p_lib (ce_conn E j)) env in_async fuel bytes waker
          x (dp_of s j)"
  from assms Cc_send_block obtain code p h d where r: "?r = Some (Val (code, p, h, d))"
    by (cases ?r; cases "the ?r") auto
  from c_block_state [OF this] obtain res where "send_block (p_lib (ce_conn E j)) env in_async fuel bytes waker x (dp_of s j) =
      Some (Val res, d)" ..
  then have "exec_call (p_lib (ce_conn E j)) env (Call_send_block in_async fuel bytes waker) x (dp_of s j) = Some (x, d)" by simp
  then show ?thesis by (rule disjI1 [OF method_effectI]) (use assms Cc_send_block r in \<open>auto simp: set_sender_heap\<close>)
next
  case (Cc_send_nonblock i bytes)
  let ?r = "socket_manager_msg_sender_send_nonblock (ce_malloc E) (cp_heap s) (p_lib (ce_conn E j)) env bytes x (dp_of s j)"
  from assms Cc_send_nonblock obtain code p h x' d where r: "?r = Val (code, p, h, x', d)" by (cases ?r) auto
  from c_nonblock.same_state [OF this]
  have "exec_call (p_lib (ce_conn E j)) env (Call_send_nonblock bytes) x (dp_of s j) = Some (x', d)" by simp
  then show ?thesis by (rule disjI1 [OF method_effectI]) (use assms Cc_send_nonblock r in \<open>auto simp: set_sender_heap\<close>)
next
  case (Cc_send_async i bytes notifier err)
  let ?r = "socket_manager_msg_sender_send_async (ce_malloc E) (cp_heap s) (p_lib (ce_conn E j)) env bytes notifier err
          x (dp_of s j)"
  from assms Cc_send_async obtain n p h d where r: "?r = Val (n, p, h, d)" by (cases ?r) auto
  from c_async_state [OF this]
  have "exec_call (p_lib (ce_conn E j)) env (Call_send_async bytes (to_waker notifier)) x (dp_of s j) = Some (x, d)" by simp
  then show ?thesis by (rule disjI1 [OF method_effectI]) (use assms Cc_send_async r in \<open>auto simp: set_sender_heap\<close>)
next
  case (Cc_flush i)
  let ?r = "socket_manager_msg_sender_flush (ce_malloc E) (cp_heap s) (p_lib (ce_conn E j)) env x (dp_of s j)"
  from assms Cc_flush obtain code p h x' d where r: "?r = Val (code, p, h, x', d)" by (cases ?r) auto
  from c_flush.same_state [OF this]
  have "exec_call (p_lib (ce_conn E j)) env Call_flush x (dp_of s j) = Some (x', d)" by (simp split: prod.splits)
  then show ?thesis by (rule disjI1 [OF method_effectI]) (use assms Cc_flush r in \<open>auto simp: set_sender_heap\<close>)
qed (use assms in \<open>simp_all add: socket_manager_msg_sender_free_def\<close>)

text \<open>Every call that returns is at most one step of the program.\<close>

lemma c_exec_steps:
  assumes "program_inv (ce_conn E) (cp_pg s)" and "call_allowed E env call s" and "c_exec E env call s = Some (Val (ret, s'))"
  shows "cp_pg s' = cp_pg s \<or> program_step (ce_conn E) (cp_pg s) (cp_pg s')"
proof (cases "call_target call")
  case T_manager
  with assms(3) obtain m where "manager_call E call m s = Val (ret, s')" by (auto simp: c_exec_def)
  from manager_call_effect [OF this] send_is_step [OF assms(1)] show ?thesis by metis
next
  case (T_handle j)
  with assms(3) obtain c where c: "handle_of s j = Some c" and r: "handle_call E call j c s = Val (ret, s')"
    by (auto simp: c_exec_def)
  from c have j: "j < length (conn_tasks (pg_mgr (cp_pg s)))" and h: "user_handle (task_of s j) = Some c"
    by (auto simp: handle_of_def split: if_splits)
  have "program_step (ce_conn E) (cp_pg s) (cp_pg s')" if "user_effect j s s'"
  proof -
    from that obtain e t conns where e: "user_event e"
      "ct_exec e (task_of s j, connections (pg_mgr (cp_pg s))) = Some (t, conns)" "started t = started (task_of s j)"
      "cp_pg s' = cp_pg (set_task j t conns s)" unfolding user_effect_def by blast
    have "ct_event_ok (pg_mgr (cp_pg s)) e" using e(1) by (cases e) simp_all
    from user_is_step [OF assms(1) j this e(1)] e(2-4) show ?thesis by (simp add: task_of_def set_task_def set_mgr_def Let_def)
  qed
  with handle_call_effect [OF r h] show ?thesis by blast
next
  case (T_sender j)
  with assms(3) obtain x where x: "sender_of s j = Some x" and r: "sender_call E env call j x s = Some (Val (ret, s'))"
    by (auto simp: c_exec_def bind_eq_Some_conv)
  have env: "call_env (ce_conn E j) (started (task_of s j)) env" using T_sender assms(2) by (cases call) auto
  from sender_call_effect [OF r] show ?thesis
    using sender_is_step [where Pf = "ce_conn E", OF x env] sender_drop_is_step [where Pf = "ce_conn E", OF x env] unfolding method_effect_def by metis
qed

section \<open>Invariant\<close>

definition c_program_inv ::
  "('a, 'm, 'r, 'c, 'rd, 'u) c_params \<Rightarrow> ('a, 'm, 'r, 'c, 'rd, 'u) c_program \<Rightarrow> bool" where
  "c_program_inv E s \<longleftrightarrow> program_inv (ce_conn E) (cp_pg s) \<and> (\<forall>m. cp_sm s = Some m \<longrightarrow> sm_inv m)"

lemma manager_call_sm:
  assumes "sm_inv m" and "cp_sm s = Some m" and "manager_call E call m s = Val (ret, s')" and "cp_sm s' = Some m'"
  shows "sm_inv m'"
proof (cases call)
  case (Cc_command c addr)
  with assms show ?thesis
    by (cases "c_cmd_call c (ce_malloc E) (ce_from_str E) (cp_heap s) addr (pg_mgr (cp_pg s))") (auto simp: set_mgr_def)
next
  case (Cc_abort wait th)
  obtain r m1 st where a: "sm_abort th wait m (pg_mgr (cp_pg s)) = (r, m1, st)" by (cases "sm_abort th wait m (pg_mgr (cp_pg s))")
  have "m' = m1" using Cc_abort assms(3,4) a
    by (auto simp: socket_manager_abort_def c_ok_def c_err_def set_mgr_def
        split: outcome.splits option.splits sum.splits prod.splits)
  with sm_abort_cases [OF assms(1), of th wait "pg_mgr (cp_pg s)"] a assms(1) show ?thesis by auto
next
  case (Cc_join th)
  obtain r m1 where a: "sm_join th m = (r, m1)" by (cases "sm_join th m")
  have "m' = m1" using Cc_join assms(3,4) a
    by (auto simp: socket_manager_join_def c_ok_def c_err_def split: outcome.splits option.splits sum.splits prod.splits)
  with sm_join_cases [OF assms(1), of th] a show ?thesis by simp
next
  case (Cc_manager_free th)
  with assms(3,4) show ?thesis by (auto simp: set_mgr_def split: outcome.splits option.splits prod.splits)
qed (use assms in simp_all)

lemma other_call_sm:
  assumes "c_exec E env call s = Some (Val (ret, s'))" and "call_target call \<noteq> T_manager"
  shows "cp_sm s' = cp_sm s"
proof (cases "call_target call")
  case (T_handle j)
  with assms(1) obtain c where "handle_call E call j c s = Val (ret, s')" by (auto simp: c_exec_def)
  with T_handle show ?thesis
    by (cases call) (auto simp: set_task_def set_mgr_def Let_def elim!: map_outcome_Val)
next
  case (T_sender j)
  with assms(1) obtain x where "sender_call E env call j x s = Some (Val (ret, s'))"
    by (auto simp: c_exec_def bind_eq_Some_conv)
  with T_sender show ?thesis by (cases call) (auto simp: set_sender_def elim!: map_outcome_Val)
qed (use assms in simp)

interpretation c_refinement:
  simulation "c_program_init E" "c_program_step E" "c_program_inv E" program_init "program_step (ce_conn E)" cp_pg
  for E :: "('a, 'm, 'r, 'c, 'rd, 'u) c_params"
proof unfold_locales
  fix s s' :: "('a, 'm, 'r, 'c, 'rd, 'u) c_program"
  show init: "program_init (cp_pg s)" if "c_program_init E s"
    using that by (auto simp: c_program_init_def program_init_def socket_manager_init_def sm_init_def
        split: sum.splits outcome.splits prod.splits)
  show "c_program_inv E s" if s: "c_program_init E s"
  proof -
    from s have "cp_sm s = Some socket_manager_new"
      by (auto simp: c_program_init_def socket_manager_init_def sm_init_def split: sum.splits outcome.splits prod.splits)
    with program_system.inv_init [OF init [OF s]] show ?thesis
      by (simp add: c_program_inv_def sm_inv_def socket_manager_new_def)
  qed
  assume inv: "c_program_inv E s" and step: "c_program_step E s s'"
  have pg: "cp_pg s' = cp_pg s \<or> program_step (ce_conn E) (cp_pg s) (cp_pg s')"
    using step inv
    by (cases rule: c_program_step.cases)
      (auto simp: c_program_inv_def intro: runtime_is_program_step dest: c_exec_steps)
  then show "(program_step (ce_conn E))\<^sup>*\<^sup>* (cp_pg s) (cp_pg s')" by auto
  have "\<forall>m. cp_sm s' = Some m \<longrightarrow> sm_inv m"
    using step
  proof (cases rule: c_program_step.cases)
    case (cp_call env call ret)
    show ?thesis
    proof (cases "call_target call")
      case T_manager
      with cp_call inv show ?thesis by (auto simp: c_exec_def c_program_inv_def intro: manager_call_sm)
    qed (use other_call_sm [OF cp_call(2)] inv in \<open>simp_all add: c_program_inv_def\<close>)
  qed (use inv in \<open>simp_all add: c_program_inv_def\<close>)
  with pg inv program_system.inv_step [of "ce_conn E" "cp_pg s" "cp_pg s'"]
  show "c_program_inv E s'" by (auto simp: c_program_inv_def)
qed

section \<open>A run\<close>

text \<open>The steps of the runtime among the events of the program.\<close>

fun runtime_event :: "('a, 'm) mgr_event \<Rightarrow> bool" where
  "runtime_event (Mgr_send _) = False"
| "runtime_event (Mgr_conn _ e) = (\<not> user_event e)"
| "runtime_event _ = True"

lemma runtime_exec_step:
  assumes "program_inv Pf pg" and "\<And>i. fresh_data (Pf i) (fresh i)" and "program_exec Pf fresh e pg = Some pg'"
    and "runtime_event e"
  shows "runtime_step Pf pg pg'"
proof (cases "is_conn_event e")
  case True
  then obtain j ev where "e = Mgr_conn j ev" by (cases e) auto
  with assms(3,4) show ?thesis
    by (auto simp del: mgr_exec.simps split: option.splits if_splits intro: runtime_step.rt_task)
next
  case False
  from False assms(3) obtain m where m: "mgr_exec e (pg_mgr pg) = Some m"
    and pg': "pg' = \<lparr>pg_mgr = m, pg_data = pg_data pg @ map fresh [length (pg_data pg)..<length (conn_tasks m)]\<rparr>"
    by (cases e) (auto simp del: mgr_exec.simps)
  have "\<not> is_send e" using assms(4) by (cases e) auto
  then show ?thesis unfolding pg'
    by (intro runtime_step.rt_manager [OF m False]) (use program_exec_length [OF assms(1) m False] assms(2) in auto)
qed

lemma c_program_reach_runtime:
  assumes "c_program_reach E s" and "\<And>i. fresh_data (ce_conn E i) (fresh i)"
    and "program_run (ce_conn E) fresh es (cp_pg s) = Some pg" and "\<forall>e \<in> set es. runtime_event e"
  shows "c_program_reach E (s\<lparr>cp_pg := pg\<rparr>)"
  using assms(1,3,4)
proof (induction es arbitrary: s)
  case (Cons e es)
  then obtain pg1 where e: "program_exec (ce_conn E) fresh e (cp_pg s) = Some pg1"
    and es: "program_run (ce_conn E) fresh es pg1 = Some pg"
    by (auto simp del: program_exec.simps split: option.splits)
  have "program_inv (ce_conn E) (cp_pg s)" using c_refinement.reach_inv [OF Cons.prems(1)] by (simp add: c_program_inv_def)
  from runtime_exec_step [OF this assms(2) e] Cons.prems(3)
  have "c_program_reach E (s\<lparr>cp_pg := pg1\<rparr>)" by (intro reach_step [OF Cons.prems(1)] c_program_step.cp_runtime) simp
  from Cons.IH [OF this] es Cons.prems(3) show ?case by simp
next
  case Nil
  then have "s\<lparr>cp_pg := pg\<rparr> = s" by (cases s) simp
  with Nil.prems(1) show ?case by (simp only:)
qed

text \<open>C code makes a manager, connects to the address in its heap, and gets a handle and a sender.\<close>

definition demo_c :: "(nat, string, list_ring, list_chan, demo_read, nat) c_params" where
  "demo_c = \<lparr>ce_malloc = demo_malloc, ce_from_str = (\<lambda>_. Inr 2), ce_to_string = (\<lambda>_. ''a''), ce_conn = (\<lambda>_. demo_params)\<rparr>"

definition demo_c_heap :: c_heap where
  "demo_c_heap = [2 \<mapsto> ''x'' @ [NUL]]"

definition demo_c_new :: "(nat, string, list_ring, list_chan, demo_read, nat) c_program" where
  "demo_c_new = \<lparr>cp_pg = \<lparr>pg_mgr = manager_new (\<lambda>_. False) Current_thread, pg_data = []\<rparr>, cp_sm = Some socket_manager_new,
     cp_heap = demo_c_heap\<rparr>"

lemma demo_c_init: "c_program_reach demo_c demo_c_new"
proof (rule reach_init)
  have "socket_manager_init (\<lambda>_. False) (\<lambda>_. None) (Inr 1) (ce_malloc demo_c) demo_c_heap 1 =
      Val (Some (socket_manager_new, manager_new (\<lambda>_. False) Current_thread :: (nat, string) manager), null, demo_c_heap)"
    by (simp add: socket_manager_init_def sm_init_def start_runtime_def rt_build_def MAX_WORKER_THREADS_def)
  then show "c_program_init demo_c demo_c_new" unfolding c_program_init_def demo_c_new_def by fastforce
qed

lemma demo_c_connects:
  "c_exec demo_c (\<lambda>d. d) (Cc_command (C_connect 0) 2) demo_c_new = Some (Val (Ret_code 0 null,
     set_mgr ((manager_new (\<lambda>_. False) Current_thread)\<lparr>cmd_queue := [Connect 2 0]\<rparr>) demo_c_new))"
proof -
  have "socket_addr (\<lambda>_. Inr 2) demo_c_heap 2 = Val (Inr (2 :: nat))"
    by (simp add: socket_addr_def demo_c_heap_def c_str_def utf8_error.simps utf8_width_def)
  then show ?thesis
    by (simp add: c_exec_def demo_c_new_def demo_c_def socket_manager_connect_to_addr_def sm_connect_to_addr_def
        from_millis_def cmd_send_def manager_new_def c_ok_def set_mgr_def)
qed

lemma demo_c_handle:
  "\<exists>s. c_program_reach demo_c s \<and> cp_heap s = demo_c_heap \<and> length (pg_data (cp_pg s)) = 1 \<and>
     handle_of s 0 = Some (conn_new 0 1 2) \<and> sender_of s 0 = Some demo_sender \<and> cfg_rx_alive (task_of s 0) \<and>
     cp_sm s = Some socket_manager_new"
proof -
  let ?es = "[Mgr_main, Mgr_task 0 Mt_poll, Mgr_task 0 (Mt_connected (Inr (Inr 1, Inr 2))), Mgr_conn 0 Ct_first_poll]"
  let ?s = "set_mgr ((manager_new (\<lambda>_. False) Current_thread)\<lparr>cmd_queue := [Connect 2 0]\<rparr>) demo_c_new"
  have reach: "c_program_reach demo_c ?s"
    by (rule reach_step [OF demo_c_init c_program_step.cp_call [OF _ demo_c_connects]]) simp
  obtain pg where run: "program_run (ce_conn demo_c) (\<lambda>_. conn_data_of demo_new) ?es (cp_pg ?s) = Some pg"
    and pg: "length (pg_data pg) = 1" "length (conn_tasks (pg_mgr pg)) = 1" "calls (conn_tasks (pg_mgr pg) ! 0) \<noteq> []"
      "ct_conn (conn_tasks (pg_mgr pg) ! 0) = Some (conn_new 0 1 2)" "d_sender (pg_data pg ! 0) = Some demo_sender"
      "cfg_rx_alive (conn_tasks (pg_mgr pg) ! 0)"
    by (simp add: mgr_eval ct_eval pg_conn_def conn_data_of_def task_moves_def demo_new_def spawn_reader_def set_mgr_def
        demo_c_new_def demo_c_def)
  have "fresh_data demo_params (conn_data_of demo_new)"
    by (simp add: fresh_data_def conn_data_of_def demo_new_def dp_init_def make_sender_def demo_defs world.defs)
  then have "c_program_reach demo_c (?s\<lparr>cp_pg := pg\<rparr>)"
    by (intro c_program_reach_runtime [OF reach _ run]) (simp_all add: demo_c_def)
  with pg show ?thesis
    by (intro exI [of _ "?s\<lparr>cp_pg := pg\<rparr>"])
      (simp add: handle_of_def sender_of_def task_of_def user_handle_def set_mgr_def demo_c_new_def)
qed

section \<open>Properties\<close>

text \<open>C3: whatever C code does, the program runs as it was verified.  In every state that calls of the exported
  functions, the runtime and the foreign code can reach, the program is in a reachable state of the theory
  of the program; and each further call that returns is at most one step of it, so all that is shown for
  the program holds for every use of the C interface.\<close>

theorem c_program_refines_program:
  assumes "c_program_reach E s"
  shows "program_reach (ce_conn E) (cp_pg s) \<and>
    (\<forall>env call ret s'. call_allowed E env call s \<and> c_exec E env call s = Some (Val (ret, s')) \<longrightarrow>
       cp_pg s' = cp_pg s \<or> program_step (ce_conn E) (cp_pg s) (cp_pg s'))"
  using c_refinement.reach_abs [OF assms] c_refinement.reach_inv [OF assms] c_exec_steps
  unfolding c_program_inv_def by blast

theorem c_program_refines_program_witness:
  "\<exists>s. c_program_reach demo_c s \<and> program_reach (\<lambda>_. demo_params) (cp_pg s) \<and> length (pg_data (cp_pg s)) = 1 \<and>
     handle_of s 0 = Some (conn_new 0 1 2)"
proof -
  obtain s where s: "c_program_reach demo_c s" "length (pg_data (cp_pg s)) = 1" "handle_of s 0 = Some (conn_new 0 1 2)"
    using demo_c_handle by blast
  have "ce_conn demo_c = (\<lambda>_. demo_params)" by (simp add: demo_c_def)
  with c_program_refines_program [OF s(1)] s show ?thesis by auto
qed

end
