(* ===== verification/C_Contract.thy ===== *)
theory C_Contract
  imports C_Program
begin

text \<open>
  What the exported functions return to C code, on every state the program can reach under any use of
  the interface: what the wrapped Rust method answers reaches the caller unchanged, as a code, a count or a
  text, and a call that does not return is one that waits for the writer or for the background thread.
\<close>

section \<open>What the calls return\<close>

text \<open>What the Rust method behind a call answers; the count of an asynchronous send comes with the value the
  caller's error variable had.\<close>

datatype rust_ret =
    Rust_result "unit io_result"
  | Rust_poll ptr "nat io_result poll"
  | Rust_text string
  | Rust_unit
  | Rust_blocks
  | Rust_panic string

fun rust_outcome :: "('x \<Rightarrow> rust_ret) \<Rightarrow> 'x outcome \<Rightarrow> rust_ret" where
  "rust_outcome f (Val v) = f v"
| "rust_outcome f (Panic m) = Rust_panic m"

fun rust_join :: "unit io_result option \<Rightarrow> rust_ret" where
  "rust_join None = Rust_blocks"
| "rust_join (Some r) = Rust_result r"

fun manager_rust ::
  "('a, 'm, 'r, 'c, 'rd, 'u) c_params \<Rightarrow> 'm c_call \<Rightarrow> socket_manager \<Rightarrow> ('a, 'm, 'r, 'c, 'rd, 'u) c_program \<Rightarrow> rust_ret" where
  "manager_rust E (Cc_command c addr) m s =
     rust_outcome Rust_result
       (fst (command_result (ce_from_str E) (c_cmd_command c) addr (pg_mgr (cp_pg s)) (cp_heap s)))"
| "manager_rust E (Cc_abort wait th) m s = rust_outcome rust_join (fst (sm_abort th wait m (pg_mgr (cp_pg s))))"
| "manager_rust E (Cc_join th) m s = rust_outcome rust_join (fst (sm_join th m))"
| "manager_rust E (Cc_manager_free th) m s =
     rust_outcome (\<lambda>v. if v = None then Rust_blocks else Rust_unit) (fst (sm_drop th m (pg_mgr (cp_pg s))))"
| "manager_rust E _ m s = Rust_unit"

fun handle_rust ::
  "('a, 'm, 'r, 'c, 'rd, 'u) c_params \<Rightarrow> 'm c_call \<Rightarrow> nat \<Rightarrow> 'a conn \<Rightarrow> ('a, 'm, 'r, 'c, 'rd, 'u) c_program \<Rightarrow> rust_ret" where
  "handle_rust E (Cc_connection_start _ on_msg n rms wms) j c s =
     rust_outcome Rust_result (fst (start_connection (cfg_rx_alive (task_of s j)) on_msg
       \<lparr>write_flush_interval = from_millis wms, read_msg_flush_interval = from_millis rms, msg_buffer_size = n\<rparr> c))"
| "handle_rust E (Cc_connection_close _) j c s =
     rust_outcome Rust_result (fst (conn_close c (connections (pg_mgr (cp_pg s)))))"
| "handle_rust E (Cc_local_addr _) j c s = Rust_text (ce_to_string E (local_addr c))"
| "handle_rust E (Cc_peer_addr _) j c s = Rust_text (ce_to_string E (peer_addr c))"
| "handle_rust E _ j c s = Rust_unit"

text \<open>A blocking send that has not returned within its fuel has no answer.\<close>

fun sender_rust ::
  "('a, 'm, 'r, 'c, 'rd, 'u) c_params \<Rightarrow> (('r, 'c) dp \<Rightarrow> ('r, 'c) dp) \<Rightarrow> 'm c_call \<Rightarrow> nat \<Rightarrow> msg_sender \<Rightarrow>
     ('a, 'm, 'r, 'c, 'rd, 'u) c_program \<Rightarrow> rust_ret option" where
  "sender_rust E env (Cc_send_block _ in_async fuel bytes waker) j x s =
     map_option (\<lambda>rw. rust_outcome Rust_result (fst rw))
       (send_block (p_lib (ce_conn E j)) env in_async fuel bytes waker x (dp_of s j))"
| "sender_rust E env (Cc_send_nonblock _ bytes) j x s =
     Some (rust_outcome Rust_result (fst (send_nonblock (p_lib (ce_conn E j)) env bytes x (dp_of s j))))"
| "sender_rust E env (Cc_send_async _ bytes notifier err) j x s =
     Some (rust_outcome (Rust_poll err) (fst (send_async (p_lib (ce_conn E j)) env bytes (to_waker notifier) x (dp_of s j))))"
| "sender_rust E env (Cc_flush _) j x s = Some (Rust_result (fst (sender_flush (p_lib (ce_conn E j)) env x (dp_of s j))))"
| "sender_rust E env _ j x s = Some Rust_unit"

definition rust_call ::
  "('a, 'm, 'r, 'c, 'rd, 'u) c_params \<Rightarrow> (('r, 'c) dp \<Rightarrow> ('r, 'c) dp) \<Rightarrow> 'm c_call \<Rightarrow>
     ('a, 'm, 'r, 'c, 'rd, 'u) c_program \<Rightarrow> rust_ret option" where
  "rust_call E env call s =
     (case call_target call of
        T_manager \<Rightarrow> map_option (\<lambda>m. manager_rust E call m s) (cp_sm s)
      | T_handle j \<Rightarrow> map_option (\<lambda>c. handle_rust E call j c s) (handle_of s j)
      | T_sender j \<Rightarrow> Option.bind (sender_of s j) (\<lambda>x. sender_rust E env call j x s))"

text \<open>A text that was written for the caller can be read and released, which restores the heap.\<close>

definition text_is :: "c_heap \<Rightarrow> c_heap \<Rightarrow> ptr \<Rightarrow> string \<Rightarrow> bool" where
  "text_is h h' p t \<longleftrightarrow> p \<noteq> null \<and> parse_c_err_str h' p = Val (Inl (to_string_lossy t), h)"

text \<open>What C code gets for an answer: \<open>h\<close> and \<open>h'\<close> are the heaps before and after the call.\<close>

fun answers :: "c_heap \<Rightarrow> rust_ret \<Rightarrow> c_heap \<Rightarrow> c_ret \<Rightarrow> bool" where
  "answers h (Rust_result (Inr _)) h' ret \<longleftrightarrow> ret = Ret_code 0 null \<and> h' = h"
| "answers h (Rust_result (Inl e)) h' ret \<longleftrightarrow> (\<exists>p. ret = Ret_code 1 p \<and> text_is h h' p (err_msg e))"
| "answers h (Rust_poll err (Ready (Inr n))) h' ret \<longleftrightarrow> (\<exists>count. ret = Ret_count count null \<and> sint count = int n) \<and> h' = h"
| "answers h (Rust_poll err (Ready (Inl e))) h' ret \<longleftrightarrow> (\<exists>p. ret = Ret_count 0 p \<and> text_is h h' p (err_msg e))"
| "answers h (Rust_poll err Pending) h' ret \<longleftrightarrow> ret = Ret_count PENDING err \<and> h' = h"
| "answers h (Rust_text t) h' ret \<longleftrightarrow> (\<exists>p. ret = Ret_text p \<and> text_is h h' p t)"
| "answers h Rust_unit h' ret \<longleftrightarrow> ret = Ret_void \<and> h' = h"
| "answers h Rust_blocks h' ret \<longleftrightarrow> ret = Blocks \<and> h' = h"
| "answers h (Rust_panic m) h' ret \<longleftrightarrow> False"

text \<open>What the calls rely on: memory for the error texts, and no zero byte in a text of the libraries.\<close>

definition rb_texts_ok :: "('r, 'c) rb_lib \<Rightarrow> bool" where
  "rb_texts_ok L \<longleftrightarrow> (\<forall>c x e. ch_send L c x = Inl e \<longrightarrow> NUL \<notin> set e) \<and>
     (\<forall>r k bs e r'. rb_poll_write L r k bs = (Ready (Inl e), r') \<longrightarrow> NUL \<notin> set (err_msg e))"

definition c_params_ok :: "('a, 'm, 'r, 'c, 'rd, 'u) c_params \<Rightarrow> (nat \<Rightarrow> ('r, 'c) rb_view) \<Rightarrow> bool" where
  "c_params_ok E V \<longleftrightarrow>
     (\<forall>t m. ce_from_str E t = Inl m \<longrightarrow> NUL \<notin> set m) \<and> (\<forall>a. NUL \<notin> set (ce_to_string E a)) \<and>
     (\<forall>j. rb_laws (p_lib (ce_conn E j)) (V j) \<and> rb_texts_ok (p_lib (ce_conn E j)))"

text \<open>What the C code has to see to: an address is null or a C string, a notifier is not null, a blocking
  send is not called in a callback.  The text of a panic that the join reports has no zero byte.\<close>

fun call_ok :: "'m c_call \<Rightarrow> ('a, 'm, 'r, 'c, 'rd, 'u) c_program \<Rightarrow> bool" where
  "call_ok (Cc_command _ addr) s \<longleftrightarrow> addr = null \<or> (\<exists>t. c_str (cp_heap s) addr = Val t)"
| "call_ok (Cc_abort _ th) s \<longleftrightarrow> (\<forall>e. th = Some (Inl e) \<longrightarrow> NUL \<notin> set e)"
| "call_ok (Cc_join th) s \<longleftrightarrow> (\<forall>e. th = Some (Inl e) \<longrightarrow> NUL \<notin> set e)"
| "call_ok (Cc_send_block _ in_async _ _ _) s \<longleftrightarrow> \<not> in_async"
| "call_ok (Cc_send_async _ bytes notifier _) s \<longleftrightarrow> this notifier \<noteq> null \<and> length bytes < 2 ^ 63"
| "call_ok _ s \<longleftrightarrow> True"

definition returns_ok ::
  "('a, 'm, 'r, 'c, 'rd, 'u) c_program \<Rightarrow> rust_ret \<Rightarrow> (c_ret \<times> ('a, 'm, 'r, 'c, 'rd, 'u) c_program) outcome \<Rightarrow> bool" where
  "returns_ok s rust r \<longleftrightarrow> (\<exists>ret s'. r = Val (ret, s') \<and> answers (cp_heap s) rust (cp_heap s') ret)"

lemma c_code_ok:
  assumes "malloc_avail malloc h" and "\<And>e. v = Inl e \<Longrightarrow> NUL \<notin> set (err_msg e)"
  shows "\<exists>code p h'. (case v of Inr _ \<Rightarrow> c_ok h x | Inl e \<Rightarrow> c_err malloc h e x) = Val (code, p, h', x) \<and>
    answers h (Rust_result v) h' (Ret_code code p)"
proof (cases v)
  case (Inl e)
  with display_written [OF assms(1) assms(2) [OF Inl]] show ?thesis by (auto simp: c_err_def text_is_def)
qed (simp add: c_ok_def)

lemma text_written:
  assumes "malloc_avail malloc h" and "NUL \<notin> set d"
  shows "\<exists>h' p. write_display_c_str malloc h d = Val (h', p) \<and> text_is h h' p d"
  using display_written [OF assms] by (auto simp: text_is_def)

lemma sm_join_text:
  assumes "sm_inv m" and "\<And>e. th = Some (Inl e) \<Longrightarrow> NUL \<notin> set e"
  shows "\<exists>v m'. sm_join th m = (Val v, m') \<and> (\<forall>e. v = Some (Inl e) \<longrightarrow> NUL \<notin> set (err_msg e))"
  using assms by (auto simp: sm_inv_def sm_join_def io_err_def Let_def split: option.split sum.split)

lemma manager_call_returns:
  assumes "malloc_avail (ce_malloc E) (cp_heap s)" and "c_params_ok E V" and "sm_inv m" and "call_ok call s"
    and "call_target call = T_manager"
  shows "returns_ok s (manager_rust E call m s) (manager_call E call m s)"
proof (cases call)
  case (Cc_command c addr)
  let ?r = "command_result (ce_from_str E) (c_cmd_command c) addr (pg_mgr (cp_pg s)) (cp_heap s)"
  have "\<exists>v. socket_addr (ce_from_str E) (cp_heap s) addr = Val v"
    using assms(4) Cc_command by (auto simp: socket_addr_def split: option.split sum.split)
  then obtain v where v: "socket_addr (ce_from_str E) (cp_heap s) addr = Val v" ..
  have nul: "NUL \<notin> set (err_msg e)" if "socket_addr (ce_from_str E) (cp_heap s) addr = Val (Inl e)" for e
    using socket_addr_error_no_nul [OF that] assms(2) by (auto simp: c_params_ok_def)
  obtain w st where r: "?r = (Val w, st)" and "\<And>e. w = Inl e \<Longrightarrow> NUL \<notin> set (err_msg e)"
    using v nul
    by (cases v; cases "main_running (pg_mgr (cp_pg s))") (auto simp: command_result_def cmd_send_def stopped_err_def io_err_def)
  from c_code_ok [OF assms(1) this(2), of w st] obtain code p h where
    "c_cmd_call c (ce_malloc E) (ce_from_str E) (cp_heap s) addr (pg_mgr (cp_pg s)) = Val (code, p, h, st)"
    "answers (cp_heap s) (Rust_result w) h (Ret_code code p)" unfolding c_cmd_call_wraps r by auto
  with Cc_command r show ?thesis by (simp add: returns_ok_def set_mgr_def)
next
  case (Cc_abort wait th)
  let ?st = "snd (cmd_send Abort (pg_mgr (cp_pg s)))"
  obtain v m' where j: "sm_join th m = (Val v, m')" "\<And>e. v = Some (Inl e) \<Longrightarrow> NUL \<notin> set (err_msg e)"
    using sm_join_text [OF assms(3), of th] assms(4) Cc_abort by auto
  obtain w m1 where a: "sm_abort th wait m (pg_mgr (cp_pg s)) = (Val w, m1, ?st)"
    and w: "\<And>e. w = Some (Inl e) \<Longrightarrow> NUL \<notin> set (err_msg e)"
    using j by (cases wait) (auto simp: sm_abort_def Let_def)
  show ?thesis
  proof (cases w)
    case None
    with a Cc_abort show ?thesis by (simp add: returns_ok_def socket_manager_abort_def set_mgr_def)
  next
    case (Some u)
    from c_code_ok [OF assms(1), of u "(m1, ?st)"] w Some obtain code p h where
      "(case u of Inr _ \<Rightarrow> c_ok (cp_heap s) (m1, ?st) | Inl e \<Rightarrow> c_err (ce_malloc E) (cp_heap s) e (m1, ?st)) =
        Val (code, p, h, m1, ?st)" "answers (cp_heap s) (Rust_result u) h (Ret_code code p)" by blast
    with Some a Cc_abort show ?thesis
      by (cases u) (simp_all add: returns_ok_def socket_manager_abort_def set_mgr_def)
  qed
next
  case (Cc_join th)
  obtain v m' where j: "sm_join th m = (Val v, m')" "\<And>e. v = Some (Inl e) \<Longrightarrow> NUL \<notin> set (err_msg e)"
    using sm_join_text [OF assms(3), of th] assms(4) Cc_join by auto
  show ?thesis
  proof (cases v)
    case None
    with j Cc_join show ?thesis by (simp add: returns_ok_def socket_manager_join_def)
  next
    case (Some u)
    from c_code_ok [OF assms(1), of u m'] j(2) Some obtain code p h where
      "(case u of Inr _ \<Rightarrow> c_ok (cp_heap s) m' | Inl e \<Rightarrow> c_err (ce_malloc E) (cp_heap s) e m') = Val (code, p, h, m')"
      "answers (cp_heap s) (Rust_result u) h (Ret_code code p)" by blast
    with Some j(1) Cc_join show ?thesis
      by (cases u) (simp_all add: returns_ok_def socket_manager_join_def)
  qed
next
  case (Cc_manager_free th)
  with sm_drop_cases [OF assms(3), of th "pg_mgr (cp_pg s)"] show ?thesis
    by (simp add: returns_ok_def socket_manager_free_def set_mgr_def)
qed (use assms in simp_all)

lemma handle_call_returns:
  assumes "malloc_avail (ce_malloc E) (cp_heap s)" and "c_params_ok E V" and "conn_inv c"
    and "call_target call = T_handle j"
  shows "returns_ok s (handle_rust E call j c s) (handle_call E call j c s)"
proof -
  have nul: "NUL \<notin> set (ce_to_string E a)" for a using assms(2) by (simp add: c_params_ok_def)
  show ?thesis
  proof (cases call)
    case (Cc_connection_start i on_msg n rms wms)
    let ?k = "\<lparr>write_flush_interval = from_millis wms, read_msg_flush_interval = from_millis rms, msg_buffer_size = n\<rparr>"
    obtain v c' y where r: "start_connection (cfg_rx_alive (task_of s j)) on_msg ?k c = (Val v, c', y)"
      "\<And>e. v = Inl e \<Longrightarrow> NUL \<notin> set (err_msg e)"
      using start_connection_cases [OF assms(3), of "cfg_rx_alive (task_of s j)" on_msg ?k]
      by (auto simp: io_err_def split: if_splits)
    from c_code_ok [OF assms(1) r(2), of v "(c', y)"] obtain code p h where
      "(case v of Inr _ \<Rightarrow> c_ok (cp_heap s) (c', y) | Inl e \<Rightarrow> c_err (ce_malloc E) (cp_heap s) e (c', y)) =
        Val (code, p, h, c', y)" "answers (cp_heap s) (Rust_result v) h (Ret_code code p)" by blast
    with r(1) Cc_connection_start show ?thesis
      by (cases v) (simp_all add: returns_ok_def socket_manager_connection_start_def set_task_def set_mgr_def Let_def)
  next
    case (Cc_connection_close i)
    then show ?thesis
      by (simp add: returns_ok_def socket_manager_connection_close_def conn_close_cases [OF assms(3)] c_ok_def
          set_task_def set_mgr_def Let_def)
  next
    case (Cc_local_addr i)
    with text_written [OF assms(1) nul [of "local_addr c"]] show ?thesis
      by (auto simp: returns_ok_def socket_manager_connection_local_addr_def)
  next
    case (Cc_peer_addr i)
    with text_written [OF assms(1) nul [of "peer_addr c"]] show ?thesis
      by (auto simp: returns_ok_def socket_manager_connection_peer_addr_def)
  qed (use assms(4) in \<open>simp_all add: returns_ok_def set_task_def set_mgr_def Let_def\<close>)
qed

text \<open>The texts of the errors of the sender.\<close>

lemma send_ring_text:
  assumes "send_ring L env ring bs x w = (Inl e, x', w')" and "rb_texts_ok L"
  shows "NUL \<notin> set (err_msg e)"
  using assms by (auto simp: send_ring_def io_err_def rb_texts_ok_def Let_def split: sum.splits)

lemma send_nonblock_text:
  assumes "send_nonblock L env bytes x w = (Val (Inl e), x', w')" and "rb_texts_ok L"
  shows "NUL \<notin> set (err_msg e)"
  using assms
  by (auto simp: send_nonblock_def Let_def split: if_splits prod.splits outcome.splits burst_write_state.splits
      dest: send_ring_text)

lemma write_all_future_text:
  assumes "write_all_future L env waker bytes fuel offset x w = Some (Inl e, w')" and "rb_texts_ok L"
  shows "NUL \<notin> set (err_msg e)"
  using assms(1)
proof (induction fuel arbitrary: offset w)
  case (Suc fuel)
  then show ?case
    using assms(2) unfolding rb_texts_ok_def by (auto simp: Let_def split: if_splits prod.splits poll.splits sum.splits) blast
qed simp

lemma send_block_text:
  assumes "send_block L env in_async fuel bytes waker x w = Some (Val (Inl e), w')" and "rb_texts_ok L"
  shows "NUL \<notin> set (err_msg e)"
  using assms
  by (auto simp: send_block_def split: if_splits prod.splits outcome.splits burst_write_state.splits
      dest: write_all_future_text)

lemma send_block_no_panic:
  assumes "rb_laws L V" and "sender_frame env" and "ring_buf x < length (rings w)"
    and "send_block L env False fuel bytes waker x w = Some (res, w')"
  shows "\<exists>v. res = Val v"
proof (cases "bytes = []")
  case False
  obtain r off w1 where bw: "burst_write L env 0 (ring_buf x) bytes w = (r, off, w1)"
    by (cases "burst_write L env 0 (ring_buf x) bytes w") auto
  with burst_write_post [OF assms(1-3) _ bw] False assms(4) show ?thesis
    by (auto simp: send_block_def split: burst_write_state.splits)
qed (use assms(4) in \<open>auto simp: send_block_def\<close>)

text \<open>The calls on a sender, the two that may wait for the writer first.\<close>

lemma sender_block_returns:
  assumes "malloc_avail (ce_malloc E) (cp_heap s)" and "rb_laws (p_lib (ce_conn E j)) V" and "rb_texts_ok (p_lib (ce_conn E j))"
    and "ring_buf x < length (rings (dp_of s j))" and "sender_frame env" and "call_ok call s"
    and call: "call = Cc_send_block j in_async fuel bytes waker"
  shows "case sender_rust E env call j x s of None \<Rightarrow> sender_call E env call j x s = None
    | Some rust \<Rightarrow> \<exists>r. sender_call E env call j x s = Some r \<and> returns_ok s rust r"
proof -
  let ?L = "p_lib (ce_conn E j)"
  show ?thesis
  proof (cases "send_block ?L env False fuel bytes waker x (dp_of s j)")
    case None
    with call assms(6) show ?thesis by (auto simp: socket_manager_msg_sender_send_block_def)
  next
    case (Some rd)
    then obtain v d where v: "send_block ?L env False fuel bytes waker x (dp_of s j) = Some (Val v, d)"
      using send_block_no_panic [OF assms(2,5,4)] by (cases rd) blast
    from c_code_ok [OF assms(1), of v d] send_block_text [OF _ assms(3)] v obtain code p h where
      "(case v of Inr _ \<Rightarrow> c_ok (cp_heap s) d | Inl e \<Rightarrow> c_err (ce_malloc E) (cp_heap s) e d) = Val (code, p, h, d)"
      "answers (cp_heap s) (Rust_result v) h (Ret_code code p)" by blast
    with v call assms(6) show ?thesis
      by (cases v) (simp_all add: returns_ok_def socket_manager_msg_sender_send_block_def set_sender_def)
  qed
qed

lemma sender_async_returns:
  assumes "malloc_avail (ce_malloc E) (cp_heap s)" and "rb_laws (p_lib (ce_conn E j)) V"
    and "ring_buf x < length (rings (dp_of s j))" and "sender_frame env" and "call_ok call s"
    and call: "call = Cc_send_async j bytes notifier err"
  shows "\<exists>rust r. sender_rust E env call j x s = Some rust \<and> sender_call E env call j x s = Some r \<and> returns_ok s rust r"
proof -
  let ?L = "p_lib (ce_conn E j)"
  obtain res d where r: "send_async ?L env bytes (to_waker notifier) x (dp_of s j) = (res, d)"
    by (cases "send_async ?L env bytes (to_waker notifier) x (dp_of s j)")
  consider (count) n where "res = Val (Ready (Inr n))" "n \<le> length bytes"
    | (closed) "res = Val (Ready (io_err Other ''connection closed''))" | (full) "res = Val Pending"
    using send_async_post [OF assms(2,4) _ r assms(3)] r by (cases "bytes = []") (auto simp: async_outcome_def send_async_def)
  then show ?thesis
  proof cases
    case (count n)
    with c_long_of_nat [of n] r call assms(5) show ?thesis
      by (simp add: returns_ok_def socket_manager_msg_sender_send_async_def set_sender_def)
  next
    case closed
    have "NUL \<notin> set ''connection closed''" by simp
    from text_written [OF assms(1) this] closed r call assms(5) show ?thesis
      by (auto simp: returns_ok_def socket_manager_msg_sender_send_async_def io_err_def set_sender_def)
  next
    case full
    with r call assms(5) show ?thesis
      by (simp add: returns_ok_def socket_manager_msg_sender_send_async_def set_sender_def)
  qed
qed

lemma sender_call_returns:
  assumes "malloc_avail (ce_malloc E) (cp_heap s)" and "c_params_ok E V" and "call_ok call s"
    and "call_target call = T_sender j"
    and "dp_reach (p_lib (ce_conn E j)) config (Some x, dp_of s j)" and "writer_env (p_lib (ce_conn E j)) config env"
  shows "case sender_rust E env call j x s of
    None \<Rightarrow> sender_call E env call j x s = None \<and> (\<exists>fuel bytes waker. call = Cc_send_block j False fuel bytes waker)
  | Some rust \<Rightarrow> \<exists>r. sender_call E env call j x s = Some r \<and> returns_ok s rust r"
proof -
  let ?L = "p_lib (ce_conn E j)"
  from assms(2) have laws: "rb_laws ?L (V j)" and texts: "rb_texts_ok ?L" by (auto simp: c_params_ok_def)
  note i = reach_ring_buf [OF laws assms(5)] and frame = writer_env_frame [OF assms(6)]
  show ?thesis
  proof (cases call)
    case (Cc_send_block k in_async fuel bytes waker)
    with assms(4) have "call = Cc_send_block j in_async fuel bytes waker" by simp
    with sender_block_returns [OF assms(1) laws texts i frame assms(3)] assms(3) show ?thesis by (auto split: option.splits)
  next
    case (Cc_send_nonblock k bytes)
    obtain res x' d where r: "send_nonblock ?L env bytes x (dp_of s j) = (res, x', d)"
      by (cases "send_nonblock ?L env bytes x (dp_of s j)")
    then obtain v where v: "send_nonblock ?L env bytes x (dp_of s j) = (Val v, x', d)"
      using send_nonblock_post [OF laws frame i r] by auto
    from c_code_ok [OF assms(1), of v "(x', d)"] send_nonblock_text [OF _ texts] v obtain code p h where
      "(case v of Inr _ \<Rightarrow> c_ok (cp_heap s) (x', d) | Inl e \<Rightarrow> c_err (ce_malloc E) (cp_heap s) e (x', d)) =
        Val (code, p, h, x', d)" "answers (cp_heap s) (Rust_result v) h (Ret_code code p)" by blast
    with v Cc_send_nonblock show ?thesis
      by (cases v) (simp_all add: returns_ok_def socket_manager_msg_sender_send_nonblock_def set_sender_def)
  next
    case (Cc_flush k)
    obtain v x' d where r: "sender_flush ?L env x (dp_of s j) = (v, x', d)"
      by (cases "sender_flush ?L env x (dp_of s j)")
    from c_code_ok [OF assms(1), of v "(x', d)"] send_ring_text [OF _ texts] r obtain code p h where
      "(case v of Inr _ \<Rightarrow> c_ok (cp_heap s) (x', d) | Inl e \<Rightarrow> c_err (ce_malloc E) (cp_heap s) e (x', d)) =
        Val (code, p, h, x', d)" "answers (cp_heap s) (Rust_result v) h (Ret_code code p)" unfolding sender_flush_def by blast
    with r Cc_flush show ?thesis
      by (cases v) (simp_all add: returns_ok_def socket_manager_msg_sender_flush_def set_sender_def)
  next
    case (Cc_send_async k bytes notifier err)
    with assms(4) have "call = Cc_send_async j bytes notifier err" by simp
    with sender_async_returns [OF assms(1) laws i frame assms(3)] show ?thesis by (auto split: option.splits)
  qed (use assms(4) in \<open>simp_all add: returns_ok_def set_sender_def\<close>)
qed

text \<open>What a reachable state gives for its handles and senders.\<close>

lemma reachable_handle:
  assumes "program_inv (ce_conn E) (cp_pg s)" and "handle_of s j = Some c"
  shows "conn_inv c"
proof -
  from assms(2) have j: "j < length (conn_tasks (pg_mgr (cp_pg s)))" and c: "ct_conn (task_of s j) = Some c"
    by (auto simp: handle_of_def user_handle_def split: if_splits)
  with assms(1) have "conn_ok (ce_conn E j) (pg_conn (cp_pg s) j)" by (simp add: program_inv_def)
  then have "connection_reach (ce_conn E j) (ct_id (task_of s j)) (ct_local (task_of s j)) (ct_peer (task_of s j))
      (pg_conn (cp_pg s) j)" by (simp add: conn_ok_def pg_conn_def task_of_def)
  from conn_system.reach_inv [OF connection_parts(1) [OF this]] c show ?thesis
    by (simp add: ct_inv_def ct_handle_inv_def pg_conn_def task_of_def)
qed

lemma reachable_sender:
  assumes "program_inv (ce_conn E) (cp_pg s)" and "sender_of s j = Some x"
    and "call_env (ce_conn E j) (started (task_of s j)) env"
  shows "\<exists>config. dp_reach (p_lib (ce_conn E j)) config (Some x, dp_of s j) \<and> writer_env (p_lib (ce_conn E j)) config env"
proof -
  from assms(2) have j: "j < length (pg_data (cp_pg s))" and x: "d_sender (pg_data (cp_pg s) ! j) = Some x"
    by (auto simp: sender_of_def split: if_splits)
  with assms(1) have "conn_ok (ce_conn E j) (pg_conn (cp_pg s) j)" by (simp add: program_inv_def)
  then have "connection_inv (ce_conn E j) (ct_id (task_of s j)) (ct_local (task_of s j)) (ct_peer (task_of s j))
      (pg_conn (cp_pg s) j)"
    by (intro connection_system.reach_inv) (simp add: conn_ok_def pg_conn_def task_of_def)
  then have data: "data_part (ce_conn E j) (started (task_of s j)) (Some x) (dp_of s j)"
    using x by (simp add: connection_inv_def pg_conn_def task_of_def dp_of_def)
  obtain config where "\<And>m c. started (task_of s j) = Some (m, c) \<Longrightarrow> c = config"
    by (cases "started (task_of s j)") auto
  with data call_env_writer_env [OF assms(3)] show ?thesis unfolding data_part_def by blast
qed

definition has_target :: "('a, 'm, 'r, 'c, 'rd, 'u) c_program \<Rightarrow> 'm c_call \<Rightarrow> bool" where
  "has_target s call \<longleftrightarrow>
     (case call_target call of
        T_manager \<Rightarrow> cp_sm s \<noteq> None | T_handle j \<Rightarrow> handle_of s j \<noteq> None | T_sender j \<Rightarrow> sender_of s j \<noteq> None)"

section \<open>Properties\<close>

text \<open>The calls that wait for the background thread, while it runs.\<close>

fun joins_thread :: "'m c_call \<Rightarrow> bool" where
  "joins_thread (Cc_join th) = (th = None)"
| "joins_thread (Cc_abort wait th) = (wait \<and> th = None)"
| "joins_thread (Cc_manager_free th) = (th = None)"
| "joins_thread _ = False"

lemma manager_rust_blocks:
  assumes "sm_inv m"
  shows "manager_rust E call m s = Rust_blocks \<longleftrightarrow> joins_thread call \<and> \<not> has_joined m"
proof (cases call)
  case (Cc_command c addr)
  then show ?thesis
    by (cases "fst (command_result (ce_from_str E) (c_cmd_command c) addr (pg_mgr (cp_pg s)) (cp_heap s))") simp_all
next
  case (Cc_abort wait th)
  have "rust_join (join_answer (Sm_abort True) th) = Rust_blocks \<longleftrightarrow> th = None"
    by (cases th rule: option.exhaust; cases "the th") simp_all
  with Cc_abort show ?thesis by (simp add: sm_abort_cases [OF assms])
next
  case (Cc_join th)
  have "rust_join (join_answer Sm_join th) = Rust_blocks \<longleftrightarrow> th = None"
    by (cases th rule: option.exhaust; cases "the th") simp_all
  with Cc_join show ?thesis by (simp add: sm_join_cases [OF assms])
next
  case (Cc_manager_free th)
  then show ?thesis by (simp add: sm_drop_cases [OF assms])
qed simp_all

lemma handle_rust_returns: "handle_rust E call j c s \<noteq> Rust_blocks"
proof -
  have "rust_outcome Rust_result r \<noteq> Rust_blocks" for r by (cases r) simp_all
  then show ?thesis by (cases call) simp_all
qed

lemma sender_rust_returns: "sender_rust E env call j x s \<noteq> Some Rust_blocks"
proof -
  have "rust_outcome Rust_result r \<noteq> Rust_blocks" "rust_outcome (Rust_poll p) q \<noteq> Rust_blocks" for r p q
    by (cases r; simp) (cases q; simp)
  then show ?thesis by (cases call) auto
qed

text \<open>C17: what a call of the C interface gives its caller.  In every reachable state, for every call on a handle that
  was given out and not freed: no call panics, and what the Rust method answers reaches the caller.  \<open>Ok\<close> is the code
  0 with a null error pointer, an error is the code 1 with its text; the count of an asynchronous send is itself with
  a null pointer, its error 0 with its text, and a pending send is \<open>PENDING\<close>, with the error variable and the heap
  untouched; the address of a connection is its text; every text can be read and released, which restores the heap.
  A call does not return only if it is a blocking send that still waits, or a join, an abort that waits or a free of
  a manager nobody has joined, while the background thread runs.  The caller has to pass a valid address and
  notifier and must not block in a callback, an asynchronous message has less than \<open>2 ^ 63\<close> bytes, and memory and
  the libraries' texts are as expected.\<close>

theorem c_calls_contract:
  assumes "c_program_reach E s" and "malloc_avail (ce_malloc E) (cp_heap s)" and "c_params_ok E V"
    and "has_target s call" and "call_allowed E env call s" and "call_ok call s"
  shows "case rust_call E env call s of
      None \<Rightarrow> c_exec E env call s = None \<and> (\<exists>j fuel bytes waker. call = Cc_send_block j False fuel bytes waker)
    | Some rust \<Rightarrow>
        (\<exists>ret s'. c_exec E env call s = Some (Val (ret, s')) \<and> answers (cp_heap s) rust (cp_heap s') ret) \<and>
        (rust = Rust_blocks \<longleftrightarrow> joins_thread call \<and> (\<exists>m. cp_sm s = Some m \<and> \<not> has_joined m))"
proof -
  from c_refinement.reach_inv [OF assms(1)] have inv: "program_inv (ce_conn E) (cp_pg s)"
    and sm: "\<And>m. cp_sm s = Some m \<Longrightarrow> sm_inv m" by (auto simp: c_program_inv_def)
  show ?thesis
  proof (cases "call_target call")
    case T_manager
    with assms(4) obtain m where m: "cp_sm s = Some m" by (auto simp: has_target_def)
    from manager_call_returns [OF assms(2,3) sm [OF m] assms(6) T_manager] manager_rust_blocks [OF sm [OF m]] m T_manager
    show ?thesis by (simp add: c_exec_def rust_call_def returns_ok_def)
  next
    case (T_handle j)
    with assms(4) obtain c where c: "handle_of s j = Some c" by (auto simp: has_target_def)
    have "\<not> joins_thread call" using T_handle by (cases call) simp_all
    with handle_call_returns [OF assms(2,3) reachable_handle [OF inv c] T_handle] handle_rust_returns c T_handle show ?thesis
      by (simp add: c_exec_def rust_call_def returns_ok_def)
  next
    case (T_sender j)
    with assms(4) obtain x where x: "sender_of s j = Some x" by (auto simp: has_target_def)
    have wait: "\<not> joins_thread call" using T_sender by (cases call) simp_all
    have "call_env (ce_conn E j) (started (task_of s j)) env" using T_sender assms(5) by (cases call) auto
    from reachable_sender [OF inv x this] obtain config where
      "dp_reach (p_lib (ce_conn E j)) config (Some x, dp_of s j)" "writer_env (p_lib (ce_conn E j)) config env" by blast
    from sender_call_returns [OF assms(2,3,6) T_sender this] x T_sender wait sender_rust_returns [of E env call j x s]
    show ?thesis by (auto simp: c_exec_def rust_call_def returns_ok_def split: option.splits)
  qed
qed

theorem c_calls_contract_witness:
  "\<exists>s s' t t'. c_program_reach demo_c s \<and>
     c_exec demo_c (\<lambda>d. d) (Cc_connection_start 0 ''cb'' 0 5 5) s = Some (Val (Ret_code 0 null, s')) \<and>
     c_exec demo_c (\<lambda>d. d) (Cc_join None) s = Some (Val (Blocks, t)) \<and>
     c_exec demo_c (\<lambda>d. d) (Cc_manager_free None) s = Some (Val (Blocks, t'))"
proof -
  let ?start = "Cc_connection_start 0 ''cb'' 0 5 5 :: string c_call"
  obtain s where s: "c_program_reach demo_c s" "cp_heap s = demo_c_heap" "handle_of s 0 = Some (conn_new 0 1 2)"
    "cfg_rx_alive (task_of s 0)" "cp_sm s = Some socket_manager_new"
    using demo_c_handle by blast
  have m: "malloc_avail (ce_malloc demo_c) (cp_heap s)"
    using demo_malloc_ok by (simp add: malloc_avail_def demo_malloc_def demo_c_def demo_c_heap_def s(2))
  have ok: "c_params_ok demo_c (\<lambda>_. list_view)"
    using list_lib_laws by (auto simp: c_params_ok_def rb_texts_ok_def demo_c_def list_lib_def list_push_def Let_def
        split: if_splits)
  note contract = c_calls_contract [OF s(1) m ok, of _ "\<lambda>d. d"]
  have "rust_call demo_c (\<lambda>d. d) ?start s = Some (Rust_result (Inr ()))"
    using s(3,4) by (simp add: rust_call_def conn_new_def start_connection_def)
  with contract [of ?start] s(3) have start: "\<exists>s'. c_exec demo_c (\<lambda>d. d) ?start s = Some (Val (Ret_code 0 null, s'))"
    by (auto simp: has_target_def)
  have "rust_call demo_c (\<lambda>d. d) (Cc_join None) s = Some Rust_blocks" "rust_call demo_c (\<lambda>d. d) (Cc_manager_free None) s = Some Rust_blocks"
    using s(5) by (simp_all add: rust_call_def sm_join_def sm_drop_def sm_abort_def socket_manager_new_def)
  with contract [of "Cc_join None"] contract [of "Cc_manager_free None"] s(5)
  have "\<exists>t. c_exec demo_c (\<lambda>d. d) (Cc_join None) s = Some (Val (Blocks, t))"
    "\<exists>t. c_exec demo_c (\<lambda>d. d) (Cc_manager_free None) s = Some (Val (Blocks, t))" by (auto simp: has_target_def)
  with start s(1) show ?thesis by blast
qed

end
