(* ===== verification/On_Conn.thy ===== *)
theory On_Conn
  imports C_Utils On_Msg Conn_Handle
begin

text \<open>
  The connection callback: \<open>OnConnObj::call_inner\<close> of \<open>src/c_api/on_conn.rs\<close> and the C structures of
  \<open>src/c_api/conn_events.rs\<close> it fills.

  The foreign function \<open>socket_manager_extern_on_conn\<close> is the argument \<open>cb\<close>: from the C heap, the state of
  the callback object and the structure it computes the error pointer and the new heap and object.  The
  union \<open>ConnStateData\<close> is the field that was written; the C code reads the field that the code names.
  The boxed sender and handle of \<open>OnConnect\<close> are the values themselves, a \<open>CString\<close> is its bytes.
\<close>

section \<open>C structures\<close>

datatype conn_state_code = Connect_code | ConnectionClose_code | ListenError_code | ConnectError_code | RemoteClose_code

fun code_value :: "conn_state_code \<Rightarrow> nat" where
  "code_value Connect_code = 0"
| "code_value ConnectionClose_code = 1"
| "code_value ListenError_code = 2"
| "code_value ConnectError_code = 3"
| "code_value RemoteClose_code = 4"

datatype 'a conn_state_data =
    Data_on_connect msg_sender "'a conn"
  | Data_on_connection_close string string
  | Data_on_listen_error string string
  | Data_on_connect_error string string
  | Data_on_remote_close string string

record 'a conn_states =
  code :: conn_state_code
  data :: "'a conn_state_data"

type_synonym ('a, 'u) extern_on_conn = "'u c_env \<Rightarrow> 'a conn_states \<Rightarrow> ptr \<times> 'u c_env"

text \<open>The type \<open>Fn(ConnState) -> Result<(), String>\<close>, on a callback with state \<open>'u\<close>.\<close>

type_synonym ('a, 'u) on_conn_fn = "'u \<Rightarrow> 'a conn_state \<Rightarrow> (string + unit) outcome \<times> 'u"

section \<open>The callback\<close>

text \<open>\<open>CString::new(...).unwrap()\<close>.\<close>

definition cstring_new :: "string \<Rightarrow> string outcome" where
  "cstring_new s = (if NUL \<in> set s then Panic ''called `Result::unwrap()` on an `Err` value: NulError'' else Val s)"

text \<open>The closure \<open>on_conn\<close>: the call and the error it left.\<close>

definition on_conn_call ::
  "('a, 'u) extern_on_conn \<Rightarrow> 'u c_env \<Rightarrow> 'a conn_states \<Rightarrow> (string + unit) outcome \<times> 'u c_env" where
  "on_conn_call cb env states =
     (case cb env states of
        (err, env1) \<Rightarrow>
          (case parse_c_err_str (heap env1) err of
             Panic m \<Rightarrow> (Panic m, env1)
           | Val (r, h) \<Rightarrow> (Val r, env1\<lparr>heap := h\<rparr>)))"

text \<open>Two texts as C strings, then the call.\<close>

definition call_with_texts ::
  "('a, 'u) extern_on_conn \<Rightarrow> 'u c_env \<Rightarrow> conn_state_code \<Rightarrow> (string \<Rightarrow> string \<Rightarrow> 'a conn_state_data) \<Rightarrow>
     string \<Rightarrow> string \<Rightarrow> (string + unit) outcome \<times> 'u c_env" where
  "call_with_texts cb env c mk a b =
     (case cstring_new a of
        Panic m \<Rightarrow> (Panic m, env)
      | Val a' \<Rightarrow>
          (case cstring_new b of
             Panic m \<Rightarrow> (Panic m, env)
           | Val b' \<Rightarrow> on_conn_call cb env \<lparr>code = c, data = mk a' b'\<rparr>))"

text \<open>\<open>to_string\<close> is the \<open>Display\<close> of a socket address.\<close>

fun on_conn_call_inner ::
  "('a, 'u) extern_on_conn \<Rightarrow> ('a \<Rightarrow> string) \<Rightarrow> ('a, 'u c_env) on_conn_fn" where
  "on_conn_call_inner cb to_string env (OnConnect send conn) =
     on_conn_call cb env \<lparr>code = Connect_code, data = Data_on_connect send conn\<rparr>"
| "on_conn_call_inner cb to_string env (OnConnectionClose la pa) =
     call_with_texts cb env ConnectionClose_code Data_on_connection_close (to_string la) (to_string pa)"
| "on_conn_call_inner cb to_string env (OnListenError addr error) =
     call_with_texts cb env ListenError_code Data_on_listen_error (to_string addr) (err_msg error)"
| "on_conn_call_inner cb to_string env (OnConnectError addr error) =
     call_with_texts cb env ConnectError_code Data_on_connect_error (to_string addr) (err_msg error)"
| "on_conn_call_inner cb to_string env (OnRemoteClose la pa) =
     call_with_texts cb env RemoteClose_code Data_on_remote_close (to_string la) (to_string pa)"

section \<open>Properties\<close>

text \<open>The field of the union that a code stands for.\<close>

fun data_code :: "'a conn_state_data \<Rightarrow> conn_state_code" where
  "data_code (Data_on_connect _ _) = Connect_code"
| "data_code (Data_on_connection_close _ _) = ConnectionClose_code"
| "data_code (Data_on_listen_error _ _) = ListenError_code"
| "data_code (Data_on_connect_error _ _) = ConnectError_code"
| "data_code (Data_on_remote_close _ _) = RemoteClose_code"

definition states_ok :: "'a conn_states \<Rightarrow> bool" where
  "states_ok s \<longleftrightarrow> code s = data_code (data s) \<and>
     (case data s of
        Data_on_connect _ _ \<Rightarrow> True
      | Data_on_connection_close a b \<Rightarrow> NUL \<notin> set a \<and> NUL \<notin> set b
      | Data_on_listen_error a b \<Rightarrow> NUL \<notin> set a \<and> NUL \<notin> set b
      | Data_on_connect_error a b \<Rightarrow> NUL \<notin> set a \<and> NUL \<notin> set b
      | Data_on_remote_close a b \<Rightarrow> NUL \<notin> set a \<and> NUL \<notin> set b)"

lemma on_conn_call_cong: "cb env s = cb' env s \<Longrightarrow> on_conn_call cb env s = on_conn_call cb' env s"
  by (simp add: on_conn_call_def)

text \<open>C35: the C side never reads the wrong field of the union.  The foreign callback is only ever called
  with a structure whose code names the field that was written and whose texts contain no inner NUL: a
  callback that differs on other structures cannot be told apart.\<close>

theorem on_conn_union_safe:
  assumes "\<And>env s. states_ok s \<Longrightarrow> cb env s = cb' env s"
  shows "on_conn_call_inner cb to_string env ev = on_conn_call_inner cb' to_string env ev"
  using assms
  by (cases ev) (auto simp: call_with_texts_def cstring_new_def states_ok_def split: outcome.splits
      intro!: on_conn_call_cong)

theorem on_conn_union_safe_witness:
  "on_conn_call_inner (\<lambda>env s. if states_ok s then (null, env) else (5, env)) (\<lambda>n. ''addr'')
       \<lparr>heap = Map.empty, user = ()\<rparr> (OnRemoteClose (1 :: nat) 2) =
     on_conn_call_inner (\<lambda>env s. (null, env)) (\<lambda>n. ''addr'') \<lparr>heap = Map.empty, user = ()\<rparr> (OnRemoteClose (1 :: nat) 2)"
  by (rule on_conn_union_safe) simp

text \<open>The number and the structure of each event.\<close>

fun event_code :: "'a conn_state \<Rightarrow> nat" where
  "event_code (OnConnect _ _) = 0"
| "event_code (OnConnectionClose _ _) = 1"
| "event_code (OnListenError _ _) = 2"
| "event_code (OnConnectError _ _) = 3"
| "event_code (OnRemoteClose _ _) = 4"

fun event_error :: "'a conn_state \<Rightarrow> string" where
  "event_error (OnListenError _ e) = err_msg e"
| "event_error (OnConnectError _ e) = err_msg e"
| "event_error _ = []"

fun event_states :: "('a \<Rightarrow> string) \<Rightarrow> 'a conn_state \<Rightarrow> 'a conn_states" where
  "event_states to_string (OnConnect send conn) = \<lparr>code = Connect_code, data = Data_on_connect send conn\<rparr>"
| "event_states to_string (OnConnectionClose la pa) =
     \<lparr>code = ConnectionClose_code, data = Data_on_connection_close (to_string la) (to_string pa)\<rparr>"
| "event_states to_string (OnListenError addr e) =
     \<lparr>code = ListenError_code, data = Data_on_listen_error (to_string addr) (err_msg e)\<rparr>"
| "event_states to_string (OnConnectError addr e) =
     \<lparr>code = ConnectError_code, data = Data_on_connect_error (to_string addr) (err_msg e)\<rparr>"
| "event_states to_string (OnRemoteClose la pa) =
     \<lparr>code = RemoteClose_code, data = Data_on_remote_close (to_string la) (to_string pa)\<rparr>"

text \<open>The callback's answer is handed on.  If the address texts and the error text have no inner NUL,
  each event reaches the foreign callback exactly once, with the code of the event, and the result is the
  error text the callback left, or \<open>Ok\<close> if it left none.\<close>

lemma on_conn_hands_on:
  assumes "\<And>a. NUL \<notin> set (to_string a)" and "NUL \<notin> set (event_error ev)"
  shows "\<exists>s. code_value (code s) = event_code ev \<and> states_ok s \<and>
    on_conn_call_inner cb to_string env ev =
      (case cb env s of (err, env1) \<Rightarrow>
         if err = null then (Val (Inr ()), env1)
         else case c_str (heap env1) err of
           Val t \<Rightarrow> (Val (Inl (to_string_lossy t)), env1\<lparr>heap := (heap env1)(err := None)\<rparr>)
         | Panic m \<Rightarrow> (Panic m, env1))"
proof -
  have call: "on_conn_call cb env s =
      (case cb env s of (err, env1) \<Rightarrow>
         if err = null then (Val (Inr ()), env1)
         else case c_str (heap env1) err of
           Val t \<Rightarrow> (Val (Inl (to_string_lossy t)), env1\<lparr>heap := (heap env1)(err := None)\<rparr>)
         | Panic m \<Rightarrow> (Panic m, env1))" for s
    by (auto simp: on_conn_call_def parse_c_err_str_def split: prod.splits outcome.splits)
  let ?s = "event_states to_string ev"
  have "code_value (code ?s) = event_code ev \<and> states_ok ?s \<and>
      on_conn_call_inner cb to_string env ev = on_conn_call cb env ?s"
    using assms by (cases ev) (simp_all add: call_with_texts_def cstring_new_def states_ok_def)
  then show ?thesis using call by metis
qed

end
