(* ===== verification/Foreign_Conn.thy ===== *)
theory Foreign_Conn
  imports On_Conn
begin

text \<open>
  The connection task of \<open>src/conn_handle.rs\<close> with the foreign callback of \<open>src/c_api/on_conn.rs\<close>: what the C
  code sees of a connection.

  In \<open>Conn_Handle\<close> the results of the callbacks come with the events; here they are computed.  Where the
  task calls \<open>on_conn\<close>, \<open>OnConnObj::call_inner\<close> calls the foreign function, which changes the C heap and the
  state of the callback object, and its result decides how the task goes on.
\<close>

section \<open>Steps\<close>

datatype 'm fc_event =
    Fc_returned
  | Fc_config
  | Fc_stop
  | Fc_writer
  | Fc_reader
  | Fc_silent "'m ct_event"

text \<open>The events that call nothing.\<close>

fun no_callback :: "'m ct_event \<Rightarrow> bool" where
  "no_callback (Ct_returned _ _) = False"
| "no_callback (Ct_config _) = False"
| "no_callback (Ct_stop _) = False"
| "no_callback (Ct_writer _) = False"
| "no_callback (Ct_reader _ _) = False"
| "no_callback _ = True"

type_synonym ('a, 'm, 'u) fc_state = "(('a, 'm) conn_task \<times> 'a connections) \<times> 'u c_env"

text \<open>A branch that may end the connection: the close callback runs only if the task gets there.\<close>

definition closing ::
  "('a, 'u) extern_on_conn \<Rightarrow> ('a \<Rightarrow> string) \<Rightarrow> ((string + unit) outcome \<Rightarrow> 'm ct_event) \<Rightarrow>
     ('a, 'm, 'u) fc_state \<Rightarrow> ('a, 'm, 'u) fc_state option" where
  "closing cb to_string ev s =
     (case s of ((t, conns), env) \<Rightarrow>
       case on_conn_call_inner cb to_string env (OnConnectionClose (ct_local t) (ct_peer t)) of (r, env1) \<Rightarrow>
         map_option (\<lambda>tc. (tc, if calls (fst tc) = calls t then env else env1)) (ct_exec (ev r) (t, conns)))"

text \<open>The result of \<open>OnConnect\<close>; after an error the connection is closed at once.\<close>

definition returned ::
  "('a, 'u) extern_on_conn \<Rightarrow> ('a \<Rightarrow> string) \<Rightarrow> ('a, 'm, 'u) fc_state \<Rightarrow> ('a, 'm, 'u) fc_state option" where
  "returned cb to_string s =
     (case s of ((t, conns), env) \<Rightarrow>
       case on_conn_call_inner cb to_string env (OnConnect \<lparr>ring_buf = 0\<rparr> (conn_new (ct_id t) (ct_local t) (ct_peer t))) of
         (r, env1) \<Rightarrow> closing cb to_string (Ct_returned r) ((t, conns), env1))"

text \<open>The reader has ended: \<open>OnRemoteClose\<close> if it ended well, and the close if the writer has ended too.\<close>

definition remote_closing ::
  "('a, 'u) extern_on_conn \<Rightarrow> ('a \<Rightarrow> string) \<Rightarrow> ('a, 'm, 'u) fc_state \<Rightarrow> ('a, 'm, 'u) fc_state option" where
  "remote_closing cb to_string s =
     (case s of ((t, conns), env) \<Rightarrow>
       if r_child t = Finished (Join_ok (Inr ()))
       then case on_conn_call_inner cb to_string env (OnRemoteClose (ct_local t) (ct_peer t)) of (r, env1) \<Rightarrow>
         case on_conn_call_inner cb to_string env1 (OnConnectionClose (ct_local t) (ct_peer t)) of (rc, env2) \<Rightarrow>
           map_option (\<lambda>tc. (tc, if length (calls (fst tc)) = length (calls t) + 2 then env2 else env1))
             (ct_exec (Ct_reader r rc) (t, conns))
       else closing cb to_string (Ct_reader (Val (Inr ()))) s)"

fun fc_exec ::
  "('a, 'u) extern_on_conn \<Rightarrow> ('a \<Rightarrow> string) \<Rightarrow> 'm fc_event \<Rightarrow> ('a, 'm, 'u) fc_state \<Rightarrow> ('a, 'm, 'u) fc_state option" where
  "fc_exec cb to_string Fc_returned s = returned cb to_string s"
| "fc_exec cb to_string Fc_config s = closing cb to_string Ct_config s"
| "fc_exec cb to_string Fc_stop s = closing cb to_string Ct_stop s"
| "fc_exec cb to_string Fc_writer s = closing cb to_string Ct_writer s"
| "fc_exec cb to_string Fc_reader s = remote_closing cb to_string s"
| "fc_exec cb to_string (Fc_silent e) s =
     (if no_callback e then map_option (\<lambda>tc. (tc, snd s)) (ct_exec e (fst s)) else None)"

inductive fc_step ::
  "('a, 'u) extern_on_conn \<Rightarrow> ('a \<Rightarrow> string) \<Rightarrow> ('a, 'm, 'u) fc_state \<Rightarrow> ('a, 'm, 'u) fc_state \<Rightarrow> bool"
  for cb :: "('a, 'u) extern_on_conn" and to_string :: "'a \<Rightarrow> string" where
  fc_event: "fc_exec cb to_string e s = Some s' \<Longrightarrow> fc_step cb to_string s s'"
| fc_others: "(\<And>key. conns' key = Some (ct_id t) \<Longrightarrow> conns key = Some (ct_id t)) \<Longrightarrow>
    fc_step cb to_string ((t, conns), env) ((t, conns'), env)"

definition fc_init :: "nat \<Rightarrow> 'a \<Rightarrow> 'a \<Rightarrow> 'u c_env \<Rightarrow> ('a, 'm, 'u) fc_state \<Rightarrow> bool" where
  "fc_init k la pa env s \<longleftrightarrow> conn_init k la pa (fst s) \<and> snd s = env"

abbreviation fc_reach ::
  "('a, 'u) extern_on_conn \<Rightarrow> ('a \<Rightarrow> string) \<Rightarrow> nat \<Rightarrow> 'a \<Rightarrow> 'a \<Rightarrow> 'u c_env \<Rightarrow> ('a, 'm, 'u) fc_state \<Rightarrow> bool" where
  "fc_reach cb to_string k la pa env \<equiv> reach (fc_init k la pa env) (fc_step cb to_string)"

section \<open>A callback that keeps a log\<close>

text \<open>The foreign callback writes every structure it is given into its log and answers as it likes; what it
  leaves in \<open>err\<close> has to be null or a C string.\<close>

type_synonym 'a answer = "c_heap \<Rightarrow> 'a conn_states list \<Rightarrow> 'a conn_states \<Rightarrow> ptr \<times> c_heap"

definition logging :: "'a answer \<Rightarrow> ('a, 'a conn_states list) extern_on_conn" where
  "logging ans env s = (case ans (heap env) (user env) s of (p, h) \<Rightarrow> (p, \<lparr>heap = h, user = user env @ [s]\<rparr>))"

definition answer_ok :: "'a answer \<Rightarrow> bool" where
  "answer_ok ans \<longleftrightarrow> (\<forall>h log s p h'. ans h log s = (p, h') \<longrightarrow> p = null \<or> (\<exists>x. c_str h' p = Val x))"

lemma on_conn_call_logs:
  assumes "on_conn_call (logging ans) env s = (r, env')" and "answer_ok ans"
  shows "user env' = user env @ [s]" and "\<exists>v. r = Val v"
proof -
  obtain p h where a: "ans (heap env) (user env) s = (p, h)" by fastforce
  then have "p = null \<or> (\<exists>x. c_str h p = Val x)" using assms(2) unfolding answer_ok_def by blast
  with assms(1) a show "user env' = user env @ [s]" and "\<exists>v. r = Val v"
    by (auto simp: on_conn_call_def logging_def parse_c_err_str_def split: if_splits)
qed

text \<open>The three events of a connection reach the callback, if the texts of addresses have no zero byte.\<close>

definition conn_event :: "'a conn_state \<Rightarrow> bool" where
  "conn_event ev \<longleftrightarrow> (\<forall>a e. ev \<noteq> OnListenError a e \<and> ev \<noteq> OnConnectError a e)"

lemma call_inner_logs:
  assumes "on_conn_call_inner (logging ans) to_string env ev = (r, env')" and "answer_ok ans"
    and "\<And>a. NUL \<notin> set (to_string a)" and "conn_event ev"
  shows "user env' = user env @ [event_states to_string ev]" and "\<exists>v. r = Val v"
proof -
  have "on_conn_call_inner (logging ans) to_string env ev = on_conn_call (logging ans) env (event_states to_string ev)"
    using assms(3,4) by (cases ev) (auto simp: conn_event_def call_with_texts_def cstring_new_def)
  with on_conn_call_logs [OF _ assms(2)] assms(1)
  show "user env' = user env @ [event_states to_string ev]" and "\<exists>v. r = Val v" by metis+
qed

section \<open>Invariant\<close>

text \<open>The callbacks that have reached the C side: during the call of \<open>OnConnect\<close> not yet that one.\<close>

definition seen :: "('a, 'm) conn_task \<Rightarrow> 'a conn_state list" where
  "seen t = (if ct_pc t = CT_call then butlast (calls t) else calls t)"

definition fc_inv ::
  "('a \<Rightarrow> string) \<Rightarrow> nat \<Rightarrow> 'a \<Rightarrow> 'a \<Rightarrow> ('a, 'm, 'a conn_states list) fc_state \<Rightarrow> bool" where
  "fc_inv to_string k la pa s \<longleftrightarrow>
     conn_reach k la pa (fst s) \<and> user (snd s) = map (event_states to_string) (seen (fst (fst s))) \<and>
     (\<forall>m. ct_pc (fst (fst s)) \<noteq> CT_panicked m)"

abbreviation (input) close_call :: "('a, 'm) conn_task \<Rightarrow> 'a conn_state" where
  "close_call t \<equiv> OnConnectionClose (ct_local t) (ct_peer t)"

lemma break_calls: "calls (fst (join_break r (t, conns))) = calls t @ [close_call t]"
  "ct_pc (fst (join_break r (t, conns))) \<noteq> CT_call" "ct_pc (connection_close r t) \<noteq> CT_call"
  by (simp_all add: join_break_def connection_close_def split: outcome.splits)

text \<open>The calls a branch adds.\<close>

lemma closing_calls:
  assumes "ct_exec e (t, conns) = Some tc" and "e = Ct_returned q r \<or> e = Ct_config r \<or> e = Ct_stop r \<or> e = Ct_writer r \<or>
      e = Ct_reader q r \<and> r_child t \<noteq> Finished (Join_ok (Inr ()))"
  shows "ct_pc (fst tc) \<noteq> CT_call" and "calls (fst tc) = calls t \<or> calls (fst tc) = calls t @ [close_call t]"
proof -
  have "(calls (fst tc) = calls t \<or> calls (fst tc) = calls t @ [close_call t]) \<and> ct_pc (fst tc) \<noteq> CT_call"
    using assms
    by (elim disjE conjE)
      (auto simp: wait_for_start_return_def wait_for_start_config_def join_stop_def join_writer_def join_reader_def Let_def
        break_calls split: if_splits ct_pc.splits outcome.splits sum.splits cfg_chan.splits poll.splits
          join_result.splits prod.splits elim!: join_poll.elims)
  then show "ct_pc (fst tc) \<noteq> CT_call" and "calls (fst tc) = calls t \<or> calls (fst tc) = calls t @ [close_call t]" by simp_all
qed

lemma remote_calls_added:
  assumes "ct_exec (Ct_reader q r) (t, conns) = Some tc" and "r_child t = Finished (Join_ok (Inr ()))"
  shows "ct_pc (fst tc) \<noteq> CT_call" and "calls (fst tc) = calls t @ [OnRemoteClose (ct_local t) (ct_peer t)] \<or>
    calls (fst tc) = calls t @ [OnRemoteClose (ct_local t) (ct_peer t), close_call t]"
  using assms
  by (auto simp: join_reader_def Let_def break_calls split: if_splits ct_pc.splits outcome.splits)

lemma silent_calls:
  assumes "ct_exec e (t, conns) = Some tc" and "no_callback e"
  shows "e = Ct_first_poll \<and> calls (fst tc) = calls t @ [on_connect (ct_id t) (ct_local t) (ct_peer t)] \<and>
      ct_pc t = CT_spawned \<and> ct_pc (fst tc) = CT_call \<or>
    calls (fst tc) = calls t \<and> (ct_pc (fst tc) = ct_pc t \<or> ct_pc (fst tc) = CT_cancelled \<and> ct_pc t \<noteq> CT_call)"
  using assms
  by (cases e) (auto simp: wait_for_start_call_def ct_awaits_def user_same_calls user_close_fields split: if_splits)

lemma no_panic_step:
  assumes "conn_reach k la pa (t, conns)" and "ct_exec e (t, conns) = Some tc" and "\<And>m. Panic m \<notin> set (callback_results e)"
    and "\<And>m. ct_pc t \<noteq> CT_panicked m"
  shows "ct_pc (fst tc) \<noteq> CT_panicked m"
  using conn_panics_only_in_callbacks [OF assms(1), of e "fst tc" "snd tc" m] assms(2-4) by auto

lemma fc_reach_step:
  "conn_reach k la pa (t, conns) \<Longrightarrow> ct_exec e (t, conns) = Some tc \<Longrightarrow> conn_reach k la pa tc"
  by (blast intro: reach_step conn_step.step_task)

lemma seen_calls: "ct_pc t \<noteq> CT_call \<Longrightarrow> seen t = calls t"
  by (simp add: seen_def)

lemma closing_inv:
  assumes "closing (logging ans) to_string ev ((t, conns), env) = Some s'" and ok: "answer_ok ans" "\<And>a. NUL \<notin> set (to_string a)"
    and reach: "conn_reach k la pa (t, conns)" and "\<And>m. ct_pc t \<noteq> CT_panicked m"
    and log: "user env = map (event_states to_string) (calls t)"
    and ev: "ev = Ct_returned (Val q) \<or> ev = Ct_config \<or> ev = Ct_stop \<or> ev = Ct_writer \<or>
      ev = Ct_reader (Val q) \<and> r_child t \<noteq> Finished (Join_ok (Inr ()))"
  shows "fc_inv to_string k la pa s'"
proof -
  obtain r env1 where call: "on_conn_call_inner (logging ans) to_string env (close_call t) = (r, env1)" by fastforce
  have "conn_event (close_call t)" by (simp add: conn_event_def)
  note post = call_inner_logs [OF call ok this]
  from post(2) obtain v where r: "r = Val v" ..
  from assms(1) call obtain tc where tc: "ct_exec (ev r) (t, conns) = Some tc"
    and s': "s' = (tc, if calls (fst tc) = calls t then env else env1)"
    by (auto simp: closing_def)
  have "Panic m \<notin> set (callback_results (ev r))" for m using ev r by auto
  note pc = no_panic_step [OF reach tc this assms(5)]
  have "ev r = Ct_returned (Val q) r \<or> ev r = Ct_config r \<or> ev r = Ct_stop r \<or> ev r = Ct_writer r \<or>
      ev r = Ct_reader (Val q) r \<and> r_child t \<noteq> Finished (Join_ok (Inr ()))" using ev by auto
  note calls = closing_calls [OF tc this]
  from calls(2) post(1) log have "user (snd s') = map (event_states to_string) (calls (fst tc))" by (auto simp: s')
  with fc_reach_step [OF reach tc] pc calls(1) show ?thesis by (simp add: fc_inv_def s' seen_calls)
qed

lemma returned_fc_inv:
  assumes "returned (logging ans) to_string s = Some s'" and ok: "answer_ok ans" "\<And>a. NUL \<notin> set (to_string a)"
    and inv: "fc_inv to_string k la pa s"
  shows "fc_inv to_string k la pa s'"
proof -
  obtain t conns env where s: "s = ((t, conns), env)" by (cases s) auto
  let ?oc = "on_connect (ct_id t) (ct_local t) (ct_peer t)"
  obtain r env1 where call: "on_conn_call_inner (logging ans) to_string env ?oc = (r, env1)" by fastforce
  have "conn_event ?oc" by (simp add: conn_event_def)
  note post = call_inner_logs [OF call ok this]
  from post(2) obtain v where r: "r = Val v" ..
  from assms(1) call r s have cl: "closing (logging ans) to_string (Ct_returned (Val v)) ((t, conns), env1) = Some s'"
    by (simp add: returned_def)
  then have pc: "ct_pc t = CT_call" by (auto simp: closing_def split: prod.splits if_splits)
  from inv s have reach: "conn_reach k la pa (t, conns)" and np: "\<And>m. ct_pc t \<noteq> CT_panicked m"
    and log: "user env = map (event_states to_string) (seen t)" by (simp_all add: fc_inv_def)
  from conn_system.reach_inv [OF reach] pc have "calls t = [?oc]" by (simp add: ct_inv_def ct_pc_inv_def Let_def)
  with log post(1) pc have "user env1 = map (event_states to_string) (calls t)" by (simp add: seen_def)
  from closing_inv [OF cl ok reach np this] show ?thesis by blast
qed

lemma remote_fc_inv:
  assumes "remote_closing (logging ans) to_string s = Some s'" and ok: "answer_ok ans" "\<And>a. NUL \<notin> set (to_string a)"
    and inv: "fc_inv to_string k la pa s" and "ct_pc (fst (fst s)) \<noteq> CT_call"
  shows "fc_inv to_string k la pa s'"
proof -
  obtain t conns env where s: "s = ((t, conns), env)" by (cases s) auto
  from inv s assms(5) have reach: "conn_reach k la pa (t, conns)" and np: "\<And>m. ct_pc t \<noteq> CT_panicked m"
    and log: "user env = map (event_states to_string) (calls t)" by (simp_all add: fc_inv_def seen_calls)
  show ?thesis
  proof (cases "r_child t = Finished (Join_ok (Inr ()))")
    case False
    with assms(1) s have "closing (logging ans) to_string (Ct_reader (Val (Inr ()))) ((t, conns), env) = Some s'"
      by (simp add: remote_closing_def)
    from closing_inv [OF this ok reach np log] False show ?thesis by blast
  next
    case True
    let ?rc = "OnRemoteClose (ct_local t) (ct_peer t)"
    obtain q env1 where c1: "on_conn_call_inner (logging ans) to_string env ?rc = (q, env1)" by fastforce
    obtain r env2 where c2: "on_conn_call_inner (logging ans) to_string env1 (close_call t) = (r, env2)" by fastforce
    have "conn_event ?rc" "conn_event (close_call t)" by (simp_all add: conn_event_def)
    note p1 = call_inner_logs [OF c1 ok this(1)] and p2 = call_inner_logs [OF c2 ok this(2)]
    from assms(1) s True c1 c2 obtain tc where tc: "ct_exec (Ct_reader q r) (t, conns) = Some tc"
      and s': "s' = (tc, if length (calls (fst tc)) = length (calls t) + 2 then env2 else env1)"
      by (auto simp: remote_closing_def)
    have "Panic m \<notin> set (callback_results (Ct_reader q r))" for m using p1(2) p2(2) by auto
    note pc = no_panic_step [OF reach tc this np]
    note calls = remote_calls_added [OF tc True]
    from calls(2) p1(1) p2(1) log have "user (snd s') = map (event_states to_string) (calls (fst tc))" by (auto simp: s')
    with fc_reach_step [OF reach tc] pc calls(1) show ?thesis by (simp add: fc_inv_def s' seen_calls)
  qed
qed

lemma silent_fc_inv:
  assumes "ct_exec e (t, conns) = Some tc" and "no_callback e" and inv: "fc_inv to_string k la pa ((t, conns), env)"
  shows "fc_inv to_string k la pa (tc, env)"
proof -
  from inv have reach: "conn_reach k la pa (t, conns)" and np: "\<And>m. ct_pc t \<noteq> CT_panicked m"
    and log: "user env = map (event_states to_string) (seen t)" by (simp_all add: fc_inv_def)
  have "callback_results e = []" using assms(2) by (cases e) simp_all
  with no_panic_step [OF reach assms(1) _ np] have pc: "\<And>m. ct_pc (fst tc) \<noteq> CT_panicked m" by simp
  from silent_calls [OF assms(1,2)] have "seen (fst tc) = seen t" by (auto simp: seen_def)
  with fc_reach_step [OF reach assms(1)] pc log show ?thesis by (simp add: fc_inv_def)
qed

lemma closing_not_call:
  assumes "closing cb to_string ev ((t, conns), env) = Some s'" and "ev = Ct_config \<or> ev = Ct_stop \<or> ev = Ct_writer"
  shows "ct_pc t \<noteq> CT_call"
  using assms by (auto simp: closing_def split: prod.splits)

lemma remote_not_call: "remote_closing cb to_string s = Some s' \<Longrightarrow> ct_pc (fst (fst s)) \<noteq> CT_call"
  by (cases s) (auto simp: remote_closing_def closing_def split: prod.splits if_splits)

lemma fc_exec_inv:
  assumes "fc_exec (logging ans) to_string e s = Some s'" and ok: "answer_ok ans" "\<And>a. NUL \<notin> set (to_string a)"
    and inv: "fc_inv to_string k la pa s"
  shows "fc_inv to_string k la pa s'"
proof -
  obtain t conns env where s: "s = ((t, conns), env)" by (cases s) auto
  from inv s have reach: "conn_reach k la pa (t, conns)" and np: "\<And>m. ct_pc t \<noteq> CT_panicked m"
    and log: "user env = map (event_states to_string) (seen t)" by (simp_all add: fc_inv_def)
  have cl: "fc_inv to_string k la pa s'"
    if "closing (logging ans) to_string ev ((t, conns), env) = Some s'" "ev = Ct_config \<or> ev = Ct_stop \<or> ev = Ct_writer" for ev
    using closing_inv [OF that(1) ok reach np] log seen_calls [OF closing_not_call [OF that]] that(2) by metis
  show ?thesis
  proof (cases e)
    case Fc_returned
    with assms show ?thesis by (auto intro: returned_fc_inv)
  next
    case Fc_reader
    with assms(1) have r: "remote_closing (logging ans) to_string s = Some s'" by simp
    show ?thesis by (rule remote_fc_inv [OF r ok inv remote_not_call [OF r]])
  next
    case (Fc_silent ev)
    with assms(1) s obtain tc where tc: "ct_exec ev (t, conns) = Some tc" "no_callback ev" and s': "s' = (tc, env)"
      by (auto split: if_splits)
    from silent_fc_inv [OF tc inv [unfolded s]] show ?thesis by (simp add: s')
  qed (use cl assms(1) s in auto)
qed

lemma fc_step_inv:
  assumes "fc_step (logging ans) to_string s s'" and "answer_ok ans" and "\<And>a. NUL \<notin> set (to_string a)"
    and inv: "fc_inv to_string k la pa s"
  shows "fc_inv to_string k la pa s'"
  using assms(1)
proof (cases rule: fc_step.cases)
  case (fc_event e)
  show ?thesis by (rule fc_exec_inv [OF fc_event assms(2,3) inv])
next
  case (fc_others conns' t conns env)
  from inv fc_others(1) have "conn_reach k la pa (t, conns)" by (simp add: fc_inv_def)
  then have "conn_reach k la pa (t, conns')" by (rule reach_step) (rule conn_step.step_others [OF fc_others(3)])
  with inv fc_others show ?thesis by (simp add: fc_inv_def)
qed

text \<open>What is asked of the foreign side and of the texts of addresses.\<close>

definition foreign_ok :: "'a answer \<Rightarrow> ('a \<Rightarrow> string) \<Rightarrow> 'a conn_states list c_env \<Rightarrow> bool" where
  "foreign_ok ans to_string env \<longleftrightarrow> answer_ok ans \<and> (\<forall>a. NUL \<notin> set (to_string a)) \<and> user env = []"

interpretation foreign_system:
  invariant_system "fc_init k la pa env" "fc_step (logging ans) to_string"
    "\<lambda>s. foreign_ok ans to_string env \<longrightarrow> fc_inv to_string k la pa s"
  for k :: nat and la pa :: 'a and env ans to_string
proof unfold_locales
  fix s :: "('a, 'm, 'a conn_states list) fc_state"
  assume i: "fc_init k la pa env s"
  then have "conn_reach k la pa (fst s)" "fst (fst s) = handle_connection k la pa" "snd s = env"
    by (auto simp: fc_init_def conn_init_def intro: reach_init)
  then show "foreign_ok ans to_string env \<longrightarrow> fc_inv to_string k la pa s"
    by (simp add: foreign_ok_def fc_inv_def seen_def handle_connection_def)
next
  fix s s' :: "('a, 'm, 'a conn_states list) fc_state"
  assume inv: "foreign_ok ans to_string env \<longrightarrow> fc_inv to_string k la pa s" and step: "fc_step (logging ans) to_string s s'"
  show "foreign_ok ans to_string env \<longrightarrow> fc_inv to_string k la pa s'"
    using fc_step_inv [OF step] inv by (auto simp: foreign_ok_def)
qed

section \<open>Properties\<close>

fun fc_run ::
  "('a, 'u) extern_on_conn \<Rightarrow> ('a \<Rightarrow> string) \<Rightarrow> 'm fc_event list \<Rightarrow> ('a, 'm, 'u) fc_state \<Rightarrow> ('a, 'm, 'u) fc_state option" where
  "fc_run cb to_string [] s = Some s"
| "fc_run cb to_string (e # es) s =
     (case fc_exec cb to_string e s of None \<Rightarrow> None | Some s' \<Rightarrow> fc_run cb to_string es s')"

lemma fc_reach_run:
  assumes "fc_reach cb to_string k la pa env s" and "fc_run cb to_string es s = Some s'"
  shows "fc_reach cb to_string k la pa env s'"
  using assms
proof (induction es arbitrary: s)
  case (Cons e es)
  then obtain s1 where e: "fc_exec cb to_string e s = Some s1" and es: "fc_run cb to_string es s1 = Some s'"
    by (auto simp del: fc_exec.simps split: option.splits)
  from Cons.prems(1) fc_step.fc_event [OF e] have "fc_reach cb to_string k la pa env s1" by (rule reach_step)
  from Cons.IH [OF this es] show ?case .
qed simp

lemma event_states_code: "code_value (code (event_states to_string ev)) = event_code ev"
  by (cases ev) simp_all

lemma event_states_ok: "(\<And>a. NUL \<notin> set (to_string a)) \<Longrightarrow> conn_event ev \<Longrightarrow> states_ok (event_states to_string ev)"
  by (cases ev) (auto simp: states_ok_def conn_event_def)

lemma calls_conn_event:
  assumes "conn_reach k la pa (t, conns)" and "ev \<in> set (seen t)"
  shows "conn_event ev"
proof -
  have "ev \<in> set (calls t)" using assms(2) by (auto simp: seen_def split: if_splits dest: in_set_butlastD)
  with calls_shape [OF assms(1)] show ?thesis by (auto simp: conn_event_def remote_calls_def split: if_splits)
qed

lemma seen_events:
  assumes "conn_reach k la pa (t, conns)"
  shows "\<exists>rem rest. seen t @ rest = on_connect k la pa # rem @ [OnConnectionClose la pa] \<and>
    (rem = [] \<or> rem = [OnRemoteClose la pa]) \<and> (ct_pc t = CT_done \<longrightarrow> rest = [])"
proof (cases "ct_pc t = CT_call")
  case True
  with conn_system.reach_inv [OF assms] have "seen t = []" by (simp add: seen_def ct_inv_def ct_pc_inv_def)
  with True show ?thesis by auto
next
  case False
  have ids: "ct_local t = la" "ct_peer t = pa" using conn_system.reach_inv [OF assms] by (simp_all add: ct_inv_def)
  show ?thesis unfolding seen_calls [OF False]
    by (rule exI [of _ "remote_calls t"], insert calls_shape [OF assms], elim disjE) (auto simp: remote_calls_def ids)
qed

text \<open>C11: the C side sees the protocol.  If the texts of addresses have no zero byte and the foreign callback
  leaves in \<open>err\<close> null or a C string, then, whatever it answers and does to the heap, the structures it is called
  with are a front of: the connect event (code 0) with the sender on the first ring and the unused handle of this
  connection; possibly the remote close (code 4) and then the close (code 1), each with the text of the local
  address of this connection first and that of its peer second.  Once the task is done it has seen all of it.
  Every structure is well formed, the callback has seen exactly the calls the task made, and the task never panics.\<close>

theorem foreign_sees_protocol:
  assumes "fc_reach (logging ans) to_string k la pa env_init ((t, conns), env)" and "foreign_ok ans to_string env_init"
  shows "(\<exists>rem rest. user env @ rest =
        \<lparr>code = Connect_code, data = Data_on_connect \<lparr>ring_buf = 0\<rparr> (conn_new k la pa)\<rparr> # rem @
        [\<lparr>code = ConnectionClose_code, data = Data_on_connection_close (to_string la) (to_string pa)\<rparr>] \<and>
      (rem = [] \<or> rem = [\<lparr>code = RemoteClose_code, data = Data_on_remote_close (to_string la) (to_string pa)\<rparr>]) \<and>
      (ct_pc t = CT_done \<longrightarrow> rest = [])) \<and>
    user env = map (event_states to_string) (seen t) \<and> (\<forall>s. s \<in> set (user env) \<longrightarrow> states_ok s) \<and>
    (\<forall>m. ct_pc t \<noteq> CT_panicked m)"
proof -
  from foreign_system.reach_inv [OF assms(1)] assms(2) have inv: "fc_inv to_string k la pa ((t, conns), env)" by simp
  then have reach: "conn_reach k la pa (t, conns)" and log: "user env = map (event_states to_string) (seen t)"
    and np: "\<forall>m. ct_pc t \<noteq> CT_panicked m" by (simp_all add: fc_inv_def)
  from seen_events [OF reach] obtain rem rest where ev: "seen t @ rest = on_connect k la pa # rem @ [OnConnectionClose la pa]"
    and rem: "rem = [] \<or> rem = [OnRemoteClose la pa]" and fin: "ct_pc t = CT_done \<longrightarrow> rest = []" by blast
  have "user env @ map (event_states to_string) rest =
      map (event_states to_string) (on_connect k la pa # rem @ [OnConnectionClose la pa])"
    unfolding log map_append [symmetric] ev ..
  with rem fin have "\<exists>rem rest. user env @ rest =
        \<lparr>code = Connect_code, data = Data_on_connect \<lparr>ring_buf = 0\<rparr> (conn_new k la pa)\<rparr> # rem @
        [\<lparr>code = ConnectionClose_code, data = Data_on_connection_close (to_string la) (to_string pa)\<rparr>] \<and>
      (rem = [] \<or> rem = [\<lparr>code = RemoteClose_code, data = Data_on_remote_close (to_string la) (to_string pa)\<rparr>]) \<and>
      (ct_pc t = CT_done \<longrightarrow> rest = [])"
    by (intro exI [of _ "map (event_states to_string) rem"] exI [of _ "map (event_states to_string) rest"]) auto
  moreover have "states_ok s" if "s \<in> set (user env)" for s
    using that assms(2) event_states_ok calls_conn_event [OF reach] by (auto simp: log foreign_ok_def)
  ultimately show ?thesis using log np by blast
qed

theorem foreign_sees_protocol_witness:
  "\<exists>t conns env. fc_reach (logging (\<lambda>h log s. (null, h))) (\<lambda>n. if n = 1 then ''local'' else ''peer'') 0 (1 :: nat) 2
       \<lparr>heap = Map.empty, user = []\<rparr> ((t :: (nat, string) conn_task, conns), env) \<and> ct_pc t = CT_done \<and>
     user env ! 1 = \<lparr>code = ConnectionClose_code, data = Data_on_connection_close ''local'' ''peer''\<rparr> \<and>
     (\<forall>m. ct_pc t \<noteq> CT_panicked m)"
proof -
  let ?ans = "\<lambda>h log s. (null, h)" and ?ts = "\<lambda>n :: nat. if n = 1 then ''local'' else ''peer''"
  let ?env = "\<lparr>heap = Map.empty, user = []\<rparr>"
  let ?s = "(demo_conn, ?env)"
  obtain t :: "(nat, string) conn_task" and conns env where
    run: "fc_run (logging ?ans) ?ts [Fc_silent Ct_first_poll, Fc_returned, Fc_silent User_drop, Fc_config] ?s = Some ((t, conns), env)"
    and t: "ct_pc t = CT_done" and len: "length (user env) = 2"
    by (simp add: ct_eval returned_def closing_def call_with_texts_def cstring_new_def on_conn_call_def logging_def
        parse_c_err_str_def)
  have "fc_reach (logging ?ans) ?ts 0 1 2 ?env ?s"
    by (rule reach_init) (simp add: fc_init_def conn_init_def demo_conn_def)
  then have reach: "fc_reach (logging ?ans) ?ts 0 1 2 ?env ((t, conns), env)" by (rule fc_reach_run [OF _ run])
  have ok: "foreign_ok ?ans ?ts ?env" by (auto simp: foreign_ok_def answer_ok_def)
  from foreign_sees_protocol [OF reach ok] t len
  have "user env ! 1 = \<lparr>code = ConnectionClose_code, data = Data_on_connection_close ''local'' ''peer''\<rparr>"
    "\<forall>m. ct_pc t \<noteq> CT_panicked m" by auto
  with reach t show ?thesis by (intro exI conjI)
qed

end
