(* ===== verification/Tracer.thy ===== *)
theory Tracer
  imports C_Utils
begin

text \<open>
  The model of \<open>src/c_api/tracer.rs\<close>: levels, the visitor that picks the message of an event, and the
  structure handed to the foreign logger; and \<open>init_logger\<close> of \<open>src/lib.rs\<close>.

  An event is its level, target, optional file and line (an unsigned 32-bit number) and its fields with
  the text of their \<open>Debug\<close>.  Pointers into strings are the strings.
\<close>

section \<open>Levels\<close>

datatype trace_level = Trace | Debug | Info | Warn | Error | Off

datatype level = TRACE | DEBUG | INFO | WARN | ERROR

datatype level_filter = F_OFF | F_ERROR | F_WARN | F_INFO | F_DEBUG | F_TRACE

fun trace_level_value :: "trace_level \<Rightarrow> nat" where
  "trace_level_value Trace = 0"
| "trace_level_value Debug = 1"
| "trace_level_value Info = 2"
| "trace_level_value Warn = 3"
| "trace_level_value Error = 4"
| "trace_level_value Off = 5"

fun into_level_filter :: "trace_level \<Rightarrow> level_filter" where
  "into_level_filter Trace = F_TRACE"
| "into_level_filter Debug = F_DEBUG"
| "into_level_filter Info = F_INFO"
| "into_level_filter Warn = F_WARN"
| "into_level_filter Error = F_ERROR"
| "into_level_filter Off = F_OFF"

fun from_level :: "level \<Rightarrow> trace_level" where
  "from_level TRACE = Trace"
| "from_level DEBUG = Debug"
| "from_level INFO = Info"
| "from_level WARN = Warn"
| "from_level ERROR = Error"

section \<open>Events\<close>

record event =
  ev_level :: level
  ev_target :: string
  ev_file :: "string option"
  ev_line :: "32 word option"
  ev_fields :: "(string \<times> string) list"

record log_data =
  ld_level :: trace_level
  ld_target :: string
  ld_target_n :: nat
  ld_file :: string
  ld_file_n :: nat
  ld_line :: "32 word"
  ld_message :: string
  ld_message_n :: nat

definition MESSAGE :: string where
  "MESSAGE = ''message''"

definition EMPTY :: string where
  "EMPTY = ''''"

text \<open>\<open>GetMsgVisitor::record_debug\<close>; recording an event visits its fields in order.\<close>

definition record_debug :: "string \<times> string \<Rightarrow> string option \<Rightarrow> string option" where
  "record_debug f v = (if fst f = MESSAGE then Some (snd f) else v)"

definition on_event :: "event \<Rightarrow> log_data" where
  "on_event e =
     (let get_msg = fold record_debug (ev_fields e) None;
          file = (case ev_file e of None \<Rightarrow> EMPTY | Some f \<Rightarrow> f);
          message = (case get_msg of None \<Rightarrow> EMPTY | Some m \<Rightarrow> m)
      in \<lparr>ld_level = from_level (ev_level e), ld_target = ev_target e, ld_target_n = length (ev_target e),
          ld_file = file, ld_file_n = length file,
          ld_line = (case ev_line e of None \<Rightarrow> - 1 | Some l \<Rightarrow> l),
          ld_message = message, ld_message_n = length message\<rparr>)"

section \<open>Installing the logger\<close>

text \<open>A subscriber is its layers with their filters; \<open>try_init\<close> is the function of the library that installs a
  subscriber in the global state \<open>'g\<close>, with the text of its error.\<close>

datatype log_layer = Foreign_logger | Fmt_layer

type_synonym filtered = "log_layer \<times> level_filter"

type_synonym 'g try_init_fn = "filtered list \<Rightarrow> 'g \<Rightarrow> (string + unit) \<times> 'g"

definition init_logger :: "'g try_init_fn \<Rightarrow> level_filter \<Rightarrow> filtered \<Rightarrow> 'g \<Rightarrow> (string + unit) \<times> 'g" where
  "init_logger try_init log_print_level foreign_logger g =
     (let fmt_layer = (Fmt_layer, log_print_level) in try_init [foreign_logger, fmt_layer] g)"

text \<open>The result is the heap, what is stored through \<open>err\<close>, and the global state.\<close>

definition socket_manager_logger_init ::
  "'g try_init_fn \<Rightarrow> malloc_fn \<Rightarrow> c_heap \<Rightarrow> trace_level \<Rightarrow> trace_level \<Rightarrow> 'g \<Rightarrow> (c_heap \<times> ptr) outcome \<times> 'g" where
  "socket_manager_logger_init try_init malloc h tracer_max_level log_print_level g =
     (let foreign_logger = (Foreign_logger, into_level_filter tracer_max_level) in
      case init_logger try_init (into_level_filter log_print_level) foreign_logger g of
        (Inr _, g') \<Rightarrow> (Val (h, null), g')
      | (Inl e, g') \<Rightarrow> (write_display_c_str malloc h e, g'))"

section \<open>Filters\<close>

text \<open>Filters are ordered by what they let pass; an event passes if the filter of its own level does not
  exceed the filter.\<close>

fun verbosity :: "level_filter \<Rightarrow> nat" where
  "verbosity F_OFF = 0"
| "verbosity F_ERROR = 1"
| "verbosity F_WARN = 2"
| "verbosity F_INFO = 3"
| "verbosity F_DEBUG = 4"
| "verbosity F_TRACE = 5"

lemma verbosity_inject: "verbosity f = verbosity g \<Longrightarrow> f = g"
  by (cases f; cases g) simp_all

instantiation level_filter :: linorder
begin

definition less_eq_level_filter :: "level_filter \<Rightarrow> level_filter \<Rightarrow> bool" where
  "f \<le> g \<longleftrightarrow> verbosity f \<le> verbosity g"

definition less_level_filter :: "level_filter \<Rightarrow> level_filter \<Rightarrow> bool" where
  "f < g \<longleftrightarrow> verbosity f < verbosity g"

instance
  by standard (auto simp: less_eq_level_filter_def less_level_filter_def intro: verbosity_inject)

end

definition passes :: "level \<Rightarrow> level_filter \<Rightarrow> bool" where
  "passes lv f \<longleftrightarrow> into_level_filter (from_level lv) \<le> f"

text \<open>The records the foreign logger receives for an event.\<close>

definition foreign_records :: "filtered list \<Rightarrow> event \<Rightarrow> log_data list" where
  "foreign_records layers e =
     map (\<lambda>_. on_event e) (filter (\<lambda>(l, f). l = Foreign_logger \<and> passes (ev_level e) f) layers)"

section \<open>Properties\<close>

text \<open>The levels of the C interface mean the same on both ways.  A filter set from C lets an event pass
  exactly if the number of the event's level in the C enumeration is at least that of the filter; \<open>Off\<close>
  lets none pass.\<close>

lemma trace_level_filter:
  "passes lv (into_level_filter t) \<longleftrightarrow> trace_level_value t \<le> trace_level_value (from_level lv)"
  by (cases lv; cases t) (simp_all add: passes_def less_eq_level_filter_def)

text \<open>What is documented of \<open>try_init\<close>: it installs a subscriber once, and afterwards it fails.\<close>

definition try_init_ok :: "'g try_init_fn \<Rightarrow> ('g \<Rightarrow> filtered list option) \<Rightarrow> bool" where
  "try_init_ok try_init installed \<longleftrightarrow>
     (\<forall>layers g. installed g = None \<longrightarrow>
        (\<exists>g'. try_init layers g = (Inr (), g') \<and> installed g' = Some layers)) \<and>
     (\<forall>layers g s. installed g = Some s \<longrightarrow>
        (\<exists>e g'. try_init layers g = (Inl e, g') \<and> NUL \<notin> set e \<and> installed g' = Some s))"

text \<open>The logger is installed once and filters as asked.  The first call reports no error; from then on the
  foreign logger receives one record for each event whose level is at least the one given, and none for
  the others; every later call reports an error and changes nothing of this.\<close>

lemma logger_installed_once:
  assumes "try_init_ok try_init installed" and "installed g = None"
  shows "\<exists>g1 layers. socket_manager_logger_init try_init malloc h t p g = (Val (h, null), g1) \<and>
    installed g1 = Some layers \<and>
    (\<forall>e. foreign_records layers e =
       (if trace_level_value t \<le> trace_level_value (from_level (ev_level e)) then [on_event e] else [])) \<and>
    (\<forall>malloc' h' t' p'. \<exists>m g2. NUL \<notin> set m \<and> installed g2 = Some layers \<and>
       socket_manager_logger_init try_init malloc' h' t' p' g1 = (write_display_c_str malloc' h' m, g2))"
proof -
  let ?layers = "[(Foreign_logger, into_level_filter t), (Fmt_layer, into_level_filter p)]"
  obtain g1 where g1: "try_init ?layers g = (Inr (), g1)" "installed g1 = Some ?layers"
    using assms unfolding try_init_ok_def by blast
  have again: "\<exists>m g2. try_init layers g1 = (Inl m, g2) \<and> NUL \<notin> set m \<and> installed g2 = Some ?layers" for layers
    using assms(1) g1(2) unfolding try_init_ok_def by blast
  have "\<exists>m g2. NUL \<notin> set m \<and> installed g2 = Some ?layers \<and>
      socket_manager_logger_init try_init malloc' h' t' p' g1 = (write_display_c_str malloc' h' m, g2)" for malloc' h' t' p'
    using again [of "[(Foreign_logger, into_level_filter t'), (Fmt_layer, into_level_filter p')]"]
    by (auto simp: socket_manager_logger_init_def init_logger_def)
  with g1 show ?thesis
    by (intro exI [of _ g1] exI [of _ ?layers])
      (simp add: socket_manager_logger_init_def init_logger_def foreign_records_def trace_level_filter)
qed

lemma fold_record_debug:
  "fold record_debug fs v =
     (case filter (\<lambda>f. fst f = MESSAGE) fs of [] \<Rightarrow> v | gs \<Rightarrow> Some (snd (last gs)))"
  by (induction fs arbitrary: v) (auto simp: record_debug_def split: list.splits)

text \<open>The log structure is well formed.  The lengths are those of the texts, an event without file or
  message has empty texts, the message is the last field of that name, and a missing line is -1.\<close>

lemma on_event_well_formed:
  "ld_target_n (on_event e) = length (ld_target (on_event e)) \<and> ld_file_n (on_event e) = length (ld_file (on_event e)) \<and>
   ld_message_n (on_event e) = length (ld_message (on_event e)) \<and>
   ld_message (on_event e) = (case filter (\<lambda>f. fst f = MESSAGE) (ev_fields e) of [] \<Rightarrow> '''' | gs \<Rightarrow> snd (last gs)) \<and>
   (sint (ld_line (on_event e)) = (case ev_line e of None \<Rightarrow> - 1 | Some l \<Rightarrow> sint l))"
  by (auto simp: on_event_def fold_record_debug EMPTY_def Let_def split: list.splits option.splits)

end
