(* ===== verification/Spec2Isabelle.thy ===== *)
theory Spec2Isabelle
  imports C_Contract Foreign_Conn Tracer
begin

text \<open>
  A verification of the Rust library \<open>socket_manager\<close>: asynchronous TCP connections on a background
  runtime, driven through a C interface with callbacks.

  \<^bold>\<open>The program.\<close>  A \<open>SocketManager\<close> (\<open>src/lib.rs\<close>) sends commands to \<open>main\<close>, which runs on the runtime and
  spawns a task per connect and per listen command.  Each connection gets a task (\<open>src/conn_handle.rs\<close>)
  that calls \<open>OnConnect\<close> with a \<open>MsgSender\<close> (\<open>src/msg_sender.rs\<close>) and a \<open>Conn\<close> (\<open>src/conn.rs\<close>), waits for the
  user to start the connection, spawns a writer (\<open>src/write.rs\<close>) and a reader (\<open>src/read.rs\<close> on
  \<open>src/buf_read_write.rs\<close>), joins them, calls \<open>OnRemoteClose\<close> when the reader is through and
  \<open>OnConnectionClose\<close> at the end.  The files under \<open>src/c_api\<close> export this to C: functions with a return
  code and an error string, and callbacks, wakers and log records that cross the interface.

  \<^bold>\<open>The theories\<close>, in the order of their imports:

  \<^item> \<open>Sm_Prelude\<close>: the types of the Rust standard library the sources use (\<open>Poll\<close>, \<open>io::Error\<close>, \<open>io::Result\<close>,
    an outcome that may be a panic), slices of byte vectors, reachable states, the interface
    \<open>invariant_system\<close> through which every state machine below has its invariant, and its extension
    \<open>simulation\<close> for refinements.
  \<^item> \<open>Async_Ffi\<close>: \<open>CWaker\<close> and \<open>Notifier\<close> (\<open>src/c_api/async_ffi\<close>).
  \<^item> \<open>C_Utils\<close>: C strings on an explicit heap, UTF-8 (\<open>src/c_api/utils.rs\<close>).
  \<^item> \<open>Buf_Read_Write\<close>: the read buffer, with the interface \<open>async_writer\<close> of the writer it flushes to.
  \<^item> \<open>Conn\<close>: the connection handle and its configuration.
  \<^item> \<open>On_Msg\<close>: the message callback (\<open>src/c_api/on_msg.rs\<close>, \<open>OnMsgWrite\<close> of \<open>src/read.rs\<close>); it interprets
    \<open>async_writer\<close>.
  \<^item> \<open>Reader\<close>: the reader task, in both modes.
  \<^item> \<open>Msg_Sender\<close>: the sender and the laws of the ring buffer and the channel.
  \<^item> \<open>Writer\<close>: the writer task, in both modes.
  \<^item> \<open>Data_Path\<close>, \<open>Data_System\<close>: the invariant of sender and writer, the transition system of the two, and the
    interface \<open>sender_method\<close>, interpreted for each of the four methods.
  \<^item> \<open>List_Lib\<close>, \<open>Demo\<close>: a concrete instance of the libraries that satisfies the laws, and runs on it.
  \<^item> \<open>Data_Props\<close>: the properties of the data path.
  \<^item> \<open>Byte_Stream\<close>: the specification of a byte stream and the proof that the data path implements it; the
    interface \<open>call_relation\<close> says what a sender method leaves alone.
  \<^item> \<open>Conn_Handle\<close>: the connection task as a state machine, with the user's calls on the handle.
  \<^item> \<open>Connection\<close>: one whole connection, the task with its writer, its reader and its sender.
  \<^item> \<open>Manager\<close>, \<open>Manager_Props\<close>: \<open>SocketManager\<close>, \<open>main\<close>, the connecting and listening tasks and all connection
    tasks together, on any runtime (\<open>src/lib.rs\<close>, \<open>src/utils.rs\<close>), and their properties.
  \<^item> \<open>Program\<close>: the manager with all its connections, each with its sender, rings, writer and reader; it is
    related to \<open>Manager\<close> and to \<open>Connection\<close> by the interfaces \<open>invariant_system\<close> and \<open>simulation\<close>.
  \<^item> \<open>C_Api\<close>: every exported function of \<open>socket_manager.rs\<close>, \<open>connection.rs\<close> and \<open>msg_sender.rs\<close> under \<open>src/c_api\<close>,
    with the interface \<open>c_function\<close> of a function that returns a code and an error string, and its extension
    \<open>c_command\<close> for those that send a command.
  \<^item> \<open>C_Program\<close>, \<open>C_Contract\<close>: the whole program driven through the exported functions, its refinement of
    \<open>Program\<close> (by \<open>simulation\<close>), and what the calls return in every state it can reach.
  \<^item> \<open>On_Conn\<close>: the connection callback and its C structures.
  \<^item> \<open>Foreign_Conn\<close>: the connection task with the foreign callback it calls.
  \<^item> \<open>Tracer\<close>: levels, the message visitor, the log record and the installation of the logger.

  \<^bold>\<open>How the model reads.\<close>  An \<open>async fn\<close> is a state machine over its await points (\<open>w_pc\<close>, \<open>rd_pc\<close>, \<open>ct_pc\<close>,
  \<open>mt_pc\<close>, \<open>ff_pc\<close>); one step is the code between two awaits, and an event says what the awaited call
  returned.  A branch of a \<open>select!\<close> is an event of its own; \<open>biased\<close> is the order in which the step tries
  them.  Threads: a sender method takes an argument \<open>env\<close>, the steps the writer makes between any two of its
  library calls; the call as a whole is one step of the system.  Errors are values of \<open>io_result\<close>, every \<open>unwrap\<close>, assertion and index error is a \<open>Panic\<close>.
  Map entries of \<open>DashMap\<close> that own the receiver of a stop channel hold the channel's name.  Fields that
  the code does not have record history: \<open>sent\<close>, \<open>out\<close>, \<open>delivered\<close>, \<open>calls\<close>, \<open>mt_calls\<close>, \<open>mt_spawned\<close>.

  \<^bold>\<open>What is shown.\<close>
  Program: its runs are, seen from the manager, runs of the manager, and, seen at each connection, runs of
  one connection; so everything below that is shown for one holds for each of any number of them.
  Data path: bytes leave in the order they were handed over, none are lost or duplicated, a dropped
  sender's rings are drained, the automatic flush writes out what waits, the \<open>unsafe\<close> advance of the read
  index is in range, and the four methods have the outcomes their callers may rely on: a pending send is
  woken by whatever makes room or closes the connection; as a whole the data path refines a byte stream.
  Reader: what the callback took and what is buffered is what was read; the flush tick delivers, and its
  cancellation of a suspended read loses nothing.
  Connection: the callback protocol, the end of the join in every case, the handle is consumed once,
  nothing is left in the map; for the whole connection, \<open>OnRemoteClose\<close> comes after the last byte, and a
  clean end has lost nothing in either direction.
  Manager: a connect command leads to \<open>OnConnect\<close> or \<open>OnConnectError\<close> but not both; while \<open>main\<close> runs, a
  connection that has called \<open>OnConnect\<close> is never stuck: its own polls bring it to \<open>OnConnectionClose\<close> or to a
  wait for the user or for a running child, which one call of the user or the ends of the children resolve;
  \<open>Abort\<close> closes every running connection and ends every other task; a stopped manager stays stopped; \<open>join\<close> waits
  for the thread once.
  C interface: every call that C code makes is at most one step of the program, so all of the above holds
  under any use of the interface; no call on a live handle panics, each gives its caller what the Rust method
  answers, and it is stated which calls may not return; the C code sees the callback protocol of each
  connection; error strings survive the round trip, the union of the connection callback is read as it was
  written, counts from C are trusted only within bounds.
  Where the code does not do what its documentation says, a theorem states what it does: a listener stops
  accepting after one accept error, two listeners on one address or two connections between the same addresses
  stop each other, sends on a closed connection.

  \<^bold>\<open>Fuel and bounds.\<close>  The loops of \<open>WriteAll::poll\<close>, \<open>burst_write\<close> and \<open>send_async\<close> terminate by a measure and
  have no fuel.  The future of \<open>send_block\<close> is polled \<open>fuel\<close> times; \<open>length bytes + 1\<close> polls are enough when
  every poll makes progress, and no fuel is enough on a closed ring, both of which are theorems.  Called on
  a thread of the runtime it panics where it would have to wait.
  \<open>usize\<close> is 64 bits where an overflow check can fail; \<open>c_int\<close> and \<open>c_long\<close> are 32 and 64 bit words.

  \<^bold>\<open>Assumed of other code.\<close>  The crates \<open>async_ringbuf\<close> and \<open>tokio\<close> are not part of the repository: ring
  buffer and channel are the argument \<open>L\<close> with the laws \<open>rb_laws\<close>, the read half is \<open>poll_read\<close> with
  \<open>read_half_ok\<close> and \<open>read_eof_ok\<close>, the socket's writes are events, \<open>malloc\<close> has \<open>malloc_ok\<close>, the installation of
  a subscriber has \<open>try_init_ok\<close>.  After \<open>main\<close> has returned, the runtime may drop a task at an await; whether it still polls
  tasks is the argument \<open>polls\<close> of \<open>manager_new\<close> (field \<open>polls_after\<close>), which the theorem on \<open>Abort\<close> assumes, as the
  multi-threaded runtime does; the steps on the data of a connection are not restricted by it.  The foreign
  callbacks are arguments without assumptions, except where a theorem names one.

  \<^bold>\<open>Not modelled.\<close>  Time: a delay or an interval is zero or not, a tick is an event, and the time-out of the
  shutdown is not measured.  The C++ wrapper, tests, examples and
  build files are outside the Rust implementation.  Memory orderings of the atomics are not modelled: a
  \<open>compare_exchange\<close> is atomic.  The text of an \<open>io::Error\<close> of the operating system is an argument.
\<close>

section \<open>Sending through the C interface\<close>

text \<open>C18: the outcomes of the asynchronous send as C code sees them.  On every reachable connection, for a message
  of less than \<open>2 ^ 63\<close> bytes and with memory for an error text: a null notifier fails the assertion.  Otherwise the
  call returns.  An empty message gives 0 with a null error and changes nothing.  Any other gives the positive
  number of bytes that were handed over with a null error; or 0 with an error string saying that the connection is
  closed, which the caller can read and free; or \<open>PENDING\<close>, with nothing handed over, the caller's error variable
  not written, and the notifier registered in the ring or woken since the call began.\<close>

theorem c_send_async_contract:
  assumes "rb_laws L V" and "dp_reach L config (Some s, d)" and "writer_env L config env"
    and "length bytes < 2 ^ 63" and "malloc_avail malloc h"
  shows "if this notifier = null
    then socket_manager_msg_sender_send_async malloc h L env bytes notifier err s d =
      Panic ''assertion failed: !notifier.this.is_null()''
    else if bytes = []
    then socket_manager_msg_sender_send_async malloc h L env bytes notifier err s d = Val (0, null, h, d)
    else \<exists>code p h' d'.
      socket_manager_msg_sender_send_async malloc h L env bytes notifier err s d = Val (code, p, h', d') \<and>
      (0 < sint code \<and> sint code \<le> int (length bytes) \<and> p = null \<and> h' = h \<and>
         sent d' = sent d @ take (unat code) bytes \<or>
       code = 0 \<and> p \<noteq> null \<and> sent d' = sent d \<and>
         parse_c_err_str h' p = Val (Inl (to_string_lossy ''connection closed''), h) \<or>
       code = PENDING \<and> p = err \<and> h' = h \<and> sent d' = sent d \<and>
         waits_or_woken V (to_waker notifier) (rings d ! ring_buf s) (rings d' ! ring_buf s))"
proof (cases "this notifier = null \<or> bytes = []")
  case True
  then show ?thesis by (auto simp: socket_manager_msg_sender_send_async_def send_async_def)
next
  case False
  then have n: "this notifier \<noteq> null" and bytes: "bytes \<noteq> []" by simp_all
  obtain res d' where sa: "send_async L env bytes (to_waker notifier) s d = (res, d')" by fastforce
  have inv: "dp_inv V [ring_buf s] d" using sys_invD(1) [OF assms(1,2)] by (simp add: opens_of_def)
  from send_async_post [OF assms(1) writer_env_frame [OF assms(3)] bytes sa reach_ring_buf [OF assms(1,2)]]
    send_async_waker [OF assms(1,3) inv, of bytes "to_waker notifier" d'] sa
  consider (taken) n where "res = Val (Ready (Inr n))" "0 < n" "n \<le> length bytes" "sent d' = sent d @ take n bytes"
    | (closed) "res = Val (Ready (io_err Other ''connection closed''))" "sent d' = sent d"
    | (full) "res = Val Pending" "sent d' = sent d"
        "waits_or_woken V (to_waker notifier) (rings d ! ring_buf s) (rings d' ! ring_buf s)"
    unfolding async_outcome_def by blast
  then show ?thesis
  proof cases
    case taken
    with c_long_of_nat [of n] assms(4) sa False show ?thesis
      by (simp add: socket_manager_msg_sender_send_async_def)
  next
    case closed
    have "NUL \<notin> set ''connection closed''" by simp
    from display_written [OF assms(5) this] closed sa False show ?thesis
      by (auto simp: socket_manager_msg_sender_send_async_def io_err_def)
  next
    case full
    with sa False show ?thesis by (simp add: socket_manager_msg_sender_send_async_def)
  qed
qed

theorem c_send_async_contract_witness:
  "\<exists>code h' d'. socket_manager_msg_sender_send_async demo_malloc Map.empty list_lib (\<lambda>d. d) [7, 8] \<lparr>this = 9\<rparr> 4
       demo_sender (demo_dp [] (False, False) ([0], False, False) 0 [] W_recv []) = Val (code, null, h', d') \<and>
     sent d' = [7, 8]"
proof -
  let ?d = "demo_dp [] (False, False) ([0], False, False) 0 [] W_recv []" and ?n = "\<lparr>this = 9\<rparr> :: notifier"
  have m: "malloc_avail demo_malloc Map.empty" using demo_malloc_ok by (simp add: malloc_avail_def demo_malloc_def)
  have "fst (send_async list_lib (\<lambda>d. d) [7, 8] (to_waker ?n) demo_sender ?d) = Val (Ready (Inr 2))"
    using demo_push [of "[7, 8]" "[]" False "([0], False, False)" 0 "[]" W_recv "[]"]
    by (simp add: send_async_def send_async_loop.simps RING_BUFFER_SIZE_def demo_defs)
  then obtain d' where "socket_manager_msg_sender_send_async demo_malloc Map.empty list_lib (\<lambda>d. d) [7, 8] ?n 4
      demo_sender ?d = Val (2, null, Map.empty, d')"
    by (cases "send_async list_lib (\<lambda>d. d) [7, 8] (to_waker ?n) demo_sender ?d")
      (auto simp: socket_manager_msg_sender_send_async_def)
  moreover have "sent ?d = []" by (simp add: demo_dp_def)
  ultimately show ?thesis
    using c_send_async_contract [OF list_lib_laws demo_init writer_env_id _ m, of "[7, 8]" ?n 4]
    by (auto simp: PENDING_def)
qed

end
